(* ===== verification/Prelude.thy ===== *)
theory Prelude
  imports Main "HOL-Library.Word" "HOL-Library.List_Lexorder" "HOL-Library.Char_ord"
    "HOL-Library.Signed_Division" "HOL-Library.Sublist"
begin

text \<open>
  Shared ground of the development: the exception type and the result type of code that
  may throw, machine integers of a given width, bytes read as signed characters, and the
  list facts that every component uses.

  \<^item> An iterator pair \<open>beg, end\<close> of the source is the list of the characters that are
    left; advancing \<open>beg\<close> is taking the tail, \<open>beg == end\<close> is the empty list,
    \<open>std::distance(beg, end)\<close> is the length.
  \<^item> A throwing function has a result of type \<open>exn + 'a\<close>: \<open>Inl\<close> is the exception in
    flight, \<open>Inr\<close> the returned value.
  \<^item> \<open>Out_of_bounds\<close> is not an exception of the source. It marks a read through an
    iterator that is already at \<open>end\<close>, which C++ leaves undefined.
  \<^item> \<open>Fuel_exhausted\<close> is not an exception of the source either: recursions that are
    not structural take a fuel argument, and the theories prove that the fuel given by
    the top-level functions is never exhausted.
\<close>

section \<open>Collections of facts\<close>

named_theorems shrinks \<open>how much input a parsing function leaves\<close>
named_theorems suffixes \<open>the input left by a parsing function is a suffix of its input\<close>
named_theorems codec_simps \<open>unfolding facts for the serializers\<close>

section \<open>Exceptions and results\<close>

text \<open>
  The classes of \<open>fas/misc/json/json_except.hpp\<close> (each carries \<open>tail_of\<close>, the number of
  characters from the error to the end of the input), and the standard exceptions that the
  daemon's own code throws.
\<close>

datatype json_class =
    Json_error string
  | Serialize_error
  | Deserialize_error
  | Not_supported
  | Invalid_json
  | Invalid_json_null
  | Invalid_json_number
  | Invalid_json_bool
  | Invalid_json_string
  | Invalid_json_member
  | Invalid_json_object
  | Invalid_json_array
  | Invalid_conversion
  | Invalid_conversion_from string string
  | Unexpected_end_fragment
  | Unexpected_end_fragment_msg string
  | Expected_of string

datatype exn =
    Json json_class nat
  | Logic_error string
  | Runtime_error string
  | Out_of_bounds
  | Fuel_exhausted

type_synonym 'a res = "exn + 'a"

abbreviation throw :: "json_class \<Rightarrow> nat \<Rightarrow> 'a res" where
  "throw k n \<equiv> Inl (Json k n)"

text \<open>Sequencing of code that may throw.\<close>

definition bindE :: "'e + 'a \<Rightarrow> ('a \<Rightarrow> 'e + 'b) \<Rightarrow> 'e + 'b" where
  "bindE m f = (case m of Inl e \<Rightarrow> Inl e | Inr x \<Rightarrow> f x)"

lemma bindE_simps [simp]:
  "bindE (Inl e) f = Inl e"
  "bindE (Inr x) f = f x"
  by (simp_all add: bindE_def)

lemma bindE_Inr_iff [simp]: "bindE m f = Inr y \<longleftrightarrow> (\<exists>x. m = Inr x \<and> f x = Inr y)"
  by (cases m) auto

lemma bindE_Inl_iff: "bindE m f = Inl e \<longleftrightarrow> m = Inl e \<or> (\<exists>x. m = Inr x \<and> f x = Inl e)"
  by (cases m) auto

lemma bindE_cong [fundef_cong]:
  assumes "m = m'" and "\<And>x. m' = Inr x \<Longrightarrow> f x = g x"
  shows "bindE m f = bindE m' g"
  using assms by (cases m') auto

lemma bindE_split:
  "P (bindE m f) \<longleftrightarrow> (\<forall>e. m = Inl e \<longrightarrow> P (Inl e)) \<and> (\<forall>x. m = Inr x \<longrightarrow> P (f x))"
  by (cases m) auto

section \<open>Characters\<close>

text \<open>
  A byte is a HOL \<^typ>\<open>char\<close>. The daemon is built for x86, where \<open>char\<close> is signed:
  comparisons such as \<open>*beg <= 32\<close> read the byte as two's complement, so a byte of 128
  or more is negative. Comparisons of strings (\<open>std::string::operator<\<close> and
  \<open>leveldb::Slice::compare\<close>) read bytes as unsigned; that is the order of
  HOL-Library's Char_ord and List_Lexorder.
\<close>

abbreviation byte :: "char \<Rightarrow> nat" where
  "byte c \<equiv> of_char c"

definition schar :: "char \<Rightarrow> int" where
  "schar c = (if byte c < 128 then int (byte c) else int (byte c) - 256)"

definition is_digit :: "char \<Rightarrow> bool" where
  "is_digit c \<longleftrightarrow> 48 \<le> schar c \<and> schar c \<le> 57"

definition digit_val :: "char \<Rightarrow> int" where
  "digit_val c = schar c - 48"

text \<open>The characters C writes as escapes.\<close>

abbreviation NUL :: char where "NUL \<equiv> CHR 0x00"
abbreviation BS :: char where "BS \<equiv> CHR 0x08"
abbreviation TAB :: char where "TAB \<equiv> CHR 0x09"
abbreviation LF :: char where "LF \<equiv> CHR 0x0A"
abbreviation FF :: char where "FF \<equiv> CHR 0x0C"
abbreviation CR :: char where "CR \<equiv> CHR 0x0D"
abbreviation DQ :: char where "DQ \<equiv> CHR 0x22"
abbreviation BSL :: char where "BSL \<equiv> CHR 0x5C"

lemma byte_char_of [simp]: "n < 256 \<Longrightarrow> byte (char_of n) = n"
  by simp


section \<open>Suffixes\<close>

text \<open>
  A parser returns a suffix of its input; these are the rules that chain the facts about
  single parsers.
\<close>

lemma strict_suffix_Cons: "suffix q t \<Longrightarrow> strict_suffix q (c # t)"
  by (auto simp: strict_suffix_def suffix_Cons dest: suffix_length_le)

lemma strict_suffix_tl [simp, intro]: "s \<noteq> [] \<Longrightarrow> strict_suffix (tl s) s"
  by (cases s) (simp_all add: strict_suffix_Cons)

lemma suffix_tlI [intro]: "suffix q (tl s) \<Longrightarrow> suffix q s"
  by (meson suffix_order.trans suffix_tl)

lemma suffix_tl_left: "suffix q s \<Longrightarrow> suffix (tl q) s"
  by (meson suffix_order.trans suffix_tl)

lemmas suffix_trans_rules =
  suffix_order.trans suffix_order.less_trans suffix_order.le_less_trans
  suffix_order.less_le_trans suffix_order.less_imp_le

lemma strict_suffix_length: "strict_suffix r s \<Longrightarrow> length r < length s"
  by (rule suffix_length_less)

end
