(* ===== verification/Json_Except.thy ===== *)
theory Json_Except
  imports Prelude
begin

text \<open>
  The exception classes of the JSON library, \<open>fas/misc/json/json_except.hpp\<close>: what each
  class passes to its base \<open>std::runtime_error\<close>, and \<open>json_error::message\<close>, which marks
  the place of the error in the input. The classes themselves are the constructors of
  \<open>json_class\<close> in Prelude.
\<close>

fun what :: "json_class \<Rightarrow> string" where
  "what (Json_error m) = m"
| "what Serialize_error = ''serialize error''"
| "what Deserialize_error = ''deserialize error''"
| "what Not_supported = ''not supported''"
| "what Invalid_json = ''invalid json''"
| "what Invalid_json_null = ''invalid json null''"
| "what Invalid_json_number = ''invalid json number''"
| "what Invalid_json_bool = ''invalid json bool''"
| "what Invalid_json_string = ''invalid json string''"
| "what Invalid_json_member = ''invalid json member''"
| "what Invalid_json_object = ''invalid json object''"
| "what Invalid_json_array = ''invalid json array''"
| "what Invalid_conversion = ''invalid conversion''"
| "what (Invalid_conversion_from f t) =
     ''invalid conversion from '' @ [CHR 0x27] @ f @ [CHR 0x27] @ '' to '' @ [CHR 0x27] @ t"
| "what Unexpected_end_fragment = ''unexpected end of ragment''"
| "what (Unexpected_end_fragment_msg s) = ''unexpected end of ragment: '' @ s"
| "what (Expected_of s) = ''expected of '' @ [CHR 0x27] @ s @ [CHR 0x27]"

definition message :: "json_class \<Rightarrow> nat \<Rightarrow> string \<Rightarrow> string" where
  "message k tail_of s =
     (if length s < tail_of then what k
      else what k @ '': '' @ take (length s - tail_of) s @ ''>>>'' @ drop (length s - tail_of) s)"

text \<open>Removing the marker from a message that has one gives back the whole input.\<close>

lemma message_splits_input:
  assumes "t \<le> length s"
  shows "\<exists>pre post. s = pre @ post \<and> length post = t
           \<and> message k t s = what k @ '': '' @ pre @ ''>>>'' @ post"
  using assms
  by (intro exI [of _ "take (length s - t) s"] exI [of _ "drop (length s - t) s"])
     (simp add: message_def)

end
