(* ===== verification/Json_Parser.thy ===== *)
theory Json_Parser
  imports Json_Except
begin

text \<open>
  The class \<open>fas::json::parser\<close> (\<open>fas/misc/json/json_parser.hpp\<close>): recognisers that skip
  one JSON token or value and return the iterator behind it. The counter \<open>p\<close> that some of
  them carry counts consumed characters; it is kept where an exception reports it.
\<close>

section \<open>White space and comments\<close>

definition is_space :: "char \<Rightarrow> bool" where
  "is_space c \<longleftrightarrow> c = CHR '' '' \<or> c = TAB \<or> c = CR \<or> c = LF"

text \<open>
  The loop of \<open>parse_space\<close>; the first argument is the local \<open>start_comment\<close>. The branch
  that throws "unterminated comment" tests \<open>start_comment\<close> where it is false, so the loop
  never throws: an unterminated comment silently runs to the end of the input.
\<close>

fun parse_space_loop :: "bool \<Rightarrow> string \<Rightarrow> string" where
  "parse_space_loop sc [] = []"
| "parse_space_loop True (c # s) =
     (if c = CHR ''*''
      then parse_space_loop (\<not> (s \<noteq> [] \<and> hd s = CHR ''/'')) s
      else parse_space_loop True s)"
| "parse_space_loop False (c # s) =
     (if \<not> is_space c
      then (if c = CHR ''/''
            then parse_space_loop (s \<noteq> [] \<and> hd s = CHR ''*'') s
            else c # s)
      else parse_space_loop False s)"

definition parse_space :: "string \<Rightarrow> string" where
  "parse_space s = parse_space_loop False s"

section \<open>Literals\<close>

text \<open>
  \<open>expect_tail w rest p\<close> is the chain \<open>++p && ++beg != end && *beg == ...\<close> of
  \<open>parse_null\<close> and \<open>parse_bool\<close>: \<open>rest\<close> are the characters of the word \<open>w\<close> still to come.
\<close>

fun expect_tail :: "string \<Rightarrow> string \<Rightarrow> nat \<Rightarrow> string \<Rightarrow> string res" where
  "expect_tail w [] p s = Inr s"
| "expect_tail w (x # xs) p [] = throw Unexpected_end_fragment 0"
| "expect_tail w (x # xs) p (c # s) =
     (if c = x then expect_tail w xs (p + 1) s else throw (Expected_of w) p)"

definition is_null :: "string \<Rightarrow> bool" where
  "is_null s \<longleftrightarrow> s \<noteq> [] \<and> hd s = CHR ''n''"

fun parse_null :: "string \<Rightarrow> string res" where
  "parse_null [] = throw Unexpected_end_fragment 0"
| "parse_null (c # s) =
     (if c = CHR ''n'' then expect_tail ''null'' ''ull'' 1 s else throw Invalid_json_null 0)"

definition is_bool :: "string \<Rightarrow> bool" where
  "is_bool s \<longleftrightarrow> s \<noteq> [] \<and> (hd s = CHR ''t'' \<or> hd s = CHR ''f'')"

fun parse_bool :: "string \<Rightarrow> string res" where
  "parse_bool [] = throw Unexpected_end_fragment 0"
| "parse_bool (c # s) =
     (if c = CHR ''t'' then expect_tail ''true'' ''rue'' 1 s
      else if c = CHR ''f'' then expect_tail ''false'' ''alse'' 1 s
      else throw Invalid_json_bool 0)"

section \<open>Numbers\<close>

definition is_number :: "string \<Rightarrow> bool" where
  "is_number s \<longleftrightarrow> s \<noteq> [] \<and> (hd s = CHR ''-'' \<or> is_digit (hd s))"

fun parse_digit :: "string \<Rightarrow> nat \<Rightarrow> string \<times> nat" where
  "parse_digit [] p = ([], p)"
| "parse_digit (c # s) p = (if is_digit c then parse_digit s (p + 1) else (c # s, p))"

text \<open>The four stages of \<open>parse_number\<close>: sign, integer part, fraction, exponent.\<close>

definition parse_sign :: "string \<Rightarrow> nat \<Rightarrow> string \<times> nat" where
  "parse_sign s p = (if s \<noteq> [] \<and> hd s = CHR ''-'' then (tl s, p + 1) else (s, p))"

definition parse_int_part :: "string \<times> nat \<Rightarrow> (string \<times> nat) res" where
  "parse_int_part = (\<lambda>(s, p).
     if s = [] then throw Unexpected_end_fragment 0
     else if hd s = CHR ''0'' then Inr (tl s, p + 1)
     else if is_digit (hd s) then Inr (parse_digit s p)
     else throw Invalid_json_number p)"

definition parse_frac :: "string \<times> nat \<Rightarrow> (string \<times> nat) res" where
  "parse_frac = (\<lambda>(s, p).
     if s \<noteq> [] \<and> hd s = CHR ''.''
     then (let s = tl s; p = p + 1 in
           if s = [] then throw Unexpected_end_fragment 0
           else if is_digit (hd s) then Inr (parse_digit s p)
           else throw Invalid_json_number p)
     else Inr (s, p))"

definition parse_exp :: "string \<times> nat \<Rightarrow> (string \<times> nat) res" where
  "parse_exp = (\<lambda>(s, p).
     if s \<noteq> [] \<and> (hd s = CHR ''e'' \<or> hd s = CHR ''E'')
     then (let s = tl s; p = p + 1;
               (s, p) = (if s \<noteq> [] \<and> (hd s = CHR ''-'' \<or> hd s = CHR ''+'')
                         then (tl s, p + 1) else (s, p)) in
           if s = [] then throw Unexpected_end_fragment 0
           else if \<not> is_digit (hd s) then throw Invalid_json_number p
           else Inr (parse_digit s p))
     else Inr (s, p))"

definition parse_number :: "string \<Rightarrow> string res" where
  "parse_number s =
     (if s = [] then throw Unexpected_end_fragment 0
      else bindE (parse_int_part (parse_sign s 0)) (\<lambda>sp.
           bindE (parse_frac sp) (\<lambda>sp.
           bindE (parse_exp sp) (\<lambda>(s, p). Inr s))))"

section \<open>Strings\<close>

definition is_string :: "string \<Rightarrow> bool" where
  "is_string s \<longleftrightarrow> s \<noteq> [] \<and> hd s = DQ"

definition is_hex :: "char \<Rightarrow> bool" where
  "is_hex c \<longleftrightarrow> is_digit c \<or> (CHR ''A'' \<le> c \<and> c \<le> CHR ''F'') \<or> (CHR ''a'' \<le> c \<and> c \<le> CHR ''f'')"

text \<open>
  The loop of \<open>parse_hex\<close> with its bound as argument. The source writes the bound as 0
  (\<open>for (i = 0; i < 0; ...)\<close>), so it never checks a digit.
\<close>

fun parse_hex_loop :: "nat \<Rightarrow> string \<Rightarrow> string res" where
  "parse_hex_loop 0 s = Inr s"
| "parse_hex_loop (Suc n) [] = throw Unexpected_end_fragment 0"
| "parse_hex_loop (Suc n) (c # s) =
     (if \<not> is_hex c then throw Invalid_json_string (length (c # s)) else parse_hex_loop n s)"

definition parse_hex :: "string \<Rightarrow> string res" where
  "parse_hex s = (if s = [] then throw Unexpected_end_fragment 0 else parse_hex_loop 0 s)"

text \<open>
  \<open>parse_symbol\<close> skips one UTF-8 sequence. Its conditions advance \<open>beg\<close> as they are tested,
  also when they fail, and the next condition goes on from there: \<open>lead m tag n els\<close> is one
  such condition (lead byte, then \<open>n\<close> continuation bytes), \<open>els\<close> the conditions after it.
  Testing a lead byte at \<open>end\<close> is a read out of bounds. The last condition, for the lead
  byte of a four-byte sequence, asks for two continuation bytes only.
\<close>

definition cont :: "char \<Rightarrow> bool" where
  "cont c \<longleftrightarrow> and (byte c) 192 = 128"

fun take_conts :: "nat \<Rightarrow> string \<Rightarrow> bool \<times> string" where
  "take_conts 0 s = (True, s)"
| "take_conts (Suc n) [] = (False, [])"
| "take_conts (Suc n) (c # s) = (if cont c then take_conts n s else (False, c # s))"

fun lead :: "nat \<Rightarrow> nat \<Rightarrow> nat \<Rightarrow> (string \<Rightarrow> string res) \<Rightarrow> string \<Rightarrow> string res" where
  "lead m tag n els [] = Inl Out_of_bounds"
| "lead m tag n els (c # s) =
     (if and (byte c) m = tag
      then (case take_conts n s of (done, r) \<Rightarrow> if done then Inr r else els r)
      else els (c # s))"

definition parse_symbol :: "string \<Rightarrow> string res" where
  "parse_symbol s =
     (if s = [] then Inl Out_of_bounds
      else if and (byte (hd s)) 128 = 0 then Inr (tl s)
      else lead 224 192 1 (lead 240 224 2 (lead 248 240 2
             (\<lambda>r. throw Invalid_json_string (length r)))) s)"

definition is_escape :: "char \<Rightarrow> bool" where
  "is_escape c \<longleftrightarrow> c = DQ \<or> c = BSL \<or> c = CHR ''/'' \<or> c = CHR ''t'' \<or> c = CHR ''b'' \<or>
     c = CHR ''n'' \<or> c = CHR ''r'' \<or> c = CHR ''f'' \<or> c = CHR ''u''"

lemma take_conts_suffix [suffixes]: "suffix (snd (take_conts n s)) s"
  by (induction n s rule: take_conts.induct) (auto simp: suffix_Cons)

lemma lead_suffix [suffixes]:
  assumes els: "\<And>t r. els t = Inr r \<Longrightarrow> strict_suffix r t"
    and "lead m tag n els s = Inr r"
  shows "strict_suffix r s"
proof (cases s)
  case (Cons c t)
  obtain b q where q: "take_conts n t = (b, q)" by (cases "take_conts n t")
  with take_conts_suffix [of n t] have "suffix q t" by simp
  then have "strict_suffix q (c # t)" by (rule strict_suffix_Cons)
  with Cons q assms show ?thesis
    by (auto split: if_splits dest: els suffix_order.less_trans)
qed (use assms in simp)

lemma parse_symbol_suffix [suffixes]:
  assumes "parse_symbol s = Inr r"
  shows "strict_suffix r s"
proof (cases "s = [] \<or> and (byte (hd s)) 128 = 0")
  case True
  with assms show ?thesis by (auto simp: parse_symbol_def split: if_splits)
next
  case False
  with assms have "lead 224 192 1 (lead 240 224 2 (lead 248 240 2
      (\<lambda>r. throw Invalid_json_string (length r)))) s = Inr r"
    by (simp add: parse_symbol_def)
  then show ?thesis
    by (rule lead_suffix [rotated]) (auto elim!: lead_suffix [rotated])
qed

lemma parse_hex_suffix [suffixes]: "parse_hex s = Inr r \<Longrightarrow> suffix r s"
  by (simp add: parse_hex_def split: if_splits)

lemmas parse_symbol_shrinks [shrinks] = parse_symbol_suffix [THEN suffix_length_less]
lemmas parse_hex_shrinks [shrinks] = parse_hex_suffix [THEN suffix_length_le]

function parse_string_loop :: "string \<Rightarrow> string res" where
  "parse_string_loop [] = throw Unexpected_end_fragment 0"
| "parse_string_loop (c # s) =
     (if c = DQ then Inr s
      else if c = BSL
      then (case s of
              [] \<Rightarrow> throw Unexpected_end_fragment 0
            | d # s' \<Rightarrow>
                if \<not> is_escape d then throw Invalid_json_string (length s)
                else if d = CHR ''u'' then bindE (parse_hex s') parse_string_loop
                else parse_string_loop s')
      else bindE (parse_symbol (c # s)) parse_string_loop)"
  by pat_completeness auto
termination
  by (relation "measure length") (auto dest!: shrinks)

definition parse_string :: "string \<Rightarrow> string res" where
  "parse_string s =
     (if s = [] then throw Unexpected_end_fragment 0
      else if hd s \<noteq> DQ then throw (Expected_of [DQ]) (length s)
      else parse_string_loop (tl s))"

section \<open>Values, members, objects and arrays\<close>

definition is_object :: "string \<Rightarrow> bool" where
  "is_object s \<longleftrightarrow> s \<noteq> [] \<and> hd s = CHR ''{''"

definition is_array :: "string \<Rightarrow> bool" where
  "is_array s \<longleftrightarrow> s \<noteq> [] \<and> hd s = CHR ''[''"

text \<open>
  \<open>parse_value\<close>, \<open>parse_member\<close>, \<open>parse_object\<close> and \<open>parse_array\<close> call each other. The
  functions below take fuel, one unit per call or loop round; \<open>object_loop_n\<close> and
  \<open>array_loop_n\<close> are the \<open>for\<close> loops. \<open>value_fuel\<close> units are always enough
  (\<open>parse_value_unfold\<close> below: with that fuel the functions satisfy the equations of the
  source, in which there is no fuel).
\<close>

fun parse_value_n :: "nat \<Rightarrow> string \<Rightarrow> string res"
  and parse_member_n :: "nat \<Rightarrow> string \<Rightarrow> string res"
  and object_loop_n :: "nat \<Rightarrow> string \<Rightarrow> string res"
  and array_loop_n :: "nat \<Rightarrow> string \<Rightarrow> string res" where
  "parse_value_n 0 s = Inl Fuel_exhausted"
| "parse_value_n (Suc n) s =
     (if is_null s then parse_null s
      else if is_bool s then parse_bool s
      else if is_number s then parse_number s
      else if is_string s then parse_string s
      else if is_object s then object_loop_n n (tl s)
      else if is_array s then array_loop_n n (tl s)
      else throw Invalid_json (length s))"
| "parse_member_n 0 s = Inl Fuel_exhausted"
| "parse_member_n (Suc n) s =
     (if \<not> is_string s then throw Invalid_json_member (length s)
      else bindE (parse_string s) (\<lambda>s.
        if s = [] then throw Unexpected_end_fragment 0
        else let s = parse_space s in
        if s = [] then throw Unexpected_end_fragment 0
        else if hd s \<noteq> CHR '':'' then throw (Expected_of '':'') (length (tl s))
        else if tl s = [] then throw Unexpected_end_fragment 0
        else let s = parse_space (tl s) in
        if s = [] then throw Unexpected_end_fragment 0
        else parse_value_n n s))"
| "object_loop_n 0 s = Inl Fuel_exhausted"
| "object_loop_n (Suc n) s =
     (if s \<noteq> [] \<and> hd s \<noteq> CHR ''}''
      then bindE (parse_member_n n (parse_space s)) (\<lambda>s.
             let s = parse_space s in
             if s = [] \<or> (hd s \<noteq> CHR '','' \<and> hd s \<noteq> CHR ''}'')
             then throw (Expected_of ''}'') (length s)
             else object_loop_n n (if hd s = CHR '','' then tl s else s))
      else if s = [] then throw (Expected_of ''}'') (length s)
      else Inr (tl s))"
| "array_loop_n 0 s = Inl Fuel_exhausted"
| "array_loop_n (Suc n) s =
     (if s \<noteq> [] \<and> hd s \<noteq> CHR '']''
      then bindE (parse_value_n n (parse_space s)) (\<lambda>s.
             let s = parse_space s in
             if s = [] \<or> (hd s \<noteq> CHR '','' \<and> hd s \<noteq> CHR '']'')
             then throw (Expected_of '']'') (length s)
             else array_loop_n n (if hd s = CHR '','' then tl s else s))
      else if s = [] then throw (Expected_of '']'') (length s)
      else Inr (tl s))"

definition value_fuel :: "string \<Rightarrow> nat" where
  "value_fuel s = Suc (4 * length s + 3)"

definition parse_value :: "string \<Rightarrow> string res" where
  "parse_value s = parse_value_n (value_fuel s) s"

definition parse_member :: "string \<Rightarrow> string res" where
  "parse_member s = parse_member_n (value_fuel s) s"

definition object_loop :: "string \<Rightarrow> string res" where
  "object_loop s = object_loop_n (value_fuel s) s"

definition array_loop :: "string \<Rightarrow> string res" where
  "array_loop s = array_loop_n (value_fuel s) s"

definition parse_object :: "string \<Rightarrow> string res" where
  "parse_object s =
     (if \<not> is_object s then throw (Expected_of ''{'') (length s) else object_loop (tl s))"

definition parse_array :: "string \<Rightarrow> string res" where
  "parse_array s =
     (if \<not> is_array s then throw (Expected_of ''['') (length s) else array_loop (tl s))"

section \<open>Every parser returns a proper suffix of its input\<close>

lemma parse_space_loop_suffix: "suffix (parse_space_loop b s) s"
  by (induction b s rule: parse_space_loop.induct) (auto simp: suffix_Cons)

lemma parse_space_suffix [suffixes]: "suffix (parse_space s) s"
  by (simp add: parse_space_def parse_space_loop_suffix)

lemmas parse_space_shrinks [shrinks] = parse_space_suffix [THEN suffix_length_le]

text \<open>Where \<open>parse_space\<close> stops, there is a character that starts a token.\<close>

lemma parse_space_loop_hd:
  "parse_space_loop b s = c # r \<Longrightarrow> \<not> is_space c \<and> c \<noteq> CHR ''/''"
  by (induction b s rule: parse_space_loop.induct) (auto split: if_splits)

lemma parse_space_hd: "parse_space s = c # r \<Longrightarrow> \<not> is_space c \<and> c \<noteq> CHR ''/''"
  unfolding parse_space_def by (rule parse_space_loop_hd)

lemma parse_space_id [simp]:
  "\<not> is_space c \<Longrightarrow> c \<noteq> CHR ''/'' \<Longrightarrow> parse_space (c # s) = c # s"
  by (simp add: parse_space_def)

lemma parse_space_Nil [simp]: "parse_space [] = []"
  by (simp add: parse_space_def)

lemma parse_space_idem [simp]: "parse_space (parse_space s) = parse_space s"
  by (cases "parse_space s") (auto dest: parse_space_hd)

lemma expect_tail_suffix: "expect_tail w xs p s = Inr r \<Longrightarrow> suffix r s"
  by (induction w xs p s rule: expect_tail.induct) (auto simp: suffix_Cons split: if_splits)

lemma parse_null_suffix [suffixes]: "parse_null s = Inr r \<Longrightarrow> strict_suffix r s"
  by (cases s) (auto split: if_splits intro: strict_suffix_Cons dest: expect_tail_suffix
      simp del: expect_tail.simps)

lemma parse_bool_suffix [suffixes]: "parse_bool s = Inr r \<Longrightarrow> strict_suffix r s"
  by (cases s) (auto split: if_splits intro: strict_suffix_Cons dest: expect_tail_suffix
      simp del: expect_tail.simps)

lemma parse_digit_suffix: "suffix (fst (parse_digit s p)) s"
  by (induction s p rule: parse_digit.induct) (auto simp: suffix_Cons)

lemma parse_digit_strict: "s \<noteq> [] \<Longrightarrow> is_digit (hd s) \<Longrightarrow> strict_suffix (fst (parse_digit s p)) s"
  using parse_digit_suffix [of "tl s" "p + 1"] by (cases s) (auto intro: strict_suffix_Cons)

lemma parse_sign_suffix: "suffix (fst (parse_sign s p)) s"
  by (simp add: parse_sign_def suffix_tl)

lemma parse_int_part_suffix: "parse_int_part (s, p) = Inr (r, q) \<Longrightarrow> strict_suffix r s"
  using parse_digit_strict [of s p] by (auto simp: parse_int_part_def split: if_splits)

lemma parse_frac_suffix: "parse_frac (s, p) = Inr (r, q) \<Longrightarrow> suffix r s"
  using parse_digit_suffix [of "tl s" "p + 1"]
  by (auto simp: parse_frac_def Let_def split: if_splits)

lemma parse_exp_suffix: "parse_exp (s, p) = Inr (r, q) \<Longrightarrow> suffix r s"
  using parse_digit_suffix [of "tl s" "p + 1"] parse_digit_suffix [of "tl (tl s)" "p + 2"]
  by (auto simp: parse_exp_def Let_def split: if_splits)

lemma parse_number_suffix [suffixes]:
  assumes "parse_number s = Inr r"
  shows "strict_suffix r s"
proof -
  obtain s1 p1 where s1: "parse_sign s 0 = (s1, p1)" by fastforce
  from assms s1 obtain s2 p2 s3 p3 q where "parse_int_part (s1, p1) = Inr (s2, p2)"
    "parse_frac (s2, p2) = Inr (s3, p3)" "parse_exp (s3, p3) = Inr (r, q)"
    by (auto simp: parse_number_def split: if_splits)
  with parse_sign_suffix [of s 0] s1 show ?thesis
    by (auto dest!: parse_int_part_suffix parse_frac_suffix parse_exp_suffix
        intro: suffix_trans_rules)
qed

lemma parse_string_loop_suffix: "parse_string_loop s = Inr r \<Longrightarrow> strict_suffix r s"
proof (induction s rule: parse_string_loop.induct)
  case (2 c s)
  show ?case
  proof (cases "c = DQ \<or> c = BSL")
    case False
    with "2.prems" obtain t where "parse_symbol (c # s) = Inr t" "parse_string_loop t = Inr r"
      by auto
    with "2.IH"(3) False show ?thesis by (meson parse_symbol_suffix suffix_order.less_trans)
  next
    case True
    with 2 show ?thesis
      by (auto split: if_splits list.splits intro!: strict_suffix_Cons suffix_ConsI
          intro: suffix_trans_rules parse_hex_suffix)
  qed
qed simp

lemma parse_string_suffix [suffixes]: "parse_string s = Inr r \<Longrightarrow> strict_suffix r s"
  by (auto simp: parse_string_def split: if_splits dest!: parse_string_loop_suffix
      intro: suffix_trans_rules)

lemmas token_suffixes =
  parse_null_suffix parse_bool_suffix parse_number_suffix parse_string_suffix

lemma value_n_suffix:
  "parse_value_n n s = Inr r \<Longrightarrow> strict_suffix r s"
  "parse_member_n n s = Inr r \<Longrightarrow> strict_suffix r s"
  "object_loop_n n s = Inr r \<Longrightarrow> strict_suffix r s"
  "array_loop_n n s = Inr r \<Longrightarrow> strict_suffix r s"
proof (induction n s and n s and n s and n s arbitrary: r and r and r and r
    rule: parse_value_n_parse_member_n_object_loop_n_array_loop_n.induct)
  case (2 n s)
  have obj: "is_object s \<Longrightarrow> s \<noteq> []" and arr: "is_array s \<Longrightarrow> s \<noteq> []"
    by (auto simp: is_object_def is_array_def)
  from 2 show ?case
    by (auto split: if_splits dest: token_suffixes obj arr
        intro: suffix_order.less_trans [OF _ strict_suffix_tl])
next
  case (4 n s)
  from "4.prems" obtain t where t: "parse_string s = Inr t"
    and v: "parse_value_n n (parse_space (tl (parse_space t))) = Inr r"
    by (auto simp: Let_def split: if_splits)
  have "suffix (parse_space (tl (parse_space t))) t"
    by (meson parse_space_suffix suffix_order.trans suffix_tl)
  moreover from 4 t v have "strict_suffix r (parse_space (tl (parse_space t)))"
    by (auto simp: Let_def split: if_splits)
  ultimately show ?case
    using parse_string_suffix [OF t] by (meson suffix_trans_rules)
next
  case (6 n s)
  show ?case
  proof (cases "s \<noteq> [] \<and> hd s \<noteq> CHR ''}''")
    case True
    with "6.prems" obtain t where t: "parse_member_n n (parse_space s) = Inr t"
      and r: "object_loop_n n (if hd (parse_space t) = CHR '','' then tl (parse_space t) else parse_space t) = Inr r"
      and ne: "\<not> (parse_space t = [] \<or> (hd (parse_space t) \<noteq> CHR '','' \<and> hd (parse_space t) \<noteq> CHR ''}''))"
      by (auto simp: Let_def split: if_splits)
    from "6.IH"(1) True t have "strict_suffix t (parse_space s)" by auto
    moreover from "6.IH"(2) [OF True t refl ne r] have "suffix r (parse_space t)"
      by (auto split: if_splits intro: suffix_trans_rules suffix_tl)
    ultimately show ?thesis by (meson parse_space_suffix suffix_trans_rules)
  qed (use "6.prems" in \<open>auto split: if_splits\<close>)
next
  case (8 n s)
  show ?case
  proof (cases "s \<noteq> [] \<and> hd s \<noteq> CHR '']''")
    case True
    with "8.prems" obtain t where t: "parse_value_n n (parse_space s) = Inr t"
      and r: "array_loop_n n (if hd (parse_space t) = CHR '','' then tl (parse_space t) else parse_space t) = Inr r"
      and ne: "\<not> (parse_space t = [] \<or> (hd (parse_space t) \<noteq> CHR '','' \<and> hd (parse_space t) \<noteq> CHR '']''))"
      by (auto simp: Let_def split: if_splits)
    from "8.IH"(1) True t have "strict_suffix t (parse_space s)" by auto
    moreover from "8.IH"(2) [OF True t refl ne r] have "suffix r (parse_space t)"
      by (auto split: if_splits intro: suffix_trans_rules suffix_tl)
    ultimately show ?thesis by (meson parse_space_suffix suffix_trans_rules)
  qed (use "8.prems" in \<open>auto split: if_splits\<close>)
qed simp_all

section \<open>The fuel is enough\<close>

text \<open>Token parsers do not use fuel.\<close>

lemma lead_no_fuel:
  "(\<And>t. els t \<noteq> Inl Fuel_exhausted) \<Longrightarrow> lead m tag n els s \<noteq> Inl Fuel_exhausted"
  by (cases s) (auto split: prod.splits)

lemma parse_symbol_no_fuel: "parse_symbol s \<noteq> Inl Fuel_exhausted"
  unfolding parse_symbol_def by (auto intro!: lead_no_fuel simp del: lead.simps)

lemma expect_tail_no_fuel: "expect_tail w xs p s \<noteq> Inl Fuel_exhausted"
  by (induction w xs p s rule: expect_tail.induct) auto

lemma parse_null_no_fuel: "parse_null s \<noteq> Inl Fuel_exhausted"
  by (cases s) (auto simp: expect_tail_no_fuel simp del: expect_tail.simps)

lemma parse_bool_no_fuel: "parse_bool s \<noteq> Inl Fuel_exhausted"
  by (cases s) (auto simp: expect_tail_no_fuel simp del: expect_tail.simps)

lemma parse_number_no_fuel: "parse_number s \<noteq> Inl Fuel_exhausted"
  by (auto simp: parse_number_def parse_int_part_def parse_frac_def parse_exp_def bindE_Inl_iff
      Let_def split: prod.splits if_splits)

lemma parse_string_loop_no_fuel: "parse_string_loop s \<noteq> Inl Fuel_exhausted"
proof (induction s rule: parse_string_loop.induct)
  case (2 c s)
  then show ?case
    by (auto simp: bindE_Inl_iff parse_symbol_no_fuel parse_hex_def split: list.splits if_splits)
qed simp

lemma parse_string_no_fuel: "parse_string s \<noteq> Inl Fuel_exhausted"
  by (simp add: parse_string_def parse_string_loop_no_fuel)

lemmas token_no_fuel =
  parse_null_no_fuel parse_bool_no_fuel parse_number_no_fuel parse_string_no_fuel

text \<open>With enough fuel, one more unit changes nothing and the fuel is not exhausted.\<close>

abbreviation settled :: "(nat \<Rightarrow> string \<Rightarrow> string res) \<Rightarrow> nat \<Rightarrow> string \<Rightarrow> bool" where
  "settled f n s \<equiv> f (Suc n) s = f n s \<and> f n s \<noteq> Inl Fuel_exhausted"

lemma fuel_settled:
  "4 * length s + 2 \<le> n \<Longrightarrow> settled parse_value_n n s"
  "4 * length s + 1 \<le> n \<Longrightarrow> settled parse_member_n n s"
  "4 * length s + 2 \<le> n \<Longrightarrow> settled object_loop_n n s"
  "4 * length s + 3 \<le> n \<Longrightarrow> settled array_loop_n n s"
proof (induction n arbitrary: s and s and s and s)
  case (Suc n)
  {
    case 1
    have obj: "is_object s \<Longrightarrow> settled object_loop_n n (tl s)"
      and arr: "is_array s \<Longrightarrow> settled array_loop_n n (tl s)"
      using Suc.IH(3,4) [of "tl s"] 1 by (cases s; auto simp: is_object_def is_array_def)+
    then show ?case by (simp add: token_no_fuel)
  next
    case 2
    have "settled parse_value_n n (parse_space (tl (parse_space t)))"
      if "parse_string s = Inr t" for t
      using Suc.IH(1) [of "parse_space (tl (parse_space t))"] 2
        parse_string_suffix [OF that, THEN suffix_length_less]
        parse_space_shrinks [of t] parse_space_shrinks [of "tl (parse_space t)"]
      by simp
    then show ?case
      by (cases "parse_string s") (auto simp: Let_def token_no_fuel)
  next
    case 3
    have m: "settled parse_member_n n (parse_space s)"
      using Suc.IH(2) [of "parse_space s"] 3 parse_space_shrinks [of s] by simp
    have "settled object_loop_n n t'"
      if "parse_member_n n (parse_space s) = Inr t" "suffix t' (parse_space t)" for t t'
      using Suc.IH(3) [of t'] 3 value_n_suffix(2) [OF that(1), THEN suffix_length_less]
        parse_space_shrinks [of s] parse_space_shrinks [of t] suffix_length_le [OF that(2)]
      by simp
    with m show ?case
      by (cases "parse_member_n n (parse_space s)") (auto simp: Let_def suffix_tl)
  next
    case 4
    have m: "settled parse_value_n n (parse_space s)"
      using Suc.IH(1) [of "parse_space s"] 4 parse_space_shrinks [of s] by simp
    have "settled array_loop_n n t'"
      if "parse_value_n n (parse_space s) = Inr t" "suffix t' (parse_space t)" for t t'
      using Suc.IH(4) [of t'] 4 value_n_suffix(1) [OF that(1), THEN suffix_length_less]
        parse_space_shrinks [of s] parse_space_shrinks [of t] suffix_length_le [OF that(2)]
      by simp
    with m show ?case
      by (cases "parse_value_n n (parse_space s)") (auto simp: Let_def suffix_tl)
  }
qed simp_all

lemma settled_eq:
  assumes "\<And>n. b \<le> n \<Longrightarrow> settled f n s" and "b \<le> n" and "b \<le> m"
  shows "f n s = f m s"
proof -
  have *: "f k s = f b s" if "b \<le> k" for k
    using that
  proof (induction k rule: dec_induct)
    case (step k)
    with assms(1) [of k] show ?case by simp
  qed simp
  show ?thesis using * [OF assms(2)] * [OF assms(3)] by (rule trans [OF _ sym])
qed

lemma fuel_any:
  "4 * length s + 2 \<le> n \<Longrightarrow> parse_value_n n s = parse_value s"
  "4 * length s + 1 \<le> n \<Longrightarrow> parse_member_n n s = parse_member s"
  "4 * length s + 2 \<le> n \<Longrightarrow> object_loop_n n s = object_loop s"
  "4 * length s + 3 \<le> n \<Longrightarrow> array_loop_n n s = array_loop s"
  unfolding parse_value_def parse_member_def object_loop_def array_loop_def value_fuel_def
  by (rule settled_eq, erule fuel_settled, simp, simp)+

lemma no_fuel:
  "parse_value s \<noteq> Inl Fuel_exhausted"
  "parse_member s \<noteq> Inl Fuel_exhausted"
  "object_loop s \<noteq> Inl Fuel_exhausted"
  "array_loop s \<noteq> Inl Fuel_exhausted"
  unfolding parse_value_def parse_member_def object_loop_def array_loop_def value_fuel_def
  by (rule conjunct2, rule fuel_settled, simp)+

lemma parse_value_suffix [suffixes]: "parse_value s = Inr r \<Longrightarrow> strict_suffix r s"
  unfolding parse_value_def by (rule value_n_suffix)

lemma parse_member_suffix [suffixes]: "parse_member s = Inr r \<Longrightarrow> strict_suffix r s"
  unfolding parse_member_def by (rule value_n_suffix)

lemmas parse_value_shrinks [shrinks] = parse_value_suffix [THEN suffix_length_less]
lemmas parse_member_shrinks [shrinks] = parse_member_suffix [THEN suffix_length_less]

text \<open>The equations of the source, in which there is no fuel.\<close>

lemma parse_value_unfold:
  "parse_value s =
     (if is_null s then parse_null s
      else if is_bool s then parse_bool s
      else if is_number s then parse_number s
      else if is_string s then parse_string s
      else if is_object s then parse_object s
      else if is_array s then parse_array s
      else throw Invalid_json (length s))"
proof -
  have "is_object s \<Longrightarrow> object_loop_n (4 * length s + 3) (tl s) = object_loop (tl s)"
    and "is_array s \<Longrightarrow> array_loop_n (4 * length s + 3) (tl s) = array_loop (tl s)"
    by (cases s; simp add: is_object_def is_array_def fuel_any)+
  then show ?thesis
    unfolding parse_value_def value_fuel_def parse_value_n.simps
    by (simp add: parse_object_def parse_array_def)
qed

lemma parse_member_unfold:
  "parse_member s =
     (if \<not> is_string s then throw Invalid_json_member (length s)
      else bindE (parse_string s) (\<lambda>s.
        if s = [] then throw Unexpected_end_fragment 0
        else let s = parse_space s in
        if s = [] then throw Unexpected_end_fragment 0
        else if hd s \<noteq> CHR '':'' then throw (Expected_of '':'') (length (tl s))
        else if tl s = [] then throw Unexpected_end_fragment 0
        else let s = parse_space (tl s) in
        if s = [] then throw Unexpected_end_fragment 0
        else parse_value s))"
proof -
  have "parse_value_n (4 * length s + 3) (parse_space (tl (parse_space t)))
      = parse_value (parse_space (tl (parse_space t)))" if "parse_string s = Inr t" for t
    using suffix_length_less [OF parse_string_suffix [OF that]] parse_space_shrinks [of t]
      parse_space_shrinks [of "tl (parse_space t)"]
    by (intro fuel_any) simp
  then show ?thesis
    unfolding parse_member_def value_fuel_def parse_member_n.simps
    by (cases "parse_string s") (auto simp: Let_def)
qed

lemma object_loop_unfold:
  "object_loop s =
     (if s \<noteq> [] \<and> hd s \<noteq> CHR ''}''
      then bindE (parse_member (parse_space s)) (\<lambda>s.
             let s = parse_space s in
             if s = [] \<or> (hd s \<noteq> CHR '','' \<and> hd s \<noteq> CHR ''}'')
             then throw (Expected_of ''}'') (length s)
             else object_loop (if hd s = CHR '','' then tl s else s))
      else if s = [] then throw (Expected_of ''}'') (length s)
      else Inr (tl s))"
proof -
  have m: "parse_member_n (4 * length s + 3) (parse_space s) = parse_member (parse_space s)"
    using parse_space_shrinks [of s] by (intro fuel_any) simp
  have "object_loop_n (4 * length s + 3) u = object_loop u"
    if "parse_member (parse_space s) = Inr t" "suffix u (parse_space t)" for t u
    using parse_member_shrinks [OF that(1)] suffix_length_le [OF that(2)]
      parse_space_shrinks [of t] parse_space_shrinks [of s]
    by (intro fuel_any) simp
  with m show ?thesis
    unfolding object_loop_def [of s] value_fuel_def object_loop_n.simps
    by (cases "parse_member (parse_space s)") (auto simp: Let_def suffix_tl)
qed

lemma array_loop_unfold:
  "array_loop s =
     (if s \<noteq> [] \<and> hd s \<noteq> CHR '']''
      then bindE (parse_value (parse_space s)) (\<lambda>s.
             let s = parse_space s in
             if s = [] \<or> (hd s \<noteq> CHR '','' \<and> hd s \<noteq> CHR '']'')
             then throw (Expected_of '']'') (length s)
             else array_loop (if hd s = CHR '','' then tl s else s))
      else if s = [] then throw (Expected_of '']'') (length s)
      else Inr (tl s))"
proof -
  have m: "parse_value_n (4 * length s + 3) (parse_space s) = parse_value (parse_space s)"
    using parse_space_shrinks [of s] by (intro fuel_any) simp
  have "array_loop_n (4 * length s + 3) u = array_loop u"
    if "parse_value (parse_space s) = Inr t" "suffix u (parse_space t)" for t u
    using parse_value_shrinks [OF that(1)] suffix_length_le [OF that(2)]
      parse_space_shrinks [of t] parse_space_shrinks [of s]
    by (intro fuel_any) simp
  with m show ?thesis
    unfolding array_loop_def [of s] value_fuel_def array_loop_n.simps
    by (cases "parse_value (parse_space s)") (auto simp: Let_def suffix_tl)
qed

section \<open>Reads stay inside the input when it is ASCII\<close>

definition ascii :: "string \<Rightarrow> bool" where
  "ascii s \<longleftrightarrow> list_all (\<lambda>c. byte c < 128) s"

lemma ascii_simps [simp]: "ascii []" "ascii (c # s) \<longleftrightarrow> byte c < 128 \<and> ascii s"
  by (simp_all add: ascii_def)

lemma and_128_iff: "and n 128 = (0::nat) \<longleftrightarrow> even (n div 128)"
  using and_exp_eq_0_iff_not_bit [of n 7] by (simp add: bit_iff_odd)

lemma and_128_ascii: "n < 128 \<Longrightarrow> and n 128 = (0::nat)"
  by (simp add: and_128_iff)

lemma and_128_char: "and (byte c) 128 = 0 \<longleftrightarrow> byte c < 128"
proof -
  have "n < 256 \<Longrightarrow> even (n div 128) \<longleftrightarrow> n < 128" for n :: nat
    by (cases "n < 128") (auto simp: le_div_geq [of 128 n])
  from this [of "byte c"] show ?thesis by (simp add: and_128_iff)
qed

lemma ascii_suffix: "suffix r s \<Longrightarrow> ascii s \<Longrightarrow> ascii r"
  by (auto simp: ascii_def list_all_iff dest: set_mono_suffix)

lemma ascii_strict_suffix: "strict_suffix r s \<Longrightarrow> ascii s \<Longrightarrow> ascii r"
  by (meson ascii_suffix suffix_order.less_imp_le)

lemma parse_symbol_ascii: "ascii s \<Longrightarrow> s \<noteq> [] \<Longrightarrow> parse_symbol s = Inr (tl s)"
  by (cases s) (simp_all add: parse_symbol_def and_128_ascii)

lemma parse_string_loop_ascii: "ascii s \<Longrightarrow> parse_string_loop s \<noteq> Inl Out_of_bounds"
proof (induction s rule: parse_string_loop.induct)
  case (2 c s)
  then show ?case
    by (auto simp: bindE_Inl_iff parse_symbol_ascii parse_hex_def split: list.splits if_splits)
qed simp

lemma expect_tail_in_bounds: "expect_tail w xs p s \<noteq> Inl Out_of_bounds"
  by (induction w xs p s rule: expect_tail.induct) auto

lemma parse_null_in_bounds: "parse_null s \<noteq> Inl Out_of_bounds"
  by (cases s) (auto simp: expect_tail_in_bounds simp del: expect_tail.simps)

lemma parse_bool_in_bounds: "parse_bool s \<noteq> Inl Out_of_bounds"
  by (cases s) (auto simp: expect_tail_in_bounds simp del: expect_tail.simps)

lemma parse_number_in_bounds: "parse_number s \<noteq> Inl Out_of_bounds"
  by (auto simp: parse_number_def parse_int_part_def parse_frac_def parse_exp_def bindE_Inl_iff
      Let_def split: prod.splits if_splits)

lemma parse_string_ascii: "ascii s \<Longrightarrow> parse_string s \<noteq> Inl Out_of_bounds"
  by (cases s) (simp_all add: parse_string_def parse_string_loop_ascii)

lemmas token_in_bounds = parse_null_in_bounds parse_bool_in_bounds parse_number_in_bounds

lemma ascii_parse_space [simp]: "ascii s \<Longrightarrow> ascii (parse_space s)"
  by (rule ascii_suffix [OF parse_space_suffix])

lemma ascii_tl [simp]: "ascii s \<Longrightarrow> ascii (tl s)"
  by (cases s) auto

lemma value_n_in_bounds:
  "ascii s \<Longrightarrow> parse_value_n n s \<noteq> Inl Out_of_bounds"
  "ascii s \<Longrightarrow> parse_member_n n s \<noteq> Inl Out_of_bounds"
  "ascii s \<Longrightarrow> object_loop_n n s \<noteq> Inl Out_of_bounds"
  "ascii s \<Longrightarrow> array_loop_n n s \<noteq> Inl Out_of_bounds"
proof (induction n arbitrary: s and s and s and s)
  case (Suc n)
  {
    case 1
    with Suc.IH(3,4) [of "tl s"] show ?case by (simp add: token_in_bounds parse_string_ascii)
  next
    case 2
    then have "parse_value_n n (parse_space (tl (parse_space t))) \<noteq> Inl Out_of_bounds"
      if "parse_string s = Inr t" for t
      using Suc.IH(1) ascii_strict_suffix [OF parse_string_suffix [OF that]] by simp
    with 2 show ?case
      using parse_string_ascii [of s] by (cases "parse_string s") (auto simp: Let_def)
  next
    case 3
    then have m: "parse_member_n n (parse_space s) \<noteq> Inl Out_of_bounds"
      using Suc.IH(2) by simp
    from 3 have "object_loop_n n u \<noteq> Inl Out_of_bounds"
      if "parse_member_n n (parse_space s) = Inr t" "suffix u (parse_space t)" for t u
      using Suc.IH(3) ascii_strict_suffix [OF value_n_suffix(2) [OF that(1)]]
        ascii_suffix [OF that(2)] by simp
    with m show ?case
      by (cases "parse_member_n n (parse_space s)") (auto simp: Let_def suffix_tl)
  next
    case 4
    then have m: "parse_value_n n (parse_space s) \<noteq> Inl Out_of_bounds"
      using Suc.IH(1) by simp
    from 4 have "array_loop_n n u \<noteq> Inl Out_of_bounds"
      if "parse_value_n n (parse_space s) = Inr t" "suffix u (parse_space t)" for t u
      using Suc.IH(4) ascii_strict_suffix [OF value_n_suffix(1) [OF that(1)]]
        ascii_suffix [OF that(2)] by simp
    with m show ?case
      by (cases "parse_value_n n (parse_space s)") (auto simp: Let_def suffix_tl)
  }
qed simp_all




text \<open>
  Beyond ASCII the bound fails: a string that ends in the lead byte of a two-byte sequence
  makes \<open>parse_symbol\<close> test the next lead byte at \<open>end\<close>.
\<close>

lemma parse_symbol_overrun: "parse_value [DQ, CHR 0xC2] = Inl Out_of_bounds"
  by code_simp

section \<open>Where the parser departs from JSON\<close>

text \<open>The bit patterns of UTF-8 bytes exclude each other.\<close>

lemma and_mask_mono: "and n m = k \<Longrightarrow> and m m' = m' \<Longrightarrow> and n m' = and k (m'::nat)"
  by (metis and.assoc)

lemma lead4_bits:
  assumes "and n 248 = (240::nat)"
  shows "and n 128 = 128" "and n 224 = 224" "and n 240 = 240"
  using and_mask_mono [OF assms, of 128] and_mask_mono [OF assms, of 224]
    and_mask_mono [OF assms, of 240] by simp_all

lemma cont_bits:
  assumes "and n 192 = (128::nat)"
  shows "and n 128 = 128" "and n 224 \<noteq> 192" "and n 240 \<noteq> 224" "and n 248 \<noteq> 240"
  using and_mask_mono [OF assms, of 128] and_mask_mono [of n 224 192 192]
    and_mask_mono [of n 240 224 192] and_mask_mono [of n 248 240 192] assms by auto

text \<open>
  A well-formed four-byte UTF-8 sequence inside a string is refused: \<open>parse_symbol\<close> takes
  only two continuation bytes, and the third is then no valid start of a symbol.
\<close>

lemma four_byte_refused:
  assumes "and (byte c) 248 = 240" and "cont d1" and "cont d2" and "cont d3"
  shows "parse_string_loop (c # d1 # d2 # d3 # s) = throw Invalid_json_string (length (d3 # s))"
proof -
  have c: "c \<noteq> DQ" "c \<noteq> BSL" using assms(1) by auto
  have p: "parse_symbol (c # d1 # d2 # d3 # s) = Inr (d3 # s)"
    using assms lead4_bits [OF assms(1)] by (simp add: parse_symbol_def numeral_2_eq_2)
  have d: "d3 \<noteq> DQ" "d3 \<noteq> BSL"
    "parse_symbol (d3 # s) = throw Invalid_json_string (length (d3 # s))"
    using assms(4) cont_bits [of "byte d3"] by (auto simp: parse_symbol_def cont_def)
  show ?thesis using c p d by simp
qed

text \<open>
  \<open>parse_hex\<close> does not look at the four digits after \<open>\u\<close>, and a comment that is never
  closed runs to the end of the input without an error.
\<close>

lemma parse_hex_unchecked:
  "s \<noteq> [] \<Longrightarrow> parse_string_loop (BSL # CHR ''u'' # s) = parse_string_loop s"
  by (simp add: parse_hex_def is_escape_def)

lemma unterminated_comment:
  assumes "CHR ''*'' \<notin> set s" and "s = [] \<or> hd s \<noteq> CHR ''/''"
  shows "parse_space (CHR ''/'' # CHR ''*'' # s) = []"
proof -
  have "parse_space_loop True s = []"
    using assms(1) by (induction s) auto
  with assms(2) show ?thesis
    by (cases s) (auto simp: parse_space_def is_space_def)
qed

end
