(* ===== verification/Json_Codec.thy ===== *)
theory Json_Codec
  imports Json_Parser
begin

text \<open>
  The interface between a JSON type descriptor \<open>J\<close> of \<open>fas/misc/json.hpp\<close> and the code that
  uses it: \<open>J::serializer\<close> has one \<open>operator()\<close> that appends the text of a value to an output
  iterator and one that reads a value back from \<open>beg, end\<close> into a reference. A \<open>codec\<close>
  holds the two; \<open>unser\<close> takes the old value of the referenced variable, since containers
  add to what is there and object members keep what the input does not mention.

  The locale \<open>json_codec\<close> is the contract of a serializer on the values \<open>ok\<close> when it reads
  into a fresh variable \<open>init\<close>: what it writes is read back, the rest of the input is left
  alone, and its text can be told from the punctuation around it. The container
  serializers rely on exactly this of their elements.
\<close>

record 'a codec =
  ser :: "'a \<Rightarrow> string"
  unser :: "'a \<Rightarrow> string \<Rightarrow> ('a \<times> string) res"

text \<open>What may follow a value, and what may start one.\<close>

definition delim :: "string \<Rightarrow> bool" where
  "delim s \<longleftrightarrow> s = [] \<or> is_space (hd s) \<or> hd s \<in> set (DQ # '',:}]'')"

definition starts_value :: "char \<Rightarrow> bool" where
  "starts_value c \<longleftrightarrow> \<not> is_space c \<and> c \<notin> set ''/,:}]''"

lemma delim_simps [simp]:
  "delim []" "delim (CHR '','' # s)" "delim (CHR '':'' # s)" "delim (CHR ''}'' # s)"
  "delim (CHR '']'' # s)" "delim (CR # s)" "delim (DQ # s)"
  by (simp_all add: delim_def is_space_def)

lemma starts_value_simps [simp]:
  "starts_value DQ" "starts_value (CHR ''{'')" "starts_value (CHR ''['')"
  "starts_value (CHR ''t'')" "starts_value (CHR ''f'')" "starts_value (CHR ''-'')"
  by (simp_all add: starts_value_def is_space_def)

lemma is_digit_iff: "is_digit c \<longleftrightarrow> 48 \<le> byte c \<and> byte c \<le> 57"
proof -
  have "n < 256 \<Longrightarrow> (48 \<le> (if n < 128 then int n else int n - 256) \<and>
      (if n < 128 then int n else int n - 256) \<le> 57) \<longleftrightarrow> 48 \<le> n \<and> n \<le> 57" for n :: nat
    by auto
  from this [of "byte c"] show ?thesis unfolding is_digit_def schar_def by simp
qed

lemma digit_starts_value: "is_digit c \<Longrightarrow> starts_value c"
  by (auto simp: is_digit_iff starts_value_def is_space_def)

lemma delim_not_digit: "delim (c # s) \<Longrightarrow> \<not> is_digit c"
  by (auto simp: is_digit_iff delim_def is_space_def)

lemma parse_space_value [simp]:
  "s \<noteq> [] \<Longrightarrow> starts_value (hd s) \<Longrightarrow> parse_space (s @ r) = s @ r"
  by (cases s) (auto simp: starts_value_def)

text \<open>A reader leaves a suffix of its input, and it returns or throws.\<close>

locale json_reader =
  fixes J :: "'a codec"
  assumes unser_suffix: "unser J v s = Inr (v', r) \<Longrightarrow> suffix r s"
    and unser_total: "unser J v s \<noteq> Inl Fuel_exhausted"
begin

lemma unser_length: "unser J v s = Inr (v', r) \<Longrightarrow> length r \<le> length s"
  by (rule suffix_length_le [OF unser_suffix])

end

locale json_codec = json_reader J
  for J :: "'a codec" +
  fixes ok :: "'a \<Rightarrow> bool" and init :: 'a
  assumes roundtrip: "ok v \<Longrightarrow> delim rest \<Longrightarrow> unser J init (ser J v @ rest) = Inr (v, rest)"
    and ser_start: "ok v \<Longrightarrow> ser J v \<noteq> [] \<and> starts_value (hd (ser J v))"
begin

lemma ser_Cons: "ok v \<Longrightarrow> \<exists>c s. ser J v = c # s \<and> starts_value c"
  using ser_start [of v] by (cases "ser J v") auto

text \<open>White space before a value is skipped before the value is read.\<close>

lemma parse_space_ser [simp]: "ok v \<Longrightarrow> parse_space (ser J v @ rest) = ser J v @ rest"
  using ser_start [of v] by simp

lemma ser_inj: "ok v \<Longrightarrow> ok w \<Longrightarrow> ser J v = ser J w \<Longrightarrow> v = w"
  using roundtrip [of v "[]"] roundtrip [of w "[]"] by simp

end

end
