(* ===== verification/Json_String.thy ===== *)
theory Json_String
  imports Json_Codec
begin

text \<open>
  Strings: \<open>serializerS<char>\<close> and the serializers of \<open>char[N]\<close>, \<open>std::string\<close> and
  \<open>raw_value\<close> in \<open>fas/misc/json/json_string.hpp\<close>. The reader appends to an output iterator
  and counts the room left in \<open>n\<close>; \<open>n = -1\<close>, the default, never reaches zero (for inputs
  shorter than \<open>2^31\<close> characters) and stands for "no limit". The model returns the
  characters written, the input left and the new \<open>n\<close>.
\<close>

section \<open>Writing\<close>

definition hex_digit :: "nat \<Rightarrow> char" where
  "hex_digit k = ''0123456789abcdef'' ! k"

text \<open>\<open>snprintf(buf, 5, "%04x", k)\<close>\<close>

definition hex4 :: "nat \<Rightarrow> string" where
  "hex4 k = [hex_digit (k div 4096 mod 16), hex_digit (k div 256 mod 16),
             hex_digit (k div 16 mod 16), hex_digit (k mod 16)]"

definition escape_char :: "char \<Rightarrow> string" where
  "escape_char c =
     (if c = DQ \<or> c = BSL \<or> c = CHR ''/'' then [BSL, c]
      else if c = TAB then [BSL, CHR ''t'']
      else if c = BS then [BSL, CHR ''b'']
      else if c = CR then [BSL, CHR ''r'']
      else if c = LF then [BSL, CHR ''n'']
      else if c = FF then [BSL, CHR ''f'']
      else if 0 \<le> schar c \<and> schar c < 32 then [BSL, CHR ''u''] @ hex4 (byte c)
      else [c])"

text \<open>The loop stops at the end of the range or at the first zero byte.\<close>

fun serialize_chars :: "(char \<Rightarrow> string) \<Rightarrow> string \<Rightarrow> string" where
  "serialize_chars esc [] = []"
| "serialize_chars esc (c # s) = (if c = NUL then [] else esc c @ serialize_chars esc s)"

definition serialize_string :: "string \<Rightarrow> string" where
  "serialize_string s = DQ # serialize_chars escape_char s @ [DQ]"

section \<open>Reading\<close>

definition to_ushort :: "char \<Rightarrow> nat res" where
  "to_ushort c =
     (if 48 \<le> byte c \<and> byte c \<le> 57 then Inr (byte c - 48)
      else if 97 \<le> byte c \<and> byte c \<le> 102 then Inr (byte c - 97 + 10)
      else if 65 \<le> byte c \<and> byte c \<le> 70 then Inr (byte c - 65 + 10)
      else throw Invalid_json_string 0)"

text \<open>\<open>k\<close> more hexadecimal digits, shifted into \<open>hex\<close> from the left.\<close>

fun read_hex :: "nat \<Rightarrow> nat \<Rightarrow> string \<Rightarrow> (nat \<times> string) res" where
  "read_hex 0 hex s = Inr (hex, s)"
| "read_hex (Suc k) hex [] = throw Unexpected_end_fragment 0"
| "read_hex (Suc k) hex (c # s) =
     bindE (to_ushort c) (\<lambda>d. read_hex k (or hex (push_bit (4 * k) d)) s)"

definition unserialize_uhex :: "string \<Rightarrow> int \<Rightarrow> (string \<times> string \<times> int) res" where
  "unserialize_uhex s n = bindE (read_hex 4 0 s) (\<lambda>(hex, r).
     if hex \<le> 127 then Inr ([char_of hex], r, n - 1)
     else if hex \<le> 2047
     then (if n - 1 = 0 then throw Invalid_json_string (length r)
           else Inr ([char_of (or 192 (hex div 64 mod 256)),
                      char_of (or 128 (and (hex mod 256) 63))], r, n - 2))
     else (if n - 1 = 0 then throw Invalid_json_string (length r)
           else if n - 2 = 0 then throw Invalid_json_string (length r)
           else Inr ([char_of (or 224 (hex div 4096 mod 256)),
                      char_of (or 128 (and (hex div 64 mod 256) 63)),
                      char_of (or 128 (and (hex mod 256) 63))], r, n - 3)))"

fun symbol_copy :: "nat \<Rightarrow> string \<Rightarrow> int \<Rightarrow> (string \<times> string \<times> int) res" where
  "symbol_copy 0 s n = Inr ([], s, n)"
| "symbol_copy (Suc k) s n =
     (if n = 0 then Inr ([], s, n)
      else case s of
        [] \<Rightarrow> throw Unexpected_end_fragment 0
      | c # s' \<Rightarrow> bindE (symbol_copy k s' (n - 1)) (\<lambda>(out, r, n'). Inr (c # out, r, n')))"

definition unserialize_symbol :: "string \<Rightarrow> int \<Rightarrow> (string \<times> string \<times> int) res" where
  "unserialize_symbol s n =
     (case s of
        [] \<Rightarrow> throw Unexpected_end_fragment 0
      | c # s' \<Rightarrow>
          if and (byte c) 128 = 0 then Inr ([c], s', n - 1)
          else if and (byte c) 224 = 192 then symbol_copy 2 s n
          else if and (byte c) 240 = 224 then symbol_copy 3 s n
          else if and (byte c) 248 = 240 then symbol_copy 4 s n
          else throw Invalid_json_string (length s))"

text \<open>One escape sequence; \<open>s\<close> starts behind the backslash.\<close>

definition unserialize_escape :: "string \<Rightarrow> int \<Rightarrow> (string \<times> string \<times> int) res" where
  "unserialize_escape s n =
     (case s of
        [] \<Rightarrow> throw Unexpected_end_fragment 0
      | c # s' \<Rightarrow>
          if c = DQ \<or> c = BSL \<or> c = CHR ''/'' then Inr ([c], s', n - 1)
          else if c = CHR ''t'' then Inr ([TAB], s', n - 1)
          else if c = CHR ''b'' then Inr ([BS], s', n - 1)
          else if c = CHR ''r'' then Inr ([CR], s', n - 1)
          else if c = CHR ''n'' then Inr ([LF], s', n - 1)
          else if c = CHR ''f'' then Inr ([FF], s', n - 1)
          else if c = CHR ''u'' then unserialize_uhex s' n
          else throw Invalid_json_string (length s))"

lemma read_hex_suffix: "read_hex k hex s = Inr (h, r) \<Longrightarrow> suffix r s"
  by (induction k hex s rule: read_hex.induct) (auto simp: suffix_Cons)

lemma unserialize_uhex_suffix: "unserialize_uhex s n = Inr (out, r, m) \<Longrightarrow> suffix r s"
  by (auto simp: unserialize_uhex_def dest: read_hex_suffix split: if_splits)

lemma symbol_copy_suffix:
  "symbol_copy k s n = Inr (out, r, m) \<Longrightarrow> suffix r s \<and> (k \<noteq> 0 \<longrightarrow> n \<noteq> 0 \<longrightarrow> strict_suffix r s)"
  by (induction k s n arbitrary: out rule: symbol_copy.induct)
     (auto split: if_splits list.splits intro: suffix_ConsI strict_suffix_Cons)

lemma unserialize_symbol_suffix:
  "unserialize_symbol s n = Inr (out, r, m) \<Longrightarrow> n \<noteq> 0 \<Longrightarrow> strict_suffix r s"
  by (auto simp: unserialize_symbol_def split: list.splits if_splits intro: strict_suffix_Cons
      dest!: symbol_copy_suffix)

lemma unserialize_escape_suffix:
  "unserialize_escape s n = Inr (out, r, m) \<Longrightarrow> suffix r s"
  by (auto simp: unserialize_escape_def split: list.splits if_splits
      intro!: suffix_ConsI dest: unserialize_uhex_suffix)

lemmas string_step_shrinks =
  unserialize_symbol_suffix [THEN suffix_length_less]
  unserialize_escape_suffix [THEN suffix_length_le]

function unserialize_loop :: "string \<Rightarrow> int \<Rightarrow> (string \<times> string \<times> int) res" where
  "unserialize_loop s n =
     (if s \<noteq> [] \<and> hd s \<noteq> DQ \<and> n \<noteq> 0
      then bindE (if hd s = BSL then unserialize_escape (tl s) n else unserialize_symbol s n)
             (\<lambda>(out, r, m). bindE (unserialize_loop r m)
                (\<lambda>(out', r', m'). Inr (out @ out', r', m')))
      else Inr ([], s, n))"
  by pat_completeness auto
termination
  by (relation "measure (\<lambda>(s, n). length s)")
     (auto split: if_splits dest!: string_step_shrinks simp: length_tl less_eq_Suc_le neq_Nil_conv)

declare unserialize_loop.simps [simp del]

definition unserialize_string :: "string \<Rightarrow> int \<Rightarrow> (string \<times> string) res" where
  "unserialize_string s n =
     (if s = [] then throw Unexpected_end_fragment 0
      else if hd s \<noteq> DQ then throw (Expected_of [DQ]) 0
      else bindE (unserialize_loop (tl s) n) (\<lambda>(out, r, m).
        if r = [] then throw Unexpected_end_fragment 0
        else if hd r \<noteq> DQ then throw (Expected_of [DQ]) 0
        else Inr (out, tl r)))"

section \<open>The serializers\<close>

definition string_codec :: "string codec" where
  "string_codec =
     \<lparr>ser = serialize_string,
      unser = (\<lambda>v s. if is_null s then bindE (parse_null s) (\<lambda>r. Inr ([], r))
                     else unserialize_string s (-1))\<rparr>"

text \<open>
  A \<open>char[N]\<close> is the list of its \<open>N\<close> cells. The reader fills it with zeros, then writes at
  most \<open>N\<close> characters to its front.
\<close>

definition fill :: "nat \<Rightarrow> string \<Rightarrow> string" where
  "fill N out = out @ replicate (N - length out) NUL"

definition char_array_codec :: "nat \<Rightarrow> string codec" where
  "char_array_codec N =
     \<lparr>ser = (\<lambda>v. serialize_string (take N v)),
      unser = (\<lambda>v s. if is_null s then bindE (parse_null s) (\<lambda>r. Inr (fill N [], r))
                     else bindE (unserialize_string s (int N)) (\<lambda>(out, r). Inr (fill N out, r)))\<rparr>"

text \<open>A raw value is the JSON text itself.\<close>

definition raw_codec :: "string codec" where
  "raw_codec =
     \<lparr>ser = (\<lambda>v. if v \<noteq> [] then v else [DQ, DQ]),
      unser = (\<lambda>v s. bindE (parse_value s) (\<lambda>r. Inr (take (length s - length r) s, r)))\<rparr>"

section \<open>Text in UTF-8\<close>

text \<open>
  The strings the reader accepts: each lead byte is followed by the continuation bytes it
  announces. (Longer than necessary and out-of-range sequences are accepted as well.)
\<close>

definition conts :: "nat \<Rightarrow> string \<Rightarrow> bool" where
  "conts k s \<longleftrightarrow> k \<le> length s \<and> list_all cont (take k s)"

function utf8 :: "string \<Rightarrow> bool" where
  "utf8 [] = True"
| "utf8 (c # s) =
     (if and (byte c) 128 = 0 then utf8 s
      else if and (byte c) 224 = 192 then conts 1 s \<and> utf8 (drop 1 s)
      else if and (byte c) 240 = 224 then conts 2 s \<and> utf8 (drop 2 s)
      else if and (byte c) 248 = 240 then conts 3 s \<and> utf8 (drop 3 s)
      else False)"
  by pat_completeness auto
termination
  by (relation "measure length") auto

lemma high_bit: "and (byte c) 128 \<noteq> 0 \<Longrightarrow> 128 \<le> byte c"
  by (simp add: and_128_char)

lemma cont_high: "cont c \<Longrightarrow> and (byte c) 128 \<noteq> 0"
  using cont_bits(1) [of "byte c"] by (simp add: cont_def)

section \<open>The contract of an escaping\<close>

text \<open>
  One step of the reading loop, and what the writer's choice of escapes has to guarantee:
  an ASCII character is read back from its escape, and no other byte is escaped. Both
  string serializers of the daemon satisfy it.
\<close>

definition read_step :: "string \<Rightarrow> int \<Rightarrow> (string \<times> string \<times> int) res" where
  "read_step s n = (if hd s = BSL then unserialize_escape (tl s) n else unserialize_symbol s n)"

lemma unserialize_loop_step:
  "s \<noteq> [] \<Longrightarrow> hd s \<noteq> DQ \<Longrightarrow> n \<noteq> 0 \<Longrightarrow> read_step s n = Inr (out, r, m) \<Longrightarrow>
     unserialize_loop s n =
       bindE (unserialize_loop r m) (\<lambda>(out', r', m'). Inr (out @ out', r', m'))"
  by (subst unserialize_loop.simps) (simp add: read_step_def)

lemma unserialize_loop_stop: "unserialize_loop (DQ # s) n = Inr ([], DQ # s, n)"
  by (subst unserialize_loop.simps) simp

locale string_escape =
  fixes esc :: "char \<Rightarrow> string"
  assumes esc_ascii: "byte c < 128 \<Longrightarrow> c \<noteq> NUL \<Longrightarrow> n \<noteq> 0 \<Longrightarrow>
      read_step (esc c @ t) n = Inr ([c], t, n - 1)"
    and esc_start: "esc c \<noteq> [] \<and> hd (esc c) \<noteq> DQ"
    and esc_high: "128 \<le> byte c \<Longrightarrow> esc c = [c]"
begin

lemma serialize_conts:
  "conts k s \<Longrightarrow> serialize_chars esc s = take k s @ serialize_chars esc (drop k s)"
proof (induction k arbitrary: s)
  case (Suc k)
  then obtain c s' where s: "s = c # s'" "cont c" "conts k s'"
    by (cases s) (auto simp: conts_def)
  have "128 \<le> byte c" by (rule high_bit [OF cont_high [OF s(2)]])
  with s Suc.IH [of s'] show ?case by (auto simp: esc_high)
qed (simp add: conts_def)

lemma symbol_copy_app:
  "n < 0 \<or> int (length p) \<le> n \<Longrightarrow> symbol_copy (length p) (p @ t) n = Inr (p, t, n - int (length p))"
  by (induction p arbitrary: n) auto

text \<open>A multi-byte symbol is copied as it is.\<close>

lemma symbol_roundtrip:
  assumes "unserialize_symbol (c # take k s @ t) n = symbol_copy (Suc k) (c # take k s @ t) n"
    and "conts k s" and "128 \<le> byte c" and "n < 0 \<or> int (Suc k) \<le> n"
  shows "read_step (esc c @ take k s @ t) n = Inr (c # take k s, t, n - int (Suc k))"
proof -
  have "length (c # take k s) = Suc k" using assms(2) by (simp add: conts_def)
  then have "symbol_copy (Suc k) ((c # take k s) @ t) n = Inr (c # take k s, t, n - int (Suc k))"
    using symbol_copy_app [of n "c # take k s" t] assms(4) by simp
  moreover have "c \<noteq> BSL" using assms(3) by auto
  ultimately show ?thesis using assms(1,3) by (simp add: read_step_def esc_high)
qed

text \<open>What the loop does with one symbol, given what it does with the rest.\<close>

lemma loop_prefix:
  assumes "read_step (esc c @ p @ t) n = Inr (c # p, t, m)" and "n \<noteq> 0"
    and "unserialize_loop t m = Inr (q, r, k)"
  shows "unserialize_loop (esc c @ p @ t) n = Inr (c # p @ q, r, k)"
  using unserialize_loop_step [OF _ _ assms(2,1)] esc_start [of c] assms(3) by auto

lemma loop_multi:
  assumes "and (byte c) 128 \<noteq> 0" and "conts k s" and "n < 0 \<or> int (length (c # s)) \<le> n"
    and "\<And>t. unserialize_symbol (c # t) n = symbol_copy (Suc k) (c # t) n"
    and "unserialize_loop (serialize_chars esc (drop k s) @ DQ # rest) (n - int (Suc k)) =
           Inr (drop k s, DQ # rest, n - int (Suc k) - int (length (drop k s)))"
  shows "unserialize_loop (serialize_chars esc (c # s) @ DQ # rest) n =
           Inr (c # s, DQ # rest, n - int (length (c # s)))"
proof -
  have c: "128 \<le> byte c" by (rule high_bit [OF assms(1)])
  have k: "k \<le> length s" using assms(2) by (simp add: conts_def)
  have "n < 0 \<or> int (Suc k) \<le> n" using assms(3) k by auto
  from symbol_roundtrip [OF assms(4,2) c this] assms(3) loop_prefix [OF _ _ assms(5)]
  have "unserialize_loop (esc c @ take k s @ serialize_chars esc (drop k s) @ DQ # rest) n =
          Inr (c # take k s @ drop k s, DQ # rest, n - int (Suc k) - int (length (drop k s)))"
    by auto
  moreover have "c \<noteq> NUL" using c by auto
  ultimately show ?thesis using k serialize_conts [OF assms(2)] by simp
qed

text \<open>Every UTF-8 text without zero bytes that fits the limit is read back from its escaped form.\<close>

lemma loop_roundtrip:
  "utf8 s \<Longrightarrow> NUL \<notin> set s \<Longrightarrow> n < 0 \<or> int (length s) \<le> n \<Longrightarrow>
     unserialize_loop (serialize_chars esc s @ DQ # rest) n =
       Inr (s, DQ # rest, n - int (length s))"
proof (induction s arbitrary: n rule: utf8.induct)
  case 1
  show ?case by (simp add: unserialize_loop_stop)
next
  case (2 c s)
  have n0: "n \<noteq> 0" using 2(7) by auto
  have drop: "n - int (Suc k) < 0 \<or> int (length (drop k s)) \<le> n - int (Suc k)"
    if "conts k s" for k
    using that 2(7) by (auto simp: conts_def)
  have nul: "NUL \<notin> set (drop k s)" for k using 2(6) by (auto dest: in_set_dropD)
  consider (one) "and (byte c) 128 = 0"
    | (two) "and (byte c) 128 \<noteq> 0" "and (byte c) 224 = 192"
    | (three) "and (byte c) 128 \<noteq> 0" "and (byte c) 224 \<noteq> 192" "and (byte c) 240 = 224"
    | (four) "and (byte c) 128 \<noteq> 0" "and (byte c) 224 \<noteq> 192" "and (byte c) 240 \<noteq> 224"
        "and (byte c) 248 = 240"
    using 2(5) by (auto split: if_splits)
  then show ?case
  proof cases
    case one
    have "byte c < 128" using one by (simp add: and_128_char)
    with 2(6) n0 have "read_step (esc c @ [] @ serialize_chars esc s @ DQ # rest) n =
        Inr ([c], serialize_chars esc s @ DQ # rest, n - 1)"
      using esc_ascii [of c n] by auto
    from loop_prefix [OF this n0] show ?thesis using 2(1) [OF one, of "n - 1"] 2(5-7) one by auto
  next
    case two
    then have c: "conts 1 s" and u: "utf8 (drop 1 s)" using 2(5) by auto
    show ?thesis
      by (rule loop_multi [OF two(1) c 2(7) _ 2(2) [OF two u nul drop [OF c]]])
         (use two in \<open>simp add: unserialize_symbol_def numeral_2_eq_2\<close>)
  next
    case three
    then have c: "conts 2 s" and u: "utf8 (drop 2 s)" using 2(5) by auto
    show ?thesis
      by (rule loop_multi [OF three(1) c 2(7) _ 2(3) [OF three u nul drop [OF c]]])
         (use three in \<open>simp add: unserialize_symbol_def eval_nat_numeral\<close>)
  next
    case four
    then have c: "conts 3 s" and u: "utf8 (drop 3 s)" using 2(5) by auto
    show ?thesis
      by (rule loop_multi [OF four(1) c 2(7) _ 2(4) [OF four u nul drop [OF c]]])
         (use four in \<open>simp add: unserialize_symbol_def eval_nat_numeral\<close>)
  qed
qed

lemma quoted_roundtrip:
  assumes "utf8 s" and "NUL \<notin> set s" and "n < 0 \<or> int (length s) \<le> n"
  shows "unserialize_string (DQ # serialize_chars esc s @ DQ # rest) n = Inr (s, rest)"
  by (simp add: unserialize_string_def loop_roundtrip [OF assms])

end

section \<open>The escapes of the library\<close>

lemma to_ushort_hex_digit: "j < 16 \<Longrightarrow> to_ushort (hex_digit j) = Inr j"
proof -
  have "\<forall>j \<in> set [0..<16]. to_ushort (hex_digit j) = Inr j" by code_simp
  then show "j < 16 \<Longrightarrow> to_ushort (hex_digit j) = Inr j" by auto
qed

lemma read_hex_hex4: "k < 32 \<Longrightarrow> read_hex 4 0 (hex4 k @ t) = Inr (k, t)"
proof -
  assume k: "k < 32"
  have "\<forall>k \<in> set [0..<32]. or (push_bit 4 (k div 16)) (k mod 16) = (k::nat)" by code_simp
  with k have "or (push_bit 4 (k div 16)) (k mod 16) = k" by auto
  moreover have "k div 4096 = 0" "k div 256 = 0" "k div 16 mod 16 = k div 16" using k by auto
  ultimately have "read_hex (Suc (Suc (Suc (Suc 0)))) 0 (hex4 k @ t) = Inr (k, t)"
    using k by (simp add: hex4_def to_ushort_hex_digit)
  then show ?thesis by (simp add: eval_nat_numeral)
qed

lemma schar_ascii: "byte c < 128 \<Longrightarrow> schar c = int (byte c)"
  by (simp add: schar_def)

lemma schar_high: "128 \<le> byte c \<Longrightarrow> schar c < 0"
proof -
  have "n < 256 \<Longrightarrow> int n - 256 < 0" for n :: nat by simp
  from this [of "byte c"] show "128 \<le> byte c \<Longrightarrow> schar c < 0" by (simp add: schar_def)
qed

lemma read_step_plain:
  "byte c < 128 \<Longrightarrow> c \<noteq> BSL \<Longrightarrow> read_step (c # t) n = Inr ([c], t, n - 1)"
  by (simp add: read_step_def unserialize_symbol_def and_128_char)

lemma read_step_escape: "read_step (BSL # t) n = unserialize_escape t n"
  by (simp add: read_step_def)

lemma unserialize_escape_u:
  "k < 32 \<Longrightarrow> unserialize_escape (CHR ''u'' # hex4 k @ t) n = Inr ([char_of k], t, n - 1)"
  by (simp add: unserialize_escape_def unserialize_uhex_def read_hex_hex4)

interpretation std_escape: string_escape escape_char
proof
  fix c :: char and n :: int and t
  assume c: "byte c < 128" "c \<noteq> NUL" and "n \<noteq> 0"
  show "read_step (escape_char c @ t) n = Inr ([c], t, n - 1)"
  proof (cases "c \<in> set [DQ, BSL, CHR ''/'', TAB, BS, CR, LF, FF]")
    case True
    then show ?thesis by (auto simp: escape_char_def read_step_escape unserialize_escape_def)
  next
    case False
    then show ?thesis
      using c by (auto simp: escape_char_def read_step_escape unserialize_escape_u
          read_step_plain schar_ascii)
  qed
next
  fix c :: char
  show "escape_char c \<noteq> [] \<and> hd (escape_char c) \<noteq> DQ" by (simp add: escape_char_def)
  assume "128 \<le> byte c"
  moreover from this have "c \<notin> set [DQ, BSL, CHR ''/'', TAB, BS, CR, LF, FF]" by auto
  moreover from calculation have "schar c < 0" by (simp add: schar_high)
  ultimately show "escape_char c = [c]" by (simp add: escape_char_def)
qed

section \<open>The contracts of the string serializers\<close>

lemma unserialize_loop_suffix: "unserialize_loop s n = Inr (out, r, m) \<Longrightarrow> suffix r s"
proof (induction s n arbitrary: out m rule: unserialize_loop.induct)
  case (1 s n)
  show ?case
  proof (cases "s \<noteq> [] \<and> hd s \<noteq> DQ \<and> n \<noteq> 0")
    case True
    with 1(2) obtain o1 t k o2 where
      step: "(if hd s = BSL then unserialize_escape (tl s) n else unserialize_symbol s n) =
               Inr (o1, t, k)" and loop: "unserialize_loop t k = Inr (o2, r, m)"
      by (subst (asm) unserialize_loop.simps) (auto split: prod.splits)
    have "suffix r t" by (rule 1(1) [OF True step refl refl loop])
    moreover have "suffix t s"
      using step True
      by (auto split: if_splits dest: unserialize_escape_suffix
          intro: suffix_order.less_imp_le [OF unserialize_symbol_suffix])
    ultimately show ?thesis by (rule suffix_order.trans)
  qed (use 1(2) in \<open>subst (asm) unserialize_loop.simps, auto\<close>)
qed

lemma read_hex_total: "read_hex k hex s \<noteq> Inl Fuel_exhausted"
  by (induction k hex s rule: read_hex.induct) (auto simp: bindE_Inl_iff to_ushort_def split: if_splits)

lemma symbol_copy_total: "symbol_copy k s n \<noteq> Inl Fuel_exhausted"
  by (induction k s n rule: symbol_copy.induct) (auto simp: bindE_Inl_iff split: list.splits)

lemma unserialize_symbol_total: "unserialize_symbol s n \<noteq> Inl Fuel_exhausted"
  by (auto simp: unserialize_symbol_def symbol_copy_total split: list.splits)

lemma unserialize_escape_total: "unserialize_escape s n \<noteq> Inl Fuel_exhausted"
  by (auto simp: unserialize_escape_def unserialize_uhex_def bindE_Inl_iff read_hex_total
      split: list.splits if_splits)

lemma unserialize_loop_total: "unserialize_loop s n \<noteq> Inl Fuel_exhausted"
proof (induction s n rule: unserialize_loop.induct)
  case (1 s n)
  then show ?case
    by (subst unserialize_loop.simps)
       (auto simp: bindE_Inl_iff unserialize_symbol_total unserialize_escape_total)
qed

lemma unserialize_string_total: "unserialize_string s n \<noteq> Inl Fuel_exhausted"
  by (auto simp: unserialize_string_def bindE_Inl_iff unserialize_loop_total split: if_splits)

lemma unserialize_string_suffix: "unserialize_string s n = Inr (out, r) \<Longrightarrow> suffix r s"
  by (auto simp: unserialize_string_def split: if_splits dest!: unserialize_loop_suffix
      intro: suffix_tlI suffix_tl_left)

text \<open>The values a string variable can hold and get back.\<close>

definition text_ok :: "string \<Rightarrow> bool" where
  "text_ok s \<longleftrightarrow> utf8 s \<and> NUL \<notin> set s"

lemma is_null_DQ [simp]: "\<not> is_null (DQ # s)"
  by (simp add: is_null_def)

lemma string_codec_contract: "json_codec string_codec text_ok i"
proof
  fix v s v' r
  assume "unser string_codec v s = Inr (v', r)"
  then show "suffix r s"
    by (auto simp: string_codec_def split: if_splits
        dest: parse_null_suffix unserialize_string_suffix suffix_order.less_imp_le)
next
  fix v s
  show "unser string_codec v s \<noteq> Inl Fuel_exhausted"
    by (simp add: string_codec_def bindE_Inl_iff parse_null_no_fuel unserialize_string_total)
qed (simp_all add: string_codec_def serialize_string_def text_ok_def std_escape.quoted_roundtrip)

interpretation str: json_codec string_codec text_ok "[]"
  by (rule string_codec_contract)

text \<open>A value of \<open>char[N]\<close>: a text that fits, and zeros behind it.\<close>

definition cells_ok :: "nat \<Rightarrow> string \<Rightarrow> bool" where
  "cells_ok N v \<longleftrightarrow> length v = N \<and> text_ok (takeWhile (\<lambda>c. c \<noteq> NUL) v) \<and>
     v = fill N (takeWhile (\<lambda>c. c \<noteq> NUL) v)"

lemma serialize_chars_stop: "serialize_chars esc (takeWhile (\<lambda>c. c \<noteq> NUL) s) = serialize_chars esc s"
  by (induction s) auto

lemma char_array_contract: "json_codec (char_array_codec N) (cells_ok N) (replicate N NUL)"
proof
  fix v s v' r
  assume "unser (char_array_codec N) v s = Inr (v', r)"
  then show "suffix r s"
    by (auto simp: char_array_codec_def split: if_splits
        dest: parse_null_suffix unserialize_string_suffix suffix_order.less_imp_le)
next
  fix v s
  show "unser (char_array_codec N) v s \<noteq> Inl Fuel_exhausted"
    by (auto simp: char_array_codec_def bindE_Inl_iff parse_null_no_fuel unserialize_string_total)
next
  fix v rest
  let ?t = "takeWhile (\<lambda>c. c \<noteq> NUL) v"
  assume v: "cells_ok N v"
  then have len: "int (length ?t) \<le> int N" and t: "text_ok ?t"
    using length_takeWhile_le [of "\<lambda>c. c \<noteq> NUL" v] by (auto simp: cells_ok_def)
  have "serialize_string (take N v) = serialize_string ?t"
    using v by (simp add: serialize_string_def serialize_chars_stop cells_ok_def)
  with len t v show "unser (char_array_codec N) (replicate N NUL)
      (ser (char_array_codec N) v @ rest) = Inr (v, rest)"
    by (simp add: char_array_codec_def serialize_string_def text_ok_def
        std_escape.quoted_roundtrip cells_ok_def)
qed (simp add: char_array_codec_def serialize_string_def)

interpretation cells8: json_codec "char_array_codec 8" "cells_ok 8" "replicate 8 NUL"
  by (rule char_array_contract)

interpretation cells64: json_codec "char_array_codec 64" "cells_ok 64" "replicate 64 NUL"
  by (rule char_array_contract)

text \<open>A raw value: one JSON value, with nothing before or behind it.\<close>

definition raw_ok :: "string \<Rightarrow> bool" where
  "raw_ok v \<longleftrightarrow> v \<noteq> [] \<and> starts_value (hd v) \<and>
     (\<forall>rest. delim rest \<longrightarrow> parse_value (v @ rest) = Inr rest)"

interpretation raw: json_codec raw_codec raw_ok "[]"
proof
  fix v s v' r
  assume "unser raw_codec v s = Inr (v', r)"
  then show "suffix r s"
    by (auto simp: raw_codec_def dest: parse_value_suffix suffix_order.less_imp_le)
qed (auto simp: raw_codec_def raw_ok_def bindE_Inl_iff no_fuel)

text \<open>
  C30. A string variable is restored by reading what was written from it, whatever
  characters it holds, as long as it is UTF-8 without zero bytes: quotes, control characters
  and four-byte sequences included; what follows the closing quote is not consumed.
\<close>

theorem string_roundtrip:
  assumes "utf8 s" and "NUL \<notin> set s"
  shows "unser string_codec v (ser string_codec s @ rest) = Inr (s, rest)"
  using assms by (simp add: string_codec_def serialize_string_def std_escape.quoted_roundtrip)

theorem string_roundtrip_witness:
  "unser string_codec ''old'' (ser string_codec [DQ, CHR 0x01, CHR 0xF0, CHR 0x9F, CHR 0x98, CHR 0x80, CHR ''/'']
     @ '',1'') = Inr ([DQ, CHR 0x01, CHR 0xF0, CHR 0x9F, CHR 0x98, CHR 0x80, CHR ''/''], '',1'')"
  by (rule string_roundtrip) code_simp+

section \<open>The limit of a fixed array\<close>

lemma symbol_copy_limit:
  "symbol_copy k s n = Inr (out, r, m) \<Longrightarrow> 0 \<le> n \<Longrightarrow> int (length out) + m = n \<and> 0 \<le> m"
proof (induction k s n arbitrary: out rule: symbol_copy.induct)
  case (2 k s n)
  then show ?case by (cases "n = 0") (fastforce split: list.splits)+
qed simp

lemma unserialize_uhex_limit:
  "unserialize_uhex s n = Inr (out, r, m) \<Longrightarrow> 0 < n \<Longrightarrow> int (length out) + m = n \<and> 0 \<le> m"
  by (auto simp: unserialize_uhex_def split: if_splits)

lemma unserialize_symbol_limit:
  "unserialize_symbol s n = Inr (out, r, m) \<Longrightarrow> 0 < n \<Longrightarrow> int (length out) + m = n \<and> 0 \<le> m"
  by (auto simp: unserialize_symbol_def split: list.splits if_splits dest!: symbol_copy_limit)

lemma unserialize_escape_limit:
  "unserialize_escape s n = Inr (out, r, m) \<Longrightarrow> 0 < n \<Longrightarrow> int (length out) + m = n \<and> 0 \<le> m"
  by (auto simp: unserialize_escape_def split: list.splits if_splits dest!: unserialize_uhex_limit)

lemma unserialize_loop_limit:
  "unserialize_loop s n = Inr (out, r, m) \<Longrightarrow> 0 \<le> n \<Longrightarrow> int (length out) + m = n \<and> 0 \<le> m"
proof (induction s n arbitrary: out m rule: unserialize_loop.induct)
  case (1 s n)
  show ?case
  proof (cases "s \<noteq> [] \<and> hd s \<noteq> DQ \<and> n \<noteq> 0")
    case True
    with 1(2) obtain o1 t k o2 where
      step: "(if hd s = BSL then unserialize_escape (tl s) n else unserialize_symbol s n) =
               Inr (o1, t, k)" and loop: "unserialize_loop t k = Inr (o2, r, m)"
      and out: "out = o1 @ o2"
      by (subst (asm) unserialize_loop.simps) (auto split: prod.splits)
    have k: "int (length o1) + k = n \<and> 0 \<le> k"
      using step True 1(3)
      by (auto split: if_splits dest!: unserialize_escape_limit unserialize_symbol_limit)
    moreover have "int (length o2) + m = k \<and> 0 \<le> m"
      by (rule 1(1) [OF True step refl refl loop]) (simp add: k)
    ultimately show ?thesis by (simp add: out)
  qed (use 1(2,3) in \<open>subst (asm) unserialize_loop.simps, auto\<close>)
qed

lemma unserialize_string_limit: "unserialize_string s (int N) = Inr (out, r) \<Longrightarrow> length out \<le> N"
  by (auto simp: unserialize_string_def split: if_splits dest!: unserialize_loop_limit)

text \<open>
  Reading a string into a \<open>char[N]\<close> writes at most \<open>N\<close> cells, for every input: the array
  has its \<open>N\<close> cells afterwards, the text of the input in front and zeros behind it.
\<close>

lemma char_array_bounded:
  assumes "unser (char_array_codec N) v s = Inr (v', r)"
  shows "length v' = N"
  using assms
  by (auto simp: char_array_codec_def fill_def split: if_splits dest!: unserialize_string_limit)

end
