(* ===== verification/Json_Number.thy ===== *)
theory Json_Number
  imports Json_Codec
begin

text \<open>
  Integers and booleans: \<open>parser::unserialize_integer\<close> of
  \<open>fas/misc/json/json_parser.hpp\<close> and the serializers of \<open>fas/misc/json/json_number.hpp\<close>.
  The template parameter \<open>T\<close> is described by its size in bytes and its signedness. Values
  are integers in the range of \<open>T\<close>; every assignment to a variable of type \<open>T\<close> is
  written with \<open>wrap\<close>, the reduction to that range. For signed types C++ leaves overflow
  undefined; the model takes the two's complement result the compiled code produces.
\<close>

section \<open>Integer types\<close>

record int_type =
  sizeof :: nat
  is_signed :: bool

definition bits_of :: "int_type \<Rightarrow> nat" where
  "bits_of t = 8 * sizeof t"

definition wrap :: "int_type \<Rightarrow> int \<Rightarrow> int" where
  "wrap t x = (if is_signed t then signed_take_bit (bits_of t - 1) x else take_bit (bits_of t) x)"

definition fits :: "int_type \<Rightarrow> int \<Rightarrow> bool" where
  "fits t x \<longleftrightarrow> (if is_signed t then - (2 ^ (bits_of t - 1)) \<le> x \<and> x < 2 ^ (bits_of t - 1)
                else 0 \<le> x \<and> x < 2 ^ bits_of t)"

definition c_int :: int_type where "c_int = \<lparr>sizeof = 4, is_signed = True\<rparr>"
definition c_long_long :: int_type where "c_long_long = \<lparr>sizeof = 8, is_signed = True\<rparr>"

section \<open>Reading\<close>

fun digits_loop :: "int_type \<Rightarrow> int \<Rightarrow> string \<Rightarrow> int \<times> string" where
  "digits_loop t v [] = (v, [])"
| "digits_loop t v (c # s) =
     (if \<not> is_digit c then (v, c # s) else digits_loop t (wrap t (v * 10 + digit_val c)) s)"

definition unserialize_integer :: "int_type \<Rightarrow> string \<Rightarrow> (int \<times> string) res" where
  "unserialize_integer t s =
     (if s = [] then throw Unexpected_end_fragment 0
      else let neg = (hd s = CHR ''-''); s = (if neg then tl s else s) in
      if s = [] \<or> \<not> is_digit (hd s) then throw Invalid_json_number (length s)
      else if hd s = CHR ''0'' then Inr (0, tl s)
      else let (v, r) = digits_loop t 0 s in
           Inr (if neg then wrap t (v * (-1)) else v, r))"

section \<open>Writing\<close>

definition integer_buffer_size :: "int_type \<Rightarrow> nat" where
  "integer_buffer_size t =
     sizeof t * 2 + sizeof t div 2 + sizeof t mod 2 + (if is_signed t then 1 else 0)"

definition is_less_zero :: "int_type \<Rightarrow> int \<Rightarrow> bool" where
  "is_less_zero t v \<longleftrightarrow> (if is_signed t then v < 0 else False)"

text \<open>
  The digits, last one first: \<open>for (; v != 0; ++end, v /= 10) *end = '0' + v % 10\<close>, with a
  minus sign for a negative \<open>v\<close>, whose remainder is negative. Division truncates.
\<close>

function put_digits :: "int \<Rightarrow> int \<Rightarrow> string" where
  "put_digits sg v =
     (if v = 0 then [] else char_of (nat (48 + sg * (v smod 10))) # put_digits sg (v sdiv 10))"
  by pat_completeness auto
termination
proof (relation "measure (\<lambda>(sg, v). nat \<bar>v\<bar>)")
  fix sg v :: int
  assume "v \<noteq> 0"
  then show "((sg, v sdiv 10), sg, v) \<in> measure (\<lambda>(sg, v). nat \<bar>v\<bar>)"
    by (auto simp: signed_divide_int_def abs_mult abs_sgn_eq)
qed simp

declare put_digits.simps [simp del]

text \<open>The in-place reversal by three exclusive ors per pair of cells.\<close>

definition cxor :: "char \<Rightarrow> char \<Rightarrow> char" where
  "cxor a b = char_of (xor (byte a) (byte b))"

definition xor_swap :: "string \<Rightarrow> nat \<Rightarrow> nat \<Rightarrow> string" where
  "xor_swap buf i j =
     (let buf = buf[i := cxor (buf ! i) (buf ! j)];
          buf = buf[j := cxor (buf ! j) (buf ! i)] in
      buf[i := cxor (buf ! i) (buf ! j)])"

function xor_reverse :: "string \<Rightarrow> nat \<Rightarrow> nat \<Rightarrow> string" where
  "xor_reverse buf beg cur =
     (if cur > beg + 1
      then xor_reverse (xor_swap buf beg (cur - 1)) (beg + 1) (cur - 1)
      else buf)"
  by pat_completeness auto
termination
  by (relation "measure (\<lambda>(buf, beg, cur). cur)") auto

declare xor_reverse.simps [simp del]

definition serialize_integer :: "int_type \<Rightarrow> int \<Rightarrow> string" where
  "serialize_integer t v =
     (let (buf, beg) =
        (if v = 0 then (''0'', 0)
         else if is_less_zero t v then (CHR ''-'' # put_digits (-1) v, 1)
         else (put_digits 1 v, 0)) in
      xor_reverse buf beg (length buf))"

text \<open>\<open>serializerN<T>\<close>: \<open>null\<close> reads as zero.\<close>

definition integer_codec :: "int_type \<Rightarrow> int codec" where
  "integer_codec t =
     \<lparr>ser = serialize_integer t,
      unser = (\<lambda>v s. if is_null s then bindE (parse_null s) (\<lambda>r. Inr (0, r))
                     else unserialize_integer t s)\<rparr>"

section \<open>Booleans\<close>

definition bool_codec :: "bool codec" where
  "bool_codec =
     \<lparr>ser = (\<lambda>v. if v then ''true'' else ''false''),
      unser = (\<lambda>v s.
        if s = [] then throw Unexpected_end_fragment 0
        else if is_null s then bindE (parse_null s) (\<lambda>r. Inr (False, r))
        else if hd s = CHR ''t'' then bindE (parse_bool s) (\<lambda>r. Inr (True, r))
        else if hd s = CHR ''f'' then bindE (parse_bool s) (\<lambda>r. Inr (False, r))
        else throw Invalid_json_bool (length s))\<rparr>"

section \<open>Wrap-around\<close>

lemma wrap_eq_iff:
  "0 < sizeof t \<Longrightarrow> wrap t x = wrap t y \<longleftrightarrow> take_bit (bits_of t) x = take_bit (bits_of t) y"
  by (simp add: wrap_def bits_of_def signed_take_bit_eq_iff_take_bit_eq)

lemma take_bit_wrap: "0 < sizeof t \<Longrightarrow> take_bit (bits_of t) (wrap t x) = take_bit (bits_of t) x"
  by (simp add: wrap_def bits_of_def take_bit_signed_take_bit)

lemma wrap_lin:
  assumes "0 < sizeof t"
  shows "wrap t (wrap t x * 10 + d) = wrap t (x * 10 + d)"
proof -
  have "take_bit (bits_of t) (wrap t x * 10 + d)
      = take_bit (bits_of t) (take_bit (bits_of t) (take_bit (bits_of t) (wrap t x) * take_bit (bits_of t) 10)
          + take_bit (bits_of t) d)"
    by (simp only: take_bit_add take_bit_mult)
  also have "\<dots> = take_bit (bits_of t) (x * 10 + d)"
    by (simp only: take_bit_wrap [OF assms] take_bit_add take_bit_mult)
  finally show ?thesis using wrap_eq_iff [OF assms] by blast
qed

lemma wrap_minus:
  assumes "0 < sizeof t"
  shows "wrap t (wrap t x * (-1)) = wrap t (- x)"
proof -
  have "take_bit (bits_of t) (wrap t x * (-1)) = take_bit (bits_of t) (- (take_bit (bits_of t) (wrap t x)))"
    by (simp add: take_bit_minus)
  also have "\<dots> = take_bit (bits_of t) (- x)"
    by (simp add: take_bit_wrap [OF assms] take_bit_minus)
  finally show ?thesis using wrap_eq_iff [OF assms] by blast
qed

lemma wrap_fits: "0 < sizeof t \<Longrightarrow> fits t x \<Longrightarrow> wrap t x = x"
  by (auto simp: wrap_def fits_def bits_of_def signed_take_bit_int_eq_self take_bit_int_eq_self
      split: if_splits)

section \<open>Writing and reading decimal digits\<close>

definition dval :: "int \<Rightarrow> string \<Rightarrow> int" where
  "dval v ds = foldl (\<lambda>a c. a * 10 + digit_val c) v ds"

lemma digits_loop_app:
  assumes "0 < sizeof t" and "list_all is_digit ds" and "rest = [] \<or> \<not> is_digit (hd rest)"
  shows "digits_loop t (wrap t v) (ds @ rest) = (wrap t (dval v ds), rest)"
  using assms(2)
proof (induction ds arbitrary: v)
  case Nil
  with assms(3) show ?case by (cases rest) (auto simp: dval_def)
next
  case (Cons c ds)
  then show ?case using assms(1) by (simp add: dval_def wrap_lin)
qed

lemma digit_char:
  assumes "0 \<le> d" and "d < 10"
  shows "is_digit (char_of (nat (48 + d)))" and "digit_val (char_of (nat (48 + d))) = d"
    and "char_of (nat (48 + d)) = CHR ''0'' \<longleftrightarrow> d = 0"
proof -
  have b: "byte (char_of (nat (48 + d))) = nat (48 + d)" using assms by simp
  then show "is_digit (char_of (nat (48 + d)))" using assms
    by (simp add: is_digit_iff nat_le_iff le_nat_iff del: of_char_of)
  show "digit_val (char_of (nat (48 + d))) = d"
    using b assms by (simp add: digit_val_def schar_def del: of_char_of)
  show "char_of (nat (48 + d)) = CHR ''0'' \<longleftrightarrow> d = 0"
  proof
    assume "char_of (nat (48 + d)) = CHR ''0''"
    then have "nat (48 + d) = byte (CHR ''0'')" using b by metis
    then show "d = 0" using assms by simp
  next
    have "char_of (48 :: nat) = CHR ''0''" by code_simp
    then show "d = 0 \<Longrightarrow> char_of (nat (48 + d)) = CHR ''0''" by simp
  qed
qed

lemma put_digits_nonneg:
  "0 < v \<Longrightarrow> put_digits 1 v = char_of (nat (48 + v mod 10)) # put_digits 1 (v div 10)"
  by (subst put_digits.simps) (simp add: signed_modulo_int_def signed_divide_int_def)

lemma put_digits_0 [simp]: "put_digits sg 0 = []"
  by (simp add: put_digits.simps)

lemma put_digits_neg: "v < 0 \<Longrightarrow> put_digits (-1) v = put_digits 1 (- v)"
proof (induction "-1::int" v rule: put_digits.induct)
  case (1 v)
  have d: "v sdiv 10 = - (- v div 10)" "v smod 10 = - (- v mod 10)"
    using "1.prems" by (simp_all add: signed_divide_int_def signed_modulo_int_def)
  have "put_digits (-1) (v sdiv 10) = put_digits 1 (- v div 10)"
  proof (cases "- v div 10 = 0")
    case False
    with "1.prems" have "v sdiv 10 < 0" using d(1) by (simp add: pos_imp_zdiv_pos_iff)
    with 1 show ?thesis using d(1) by simp
  qed (use d(1) in simp)
  with "1.prems" show ?case
    by (subst put_digits.simps) (simp add: d(2) put_digits_nonneg)
qed

text \<open>The digits of a positive number, most significant first, are its decimal notation.\<close>

lemma rev_put_digits:
  assumes "0 < v"
  shows "list_all is_digit (rev (put_digits 1 v)) \<and> dval 0 (rev (put_digits 1 v)) = v
     \<and> (\<exists>c s. rev (put_digits 1 v) = c # s \<and> is_digit c \<and> c \<noteq> CHR ''0'')"
  using assms
proof (induction "1::int" v rule: put_digits.induct)
  case (1 v)
  let ?c = "char_of (nat (48 + v mod 10))"
  have m: "0 \<le> v mod 10" "v mod 10 < 10" by simp_all
  note c = digit_char [OF m]
  have eq: "rev (put_digits 1 v) = rev (put_digits 1 (v div 10)) @ [?c]"
    using 1 by (simp add: put_digits_nonneg)
  have sd: "v sdiv 10 = v div 10" using "1.prems" by (simp add: signed_divide_int_def)
  show ?case
  proof (cases "v div 10 = 0")
    case True
    with "1.prems" have "v mod 10 = v" by simp
    then show ?thesis using True c "1.prems" unfolding eq by (simp add: dval_def del: nat_eq_iff)
  next
    case False
    then have "0 < v div 10" using "1.prems" by (simp add: pos_imp_zdiv_pos_iff)
    with 1 sd have IH: "list_all is_digit (rev (put_digits 1 (v div 10)))"
      "dval 0 (rev (put_digits 1 (v div 10))) = v div 10"
      "\<exists>c s. rev (put_digits 1 (v div 10)) = c # s \<and> is_digit c \<and> c \<noteq> CHR ''0''"
      by auto
    from IH c show ?thesis unfolding eq by (auto simp: dval_def)
  qed
qed

lemma length_put_digits: "0 \<le> v \<Longrightarrow> v < 10 ^ k \<Longrightarrow> length (put_digits 1 v) \<le> k"
proof (induction k arbitrary: v)
  case 0
  then have "v = 0" by simp
  then show ?case by simp
next
  case (Suc k)
  show ?case
  proof (cases "v = 0")
    case False
    then have "length (put_digits 1 (v div 10)) \<le> k"
      using Suc by (intro Suc.IH) (auto simp: pos_imp_zdiv_nonneg_iff div_int_pos_iff)
    with False Suc.prems show ?thesis by (simp add: put_digits_nonneg)
  qed simp
qed

section \<open>The in-place reversal\<close>

lemma cxor_cancel [simp]:
  "cxor (cxor a b) b = a" "cxor b (cxor a b) = a" "cxor (cxor a b) a = b"
proof -
  have b: "byte (cxor x y) = xor (byte x) (byte y)" for x y
  proof -
    have "take_bit 8 (xor (byte x) (byte y)) = xor (take_bit 8 (byte x)) (take_bit 8 (byte y))"
      by (rule take_bit_xor)
    then have "take_bit 8 (xor (byte x) (byte y)) = xor (byte x) (byte y)"
      by (simp add: take_bit_nat_eq_self)
    then have "xor (byte x) (byte y) < 2 ^ 8"
      by (rule take_bit_nat_eq_self_iff [THEN iffD1])
    then show ?thesis by (simp add: cxor_def)
  qed
  have x: "xor (xor p q) q = p" "xor q (xor p q) = p" "xor (xor p q) p = q" for p q :: nat
    by (simp_all add: ac_simps) (simp_all flip: xor.assoc)
  show "cxor (cxor a b) b = a" "cxor b (cxor a b) = a" "cxor (cxor a b) a = b"
    unfolding cxor_def [of "cxor a b"] cxor_def [of b "cxor a b"] b x by simp_all
qed

lemma xor_swap_eq:
  "i < j \<Longrightarrow> j < length xs \<Longrightarrow> xor_swap xs i j = xs[i := xs ! j, j := xs ! i]"
  by (simp add: xor_swap_def Let_def list_update_swap)

text \<open>The reversal loop reverses the cells from \<open>beg\<close> up to \<open>cur\<close> and nothing else.\<close>

lemma xor_reverse_mid:
  "xor_reverse (p @ m @ q) (length p) (length p + length m) = p @ rev m @ q"
proof (induction "length m" arbitrary: p m q rule: less_induct)
  case less
  show ?case
  proof (cases "length m > 1")
    case False
    then have "rev m = m" by (cases m rule: remdups_adj.cases) auto
    with False show ?thesis by (simp add: xor_reverse.simps)
  next
    case True
    then obtain x m' y where m: "m = x # m' @ [y]"
      by (metis append_butlast_last_id length_0_conv length_Cons less_numeral_extra(3) list.exhaust
          nat_neq_iff not_less_zero One_nat_def)
    have "xor_swap (p @ m @ q) (length p) (length p + length m - 1) = (p @ [y]) @ m' @ (x # q)"
      by (simp add: m xor_swap_eq nth_append list_update_append)
    then have "xor_reverse (p @ m @ q) (length p) (length p + length m)
        = xor_reverse ((p @ [y]) @ m' @ (x # q)) (length (p @ [y])) (length (p @ [y]) + length m')"
      by (subst xor_reverse.simps) (simp add: m)
    also have "\<dots> = (p @ [y]) @ rev m' @ (x # q)"
      by (rule less) (simp add: m)
    finally show ?thesis by (simp add: m)
  qed
qed

lemma xor_reverse_all: "xor_reverse m 0 (length m) = rev m"
  using xor_reverse_mid [of "[]" m "[]"] by simp

lemma xor_reverse_tail: "xor_reverse (c # m) 1 (length (c # m)) = c # rev m"
  using xor_reverse_mid [of "[c]" m "[]"] by simp

section \<open>What the serializer writes\<close>

text \<open>The reference: the optional sign and the decimal digits without leading zeros.\<close>

definition decimal :: "int \<Rightarrow> string" where
  "decimal v = (if v = 0 then ''0'' else if v < 0 then CHR ''-'' # rev (put_digits 1 (- v))
                else rev (put_digits 1 v))"

lemma serialize_integer_decimal:
  assumes "fits t v"
  shows "serialize_integer t v = decimal v"
proof -
  have lz: "is_less_zero t v \<longleftrightarrow> v < 0" using assms by (auto simp: fits_def is_less_zero_def)
  have z: "xor_reverse ''0'' 0 (Suc 0) = ''0''" using xor_reverse_all [of "''0''"] by simp
  have m: "xor_reverse (c # ds) (Suc 0) (Suc (length ds)) = c # rev ds" for c ds
    using xor_reverse_tail [of c ds] by simp
  show ?thesis
    by (simp add: serialize_integer_def decimal_def lz z m xor_reverse_all put_digits_neg)
qed

lemma decimal_starts:
  "\<exists>c s. decimal v = c # s \<and> (c = CHR ''-'' \<or> is_digit c)"
  using rev_put_digits [of v] by (cases v "0::int" rule: linorder_cases)
    (auto simp: decimal_def is_digit_iff)

lemma unserialize_decimal:
  assumes t: "0 < sizeof t" and "fits t v" and d: "delim rest"
  shows "unserialize_integer t (decimal v @ rest) = Inr (v, rest)"
proof -
  have w0: "wrap t 0 = 0" by (simp add: wrap_def)
  have r: "rest = [] \<or> \<not> is_digit (hd rest)" using d by (cases rest) (auto dest: delim_not_digit)
  have loop: "digits_loop t 0 (rev (put_digits 1 u) @ rest) = (wrap t u, rest)" if "0 < u" for u
    using digits_loop_app [OF t _ r, of "rev (put_digits 1 u)" 0] rev_put_digits [OF that] w0 by simp
  show ?thesis
  proof (cases v "0::int" rule: linorder_cases)
    case less
    with loop [of "- v"] rev_put_digits [of "- v"] show ?thesis
      using wrap_minus [OF t, of "- v"] wrap_fits [OF t assms(2)]
      by (auto simp: unserialize_integer_def decimal_def Let_def)
  next
    case equal
    then show ?thesis by (simp add: unserialize_integer_def decimal_def is_digit_iff)
  next
    case greater
    with loop [of v] rev_put_digits [of v] show ?thesis
      using wrap_fits [OF t assms(2)]
      by (auto simp: unserialize_integer_def decimal_def Let_def is_digit_iff)
  qed
qed

section \<open>The contract\<close>

lemma digits_loop_suffix: "suffix (snd (digits_loop t v s)) s"
  by (induction t v s rule: digits_loop.induct) (auto simp: suffix_Cons)

lemma unserialize_integer_suffix:
  "unserialize_integer t s = Inr (v, r) \<Longrightarrow> suffix r s"
  using digits_loop_suffix [of t 0 s] digits_loop_suffix [of t 0 "tl s"]
  by (auto simp: unserialize_integer_def Let_def suffix_tl split: if_splits prod.splits)

lemma integer_codec_contract:
  assumes "0 < sizeof t"
  shows "json_codec (integer_codec t) (fits t) i"
proof
  fix v s v' r
  assume "unser (integer_codec t) v s = Inr (v', r)"
  then show "suffix r s"
    by (auto simp: integer_codec_def split: if_splits
        dest: unserialize_integer_suffix parse_null_suffix suffix_order.less_imp_le)
next
  fix v s
  show "unser (integer_codec t) v s \<noteq> Inl Fuel_exhausted"
    by (auto simp: integer_codec_def unserialize_integer_def bindE_Inl_iff parse_null_no_fuel Let_def
        split: prod.splits)
next
  fix v :: int and rest
  assume v: "fits t v" and "delim rest"
  then show "unser (integer_codec t) i (ser (integer_codec t) v @ rest) = Inr (v, rest)"
    using decimal_starts [of v] unserialize_decimal [OF assms v]
    by (auto simp: integer_codec_def serialize_integer_decimal is_null_def is_digit_iff)
next
  fix v :: int
  assume "fits t v"
  then show "ser (integer_codec t) v \<noteq> [] \<and> starts_value (hd (ser (integer_codec t) v))"
    using decimal_starts [of v]
    by (auto simp: integer_codec_def serialize_integer_decimal digit_starts_value)
qed

interpretation c_int: json_codec "integer_codec c_int" "fits c_int" 0
  by (rule integer_codec_contract) (simp add: c_int_def)

interpretation c_ll: json_codec "integer_codec c_long_long" "fits c_long_long" 0
  by (rule integer_codec_contract) (simp add: c_long_long_def)

interpretation c_bool: json_codec bool_codec "\<lambda>_. True" False
proof
  fix v s v' r
  assume "unser bool_codec v s = Inr (v', r)"
  then show "suffix r s"
    by (auto simp: bool_codec_def split: if_splits
        dest: parse_null_suffix parse_bool_suffix suffix_order.less_imp_le)
next
  fix v s
  show "unser bool_codec v s \<noteq> Inl Fuel_exhausted"
    by (auto simp: bool_codec_def bindE_Inl_iff token_no_fuel)
qed (auto simp: bool_codec_def is_null_def)

text \<open>
  Every integer a serialized type can hold, its most negative value included, is read
  back from the text the serializer writes, and the characters behind it are untouched.
\<close>

lemma integer_roundtrip:
  assumes "0 < sizeof t" and "fits t v" and "delim rest"
  shows "unser (integer_codec t) x (ser (integer_codec t) v @ rest) = Inr (v, rest)"
  using json_codec.roundtrip [OF integer_codec_contract [OF assms(1)] assms(2,3)]
  by (simp add: integer_codec_def)

text \<open>
  The characters the serializer writes fit into its buffer for every integer type of
  one, two, four or eight bytes, signed or not.
\<close>

lemma serialize_integer_fits_buffer:
  assumes "sizeof t \<in> {1, 2, 4, 8}" and "fits t v"
  shows "length (serialize_integer t v) \<le> integer_buffer_size t"
proof -
  let ?n = "integer_buffer_size t - (if is_signed t then 1 else 0)"
  have n: "1 \<le> ?n" "?n + (if is_signed t then 1 else 0) = integer_buffer_size t"
    using assms(1) by (auto simp: integer_buffer_size_def)
  have "\<bar>v\<bar> < 10 ^ ?n"
    using assms by (auto simp: fits_def bits_of_def integer_buffer_size_def split: if_splits)
  then have "length (put_digits 1 \<bar>v\<bar>) \<le> ?n" by (intro length_put_digits) simp_all
  moreover have "v < 0 \<Longrightarrow> is_signed t" using assms(2) by (auto simp: fits_def split: if_splits)
  ultimately show ?thesis
    using n by (auto simp: serialize_integer_decimal [OF assms(2)] decimal_def)
qed

end
