(* ===== verification/Str_Value.thy ===== *)
theory Str_Value
  imports Json_String Json_Number
begin

text \<open>
  The two serializers the daemon adds to the library: \<open>strvalue<std::string>\<close> of
  \<open>src/strvalue.hpp\<close>, the type of every value it stores, and \<open>serializerQuoted\<close> of
  \<open>common/aj_int_quoted.hpp\<close>.

  A \<open>strvalue\<close> is written like a string, but without escapes for control characters. It is
  read from a quoted string or from bare characters up to a blank, a comma or a closing
  bracket. Its helper functions take the limit \<open>n\<close> by value, so only the escapes of the
  loop itself count.
\<close>

section \<open>strvalue\<close>

definition strvalue_escape :: "char \<Rightarrow> string" where
  "strvalue_escape c =
     (if c = DQ \<or> c = BSL \<or> c = CHR ''/'' then [BSL, c]
      else if c = TAB then [BSL, CHR ''t'']
      else if c = BS then [BSL, CHR ''b'']
      else if c = CR then [BSL, CHR ''r'']
      else if c = LF then [BSL, CHR ''n'']
      else if c = FF then [BSL, CHR ''f'']
      else [c])"

definition strvalue_serialize :: "string \<Rightarrow> string" where
  "strvalue_serialize s = DQ # serialize_chars strvalue_escape s @ [DQ]"

text \<open>One step of the quoted loop; \<open>n\<close> changes only in the simple escapes.\<close>

definition strvalue_step :: "string \<Rightarrow> int \<Rightarrow> (string \<times> string \<times> int) res" where
  "strvalue_step s n =
     (if hd s = BSL
      then bindE (unserialize_escape (tl s) n) (\<lambda>(out, r, m).
             Inr (out, r, if hd (tl s) = CHR ''u'' then n else m))
      else bindE (unserialize_symbol s n) (\<lambda>(out, r, m). Inr (out, r, n)))"

lemma strvalue_step_shrinks:
  "strvalue_step s n = Inr (out, r, m) \<Longrightarrow> s \<noteq> [] \<Longrightarrow> n \<noteq> 0 \<Longrightarrow> length r < length s"
  by (auto simp: strvalue_step_def split: if_splits dest!: string_step_shrinks
      simp: neq_Nil_conv)

function strvalue_loop :: "string \<Rightarrow> int \<Rightarrow> (string \<times> string) res" where
  "strvalue_loop s n =
     (if s \<noteq> [] \<and> hd s \<noteq> DQ \<and> n \<noteq> 0
      then bindE (strvalue_step s n) (\<lambda>(out, r, m).
             bindE (strvalue_loop r m) (\<lambda>(out', r'). Inr (out @ out', r')))
      else Inr ([], s))"
  by pat_completeness auto
termination
  by (relation "measure (\<lambda>(s, n). length s)") (auto dest: strvalue_step_shrinks)

declare strvalue_loop.simps [simp del]

text \<open>The loop over bare characters.\<close>

definition bare_stop :: "char \<Rightarrow> bool" where
  "bare_stop c \<longleftrightarrow> c \<in> set ''} ],''"

function bare_loop :: "string \<Rightarrow> int \<Rightarrow> (string \<times> string) res" where
  "bare_loop s n =
     (if s \<noteq> [] \<and> \<not> bare_stop (hd s) \<and> n \<noteq> 0
      then bindE (unserialize_symbol s n) (\<lambda>(out, r, m).
             bindE (bare_loop r n) (\<lambda>(out', r'). Inr (out @ out', r')))
      else Inr ([], s))"
  by pat_completeness auto
termination
  by (relation "measure (\<lambda>(s, n). length s)") (auto dest!: string_step_shrinks)

declare bare_loop.simps [simp del]

definition strvalue_unserialize :: "string \<Rightarrow> int \<Rightarrow> (string \<times> string) res" where
  "strvalue_unserialize s n =
     (if s = [] then throw Unexpected_end_fragment 0
      else if hd s = DQ
      then bindE (strvalue_loop (tl s) n) (\<lambda>(out, r).
             if r = [] then throw Unexpected_end_fragment 0
             else if hd r \<noteq> DQ then throw (Expected_of [DQ]) 0
             else Inr (out, tl r))
      else bindE (bare_loop s n) (\<lambda>(out, r).
             if r = [] then throw Unexpected_end_fragment 0 else Inr (out, r)))"

definition strvalue_codec :: "string codec" where
  "strvalue_codec =
     \<lparr>ser = strvalue_serialize,
      unser = (\<lambda>v s. if is_null s then bindE (parse_null s) (\<lambda>r. Inr ([], r))
                     else strvalue_unserialize s (-1))\<rparr>"

section \<open>The two quoted readers agree\<close>

text \<open>
  Without a limit the characters read do not depend on \<open>n\<close>, so passing it by value makes no
  difference.
\<close>

definition no_count :: "(string \<times> string \<times> int) res \<Rightarrow> (string \<times> string) res" where
  "no_count x = bindE x (\<lambda>(out, r, n). Inr (out, r))"

lemma no_count_simps [simp]: "no_count (Inr (out, r, n)) = Inr (out, r)" "no_count (Inl e) = Inl e"
  by (simp_all add: no_count_def)

definition same_text :: "(string \<times> string \<times> int) res \<Rightarrow> (string \<times> string \<times> int) res \<Rightarrow> bool" where
  "same_text x y \<longleftrightarrow> (\<exists>e. x = Inl e \<and> y = Inl e) \<or>
     (\<exists>out r n m. x = Inr (out, r, n) \<and> y = Inr (out, r, m) \<and> n < 0 \<and> m < 0)"

lemma same_text_simps [simp]:
  "same_text (Inl e) (Inl e)"
  "same_text (Inr (out, r, n)) (Inr (out, r, m)) \<longleftrightarrow> n < 0 \<and> m < 0"
  by (auto simp: same_text_def)

lemma same_text_cases:
  assumes "same_text x y"
  obtains (error) e where "x = Inl e" "y = Inl e"
    | (chars) out r n m where "x = Inr (out, r, n)" "y = Inr (out, r, m)" "n < 0" "m < 0"
  using assms by (auto simp: same_text_def)

lemma same_text_bind:
  assumes "same_text x y"
    and "\<And>out r n m. n < 0 \<Longrightarrow> m < 0 \<Longrightarrow> same_text (f (out, r, n)) (g (out, r, m))"
  shows "same_text (bindE x f) (bindE y g)"
  using assms(1) by (cases rule: same_text_cases) (simp_all add: assms(2))

lemma symbol_copy_same:
  "n < 0 \<Longrightarrow> m < 0 \<Longrightarrow> same_text (symbol_copy k s n) (symbol_copy k s m)"
proof (induction k arbitrary: s n m)
  case (Suc k)
  then show ?case by (cases s) (auto intro: same_text_bind)
qed simp

lemma unserialize_symbol_same:
  "n < 0 \<Longrightarrow> m < 0 \<Longrightarrow> same_text (unserialize_symbol s n) (unserialize_symbol s m)"
  by (cases s) (simp_all add: unserialize_symbol_def symbol_copy_same)

lemma unserialize_uhex_same:
  "n < 0 \<Longrightarrow> m < 0 \<Longrightarrow> same_text (unserialize_uhex s n) (unserialize_uhex s m)"
  by (cases "read_hex 4 0 s") (auto simp: unserialize_uhex_def)

lemma unserialize_escape_same:
  "n < 0 \<Longrightarrow> m < 0 \<Longrightarrow> same_text (unserialize_escape s n) (unserialize_escape s m)"
  by (cases s) (simp_all add: unserialize_escape_def unserialize_uhex_same)

lemma strvalue_step_same:
  assumes "n < 0" and "m < 0"
  shows "same_text (strvalue_step s n) (read_step s m)"
  using unserialize_symbol_same [OF assms, of s] unserialize_escape_same [OF assms, of "tl s"]
  by (auto simp: strvalue_step_def read_step_def assms elim: same_text_cases)

lemma strvalue_loop_eq:
  "n < 0 \<Longrightarrow> m < 0 \<Longrightarrow> strvalue_loop s n = no_count (unserialize_loop s m)"
proof (induction s arbitrary: n m rule: measure_induct_rule [of length])
  case (less s)
  show ?case
  proof (cases "s \<noteq> [] \<and> hd s \<noteq> DQ")
    case True
    from strvalue_step_same [OF less.prems, of s] show ?thesis
    proof (cases rule: same_text_cases)
      case (error e)
      then show ?thesis using True less.prems
        by (subst strvalue_loop.simps, subst unserialize_loop.simps) (auto simp: read_step_def)
    next
      case (chars out r k l)
      have "length r < length s" using strvalue_step_shrinks [OF chars(1)] True less.prems by simp
      with chars(3,4) have "strvalue_loop r k = no_count (unserialize_loop r l)"
        using less.IH by blast
      then show ?thesis using True less.prems chars
        by (subst strvalue_loop.simps, subst unserialize_loop_step [OF _ _ _ chars(2)])
           (auto simp: no_count_def bindE_def split: sum.splits prod.splits)
    qed
  next
    case False
    then show ?thesis by (subst strvalue_loop.simps, subst unserialize_loop.simps) auto
  qed
qed

lemma strvalue_quoted:
  "strvalue_unserialize (DQ # s) (-1) = unserialize_string (DQ # s) (-1)"
proof -
  have "strvalue_loop s (-1) = no_count (unserialize_loop s (-1))" by (rule strvalue_loop_eq) simp_all
  then show ?thesis
    by (auto simp: strvalue_unserialize_def unserialize_string_def no_count_def bindE_def
        split: sum.splits prod.splits)
qed


section \<open>The contract\<close>

interpretation str_escape: string_escape strvalue_escape
proof
  fix c :: char and n :: int and t
  assume c: "byte c < 128" "c \<noteq> NUL" and "n \<noteq> 0"
  show "read_step (strvalue_escape c @ t) n = Inr ([c], t, n - 1)"
  proof (cases "c \<in> set [DQ, BSL, CHR ''/'', TAB, BS, CR, LF, FF]")
    case True
    then show ?thesis by (auto simp: strvalue_escape_def read_step_escape unserialize_escape_def)
  next
    case False
    then show ?thesis using c by (auto simp: strvalue_escape_def read_step_plain)
  qed
next
  fix c :: char
  show "strvalue_escape c \<noteq> [] \<and> hd (strvalue_escape c) \<noteq> DQ" by (simp add: strvalue_escape_def)
  assume "128 \<le> byte c"
  then have "c \<notin> set [DQ, BSL, CHR ''/'', TAB, BS, CR, LF, FF]" by auto
  then show "strvalue_escape c = [c]" by (simp add: strvalue_escape_def)
qed

lemma bare_loop_suffix: "bare_loop s n = Inr (out, r) \<Longrightarrow> suffix r s"
proof (induction s arbitrary: out rule: measure_induct_rule [of length])
  case (less s)
  show ?case
  proof (cases "s \<noteq> [] \<and> \<not> bare_stop (hd s) \<and> n \<noteq> 0")
    case True
    with less.prems obtain o1 t k o2 where step: "unserialize_symbol s n = Inr (o1, t, k)"
      and loop: "bare_loop t n = Inr (o2, r)"
      by (subst (asm) bare_loop.simps) (auto split: prod.splits)
    have t: "strict_suffix t s" using unserialize_symbol_suffix [OF step] True by simp
    have "suffix r t" by (rule less.IH [OF suffix_length_less [OF t] loop])
    with t show ?thesis by (meson suffix_trans_rules)
  qed (use less.prems in \<open>subst (asm) bare_loop.simps, auto\<close>)
qed

lemma strvalue_loop_suffix: "strvalue_loop s n = Inr (out, r) \<Longrightarrow> n < 0 \<Longrightarrow> suffix r s"
  using strvalue_loop_eq [of n n s] unserialize_loop_suffix [of s n]
  by (auto simp: no_count_def)

lemma strvalue_unserialize_suffix: "strvalue_unserialize s (-1) = Inr (out, r) \<Longrightarrow> suffix r s"
  by (auto simp: strvalue_unserialize_def split: if_splits
      dest!: strvalue_loop_suffix bare_loop_suffix intro: suffix_tlI suffix_tl_left)

lemma bare_loop_total: "bare_loop s n \<noteq> Inl Fuel_exhausted"
proof (induction s n rule: bare_loop.induct)
  case (1 s n)
  have "bare_loop r n \<noteq> Inl Fuel_exhausted"
    if "s \<noteq> [] \<and> \<not> bare_stop (hd s) \<and> n \<noteq> 0" "unserialize_symbol s n = Inr (out, r, m)" for out r m
    by (rule 1 [OF that refl refl])
  then show ?case
    by (subst bare_loop.simps) (auto simp: bindE_Inl_iff unserialize_symbol_total)
qed

lemma strvalue_unserialize_total: "strvalue_unserialize s (-1) \<noteq> Inl Fuel_exhausted"
proof (cases "s \<noteq> [] \<and> hd s = DQ")
  case True
  then show ?thesis
    using strvalue_quoted [of "tl s"] unserialize_string_total [of s] by (cases s) auto
qed (auto simp: strvalue_unserialize_def bindE_Inl_iff bare_loop_total split: if_splits)

interpretation strv: json_codec strvalue_codec text_ok "[]"
proof
  fix v s v' r
  assume "unser strvalue_codec v s = Inr (v', r)"
  then show "suffix r s"
    by (auto simp: strvalue_codec_def split: if_splits
        dest: parse_null_suffix strvalue_unserialize_suffix suffix_order.less_imp_le)
next
  fix v s
  show "unser strvalue_codec v s \<noteq> Inl Fuel_exhausted"
    by (simp add: strvalue_codec_def bindE_Inl_iff parse_null_no_fuel strvalue_unserialize_total)
next
  fix v rest
  assume v: "text_ok v"
  then show "unser strvalue_codec [] (ser strvalue_codec v @ rest) = Inr (v, rest)"
    by (simp add: strvalue_codec_def strvalue_serialize_def text_ok_def strvalue_quoted
        str_escape.quoted_roundtrip)
qed (simp add: strvalue_codec_def strvalue_serialize_def)

section \<open>Quoted values\<close>

definition quoted_codec :: "'a codec \<Rightarrow> 'a codec" where
  "quoted_codec J =
     \<lparr>ser = (\<lambda>v. DQ # ser J v @ [DQ]),
      unser = (\<lambda>v s.
        if is_null s then bindE (parse_null s) (\<lambda>r. Inr (v, r))
        else if s = [] then throw Unexpected_end_fragment 0
        else if hd s \<noteq> DQ then throw Unexpected_end_fragment 0
        else bindE (unser J v (tl s)) (\<lambda>(w, r).
          if r = [] then throw Unexpected_end_fragment 0
          else if hd r \<noteq> DQ then throw Unexpected_end_fragment 0
          else Inr (w, tl r)))\<rparr>"

context json_codec
begin

lemma quoted: "json_codec (quoted_codec J) ok init"
proof
  fix v s v' r
  assume "unser (quoted_codec J) v s = Inr (v', r)"
  then show "suffix r s"
    by (auto simp: quoted_codec_def split: if_splits dest!: unser_suffix
        dest: parse_null_suffix suffix_order.less_imp_le intro: suffix_tlI suffix_tl_left)
next
  fix v s
  show "unser (quoted_codec J) v s \<noteq> Inl Fuel_exhausted"
    by (auto simp: quoted_codec_def bindE_Inl_iff parse_null_no_fuel unser_total)
qed (simp_all add: quoted_codec_def roundtrip)

end

interpretation quoted_int: json_codec "quoted_codec (integer_codec c_int)" "fits c_int" 0
  by (rule c_int.quoted)

end
