(* ===== verification/Json_Array.thy ===== *)
theory Json_Array
  imports Str_Value "HOL-Library.Multiset"
begin

text \<open>
  Pairs and containers: \<open>serializerT< pair<K, V> >\<close> and \<open>serializerA\<close> of
  \<open>fas/misc/json/json_array.hpp\<close>, the inserters that \<open>array_base\<close> (\<open>fas/misc/json.hpp\<close>)
  gives it, and \<open>paired_array\<close> of \<open>src/aj_pairvector.hpp\<close>.

  \<open>serializerA\<close> reads a list of elements between \<open>L\<close> and \<open>R\<close>, each into a fresh target \<open>i\<close>,
  and hands them to the container's insert iterator: a vector appends them, a
  \<open>paired_array\<close> (a vector of pairs written as an object) puts them in front, an
  \<open>unordered_map\<close> keeps the first value of each key. The order in which an
  \<open>unordered_map\<close> is iterated is not specified by the standard: it is the parameter
  \<open>iter\<close>, a permutation.
\<close>

section \<open>Pairs\<close>

definition pair_codec :: "'k codec \<Rightarrow> 'v codec \<Rightarrow> ('k \<times> 'v) codec" where
  "pair_codec K V =
     \<lparr>ser = (\<lambda>(k, v). ser K k @ CHR '':'' # ser V v),
      unser = (\<lambda>(k0, v0) s. bindE (unser K k0 s) (\<lambda>(k, r).
        let r = parse_space r in
        if r = [] then throw Unexpected_end_fragment 0
        else if hd r \<noteq> CHR '':'' then throw (Expected_of '':'') (length r)
        else let r = parse_space (tl r) in
        if r = [] then throw Unexpected_end_fragment 0
        else bindE (unser V v0 r) (\<lambda>(v, r'). Inr ((k, v), r'))))\<rparr>"

section \<open>Sequences\<close>

fun join :: "string list \<Rightarrow> string" where
  "join [] = []"
| "join [s] = s"
| "join (s # ss) = s @ CHR '','' # join ss"

text \<open>
  The loop over the elements. Every round but the last consumes a comma, so one unit of
  fuel for each character is enough.
\<close>

fun elements :: "nat \<Rightarrow> 'a codec \<Rightarrow> 'a \<Rightarrow> char \<Rightarrow> string \<Rightarrow> ('a list \<times> string) res" where
  "elements 0 J i R s = Inl Fuel_exhausted"
| "elements (Suc n) J i R s =
     (if s = [] then Inr ([], s)
      else let s = parse_space s in
      if s = [] then throw Unexpected_end_fragment 0
      else if hd s = R then Inr ([], s)
      else bindE (unser J i s) (\<lambda>(x, r).
        let r = parse_space r in
        if r = [] then throw Unexpected_end_fragment 0
        else if hd r = R then Inr ([x], r)
        else if hd r \<noteq> CHR '','' then throw (Expected_of '','') (length r)
        else bindE (elements n J i R (tl r)) (\<lambda>(xs, t). Inr (x # xs, t))))"

definition read_elements ::
  "'a codec \<Rightarrow> 'a \<Rightarrow> char \<Rightarrow> char \<Rightarrow> string \<Rightarrow> ('a list \<times> string) res" where
  "read_elements J i L R s =
     (if s = [] then throw Unexpected_end_fragment 0
      else if hd s \<noteq> L then throw (Expected_of [L]) (length s)
      else bindE (elements (length s) J i R (tl s)) (\<lambda>(xs, r).
        if r = [] then throw Unexpected_end_fragment 0
        else if hd r \<noteq> R then throw (Expected_of [R]) (length r)
        else Inr (xs, tl r)))"

definition write_elements :: "'a codec \<Rightarrow> char \<Rightarrow> char \<Rightarrow> 'a list \<Rightarrow> string" where
  "write_elements J L R xs = L # join (map (ser J) xs) @ [R]"

text \<open>\<open>serializerA\<close> for a container given by its iteration order and its inserter.\<close>

definition array_codec ::
  "'a codec \<Rightarrow> 'a \<Rightarrow> char \<Rightarrow> char \<Rightarrow> ('c \<Rightarrow> 'a list) \<Rightarrow> ('c \<Rightarrow> 'a list \<Rightarrow> 'c) \<Rightarrow> 'c \<Rightarrow> 'c codec" where
  "array_codec J i L R iter add_all emp =
     \<lparr>ser = (\<lambda>c. write_elements J L R (iter c)),
      unser = (\<lambda>c s. if is_null s then bindE (parse_null s) (\<lambda>r. Inr (emp, r))
                     else bindE (read_elements J i L R s) (\<lambda>(xs, r). Inr (add_all c xs, r)))\<rparr>"

definition vector_codec :: "'a codec \<Rightarrow> 'a \<Rightarrow> 'a list codec" where
  "vector_codec J i = array_codec J i (CHR ''['') (CHR '']'') id (@) []"

text \<open>
  \<open>paired_array\<close>: before the common code it looks whether the input is \<open>[]\<close>, without
  testing for the end of the input; the insert iterator starts at \<open>begin()\<close>.
\<close>

definition paired_base :: "'k codec \<Rightarrow> 'v codec \<Rightarrow> 'k \<Rightarrow> 'v \<Rightarrow> ('k \<times> 'v) list codec" where
  "paired_base K V k0 v0 =
     array_codec (pair_codec K V) (k0, v0) (CHR ''{'') (CHR ''}'') id (\<lambda>old new. new @ old) []"

definition paired_codec :: "'k codec \<Rightarrow> 'v codec \<Rightarrow> 'k \<Rightarrow> 'v \<Rightarrow> ('k \<times> 'v) list codec" where
  "paired_codec K V k0 v0 =
     \<lparr>ser = ser (paired_base K V k0 v0),
      unser = (\<lambda>t s.
        if s = [] then Inl Out_of_bounds
        else if hd s = CHR ''['' \<and> tl s = [] then Inl Out_of_bounds
        else if hd s = CHR ''['' \<and> hd (tl s) = CHR '']'' then Inr ([], tl (tl s))
        else unser (paired_base K V k0 v0) t s)\<rparr>"

text \<open>\<open>unordered_map::insert\<close> leaves an existing key alone.\<close>

definition map_insert :: "('k \<times> 'v) list \<Rightarrow> 'k \<times> 'v \<Rightarrow> ('k \<times> 'v) list" where
  "map_insert m e = (if map_of m (fst e) = None then m @ [e] else m)"

definition map_codec ::
  "(('k \<times> 'v) list \<Rightarrow> ('k \<times> 'v) list) \<Rightarrow> 'k codec \<Rightarrow> 'v codec \<Rightarrow> 'k \<Rightarrow> 'v \<Rightarrow> ('k \<times> 'v) list codec" where
  "map_codec iter K V k0 v0 =
     array_codec (pair_codec K V) (k0, v0) (CHR ''{'') (CHR ''}'') iter (foldl map_insert) []"

section \<open>Fixed arrays\<close>

text \<open>The specialisation for \<open>J[N]\<close> stops reading elements when its \<open>N\<close> cells are full.\<close>

fun elements_n :: "nat \<Rightarrow> 'a codec \<Rightarrow> 'a \<Rightarrow> char \<Rightarrow> string \<Rightarrow> ('a list \<times> string) res" where
  "elements_n 0 J i R s = Inr ([], s)"
| "elements_n (Suc n) J i R s =
     (if s = [] then Inr ([], s)
      else let s = parse_space s in
      if s = [] then throw Unexpected_end_fragment 0
      else if hd s = R then Inr ([], s)
      else bindE (unser J i s) (\<lambda>(x, r).
        let r = parse_space r in
        if r = [] then throw Unexpected_end_fragment 0
        else if hd r = R then Inr ([x], r)
        else if hd r \<noteq> CHR '','' then throw (Expected_of '','') (length r)
        else bindE (elements_n n J i R (tl r)) (\<lambda>(xs, t). Inr (x # xs, t))))"

definition fixed_codec :: "nat \<Rightarrow> 'a codec \<Rightarrow> 'a \<Rightarrow> char \<Rightarrow> char \<Rightarrow> 'a list codec" where
  "fixed_codec N J i L R =
     \<lparr>ser = (\<lambda>v. write_elements J L R (take N v)),
      unser = (\<lambda>v s. if is_null s then bindE (parse_null s) (\<lambda>r. Inr (replicate N i, r))
        else if s = [] then throw Unexpected_end_fragment 0
        else if hd s \<noteq> L then throw (Expected_of [L]) (length s)
        else bindE (elements_n N J i R (tl s)) (\<lambda>(xs, r).
          if r = [] then throw Unexpected_end_fragment 0
          else if hd r \<noteq> R then throw (Expected_of [R]) (length r)
          else Inr (xs @ drop (length xs) v, tl r)))\<rparr>"

section \<open>Contracts\<close>

text \<open>
  What the element serializers promise is all the containers need: a container of readers is
  a reader, a container of contracts a contract.
\<close>

definition closes :: "char \<Rightarrow> bool" where
  "closes R \<longleftrightarrow> R \<in> set ''}]''"

lemma closes_simps:
  "closes R \<Longrightarrow> delim (R # s)" "closes R \<Longrightarrow> \<not> starts_value R"
  "closes R \<Longrightarrow> parse_space (R # s) = R # s" "closes R \<Longrightarrow> R \<noteq> CHR '',''"
  by (auto simp: closes_def starts_value_def is_space_def)

lemma parse_space_punct [simp]:
  "parse_space (CHR '':'' # s) = CHR '':'' # s" "parse_space (CHR '','' # s) = CHR '','' # s"
  by (simp_all add: is_space_def)

context json_reader
begin

lemma elements_suffix: "elements n J i R s = Inr (xs, r) \<Longrightarrow> suffix r s"
proof (induction n arbitrary: s xs)
  case (Suc n)
  show ?case
  proof (cases "s = []")
    case False
    let ?s = "parse_space s"
    have s: "suffix ?s s" by (rule parse_space_suffix)
    from Suc.prems False show ?thesis
    proof (cases "hd ?s = R")
      case F: False
      with Suc.prems False obtain x t where x: "unser J i ?s = Inr (x, t)"
        and r: "r = parse_space t \<or> (\<exists>ys. elements n J i R (tl (parse_space t)) = Inr (ys, r))"
        by (auto simp: Let_def split: if_splits)
      have t: "suffix (parse_space t) s"
        using s unser_suffix [OF x] parse_space_suffix [of t] by (meson suffix_order.trans)
      with r Suc.IH show ?thesis by (meson suffix_order.trans suffix_tl)
    qed (auto simp: Let_def parse_space_suffix split: if_splits)
  qed (use Suc.prems in auto)
qed simp

lemma elements_total: "length s < n \<Longrightarrow> elements n J i R s \<noteq> Inl Fuel_exhausted"
proof (induction n arbitrary: s)
  case (Suc n)
  have "elements n J i R (tl (parse_space t)) \<noteq> Inl Fuel_exhausted"
    if "unser J i (parse_space s) = Inr (x, t)" and "parse_space t \<noteq> []" for x t
  proof (rule Suc.IH)
    have "length (parse_space t) \<le> length s"
      using unser_length [OF that(1)] parse_space_shrinks [of t] parse_space_shrinks [of s] by linarith
    then show "length (tl (parse_space t)) < n" using that(2) Suc.prems by (cases "parse_space t") auto
  qed
  then show ?case by (auto simp: Let_def bindE_Inl_iff unser_total)
qed simp

lemma read_elements_suffix: "read_elements J i L R s = Inr (xs, r) \<Longrightarrow> suffix r s"
  by (auto simp: read_elements_def split: if_splits dest!: elements_suffix
      intro: suffix_tl_left)

lemma read_elements_total: "read_elements J i L R s \<noteq> Inl Fuel_exhausted"
  using elements_total [of "tl s" "length s"]
  by (cases s) (auto simp: read_elements_def bindE_Inl_iff)

lemma array_reader: "json_reader (array_codec J i L R iter add_all emp)"
proof
  fix v s v' r
  assume "unser (array_codec J i L R iter add_all emp) v s = Inr (v', r)"
  then show "suffix r s"
    by (auto simp: array_codec_def split: if_splits dest: read_elements_suffix
        parse_null_suffix suffix_order.less_imp_le)
next
  fix v s
  show "unser (array_codec J i L R iter add_all emp) v s \<noteq> Inl Fuel_exhausted"
    by (auto simp: array_codec_def bindE_Inl_iff parse_null_no_fuel read_elements_total)
qed

text \<open>A fixed array keeps its size.\<close>

lemma elements_n_length: "elements_n n J i R s = Inr (xs, r) \<Longrightarrow> length xs \<le> n"
  by (induction n arbitrary: s xs) (auto simp: Let_def split: if_splits)

lemma fixed_length:
  "unser (fixed_codec N J i L R) v s = Inr (v', r) \<Longrightarrow> length v = N \<Longrightarrow> length v' = N"
  by (auto simp: fixed_codec_def split: if_splits dest!: elements_n_length)

end

context json_codec
begin

lemma parse_space_element [simp]: "ok x \<Longrightarrow> parse_space (ser J x @ t) = ser J x @ t"
  by (rule parse_space_ser)

lemma elements_roundtrip:
  "closes R \<Longrightarrow> list_all ok xs \<Longrightarrow> length xs < n \<Longrightarrow>
     elements n J init R (join (map (ser J) xs) @ R # rest) = Inr (xs, R # rest)"
proof (induction xs arbitrary: n rule: induct_list012)
  case 1
  then show ?case by (cases n) (simp_all add: closes_simps)
next
  case (2 x)
  have "hd (ser J x @ R # rest) \<noteq> R"
    using 2 ser_start [of x] closes_simps(2) [of R] by auto
  with 2 show ?case
    using ser_start [of x] by (cases n) (simp_all add: closes_simps roundtrip)
next
  case (3 x y ys)
  then obtain m where n: "n = Suc m" by (cases n) auto
  let ?t = "join (map (ser J) (y # ys)) @ R # rest"
  have "elements m J init R ?t = Inr (y # ys, R # rest)" using 3 n by simp
  moreover have "hd (ser J x @ CHR '','' # ?t) \<noteq> R"
    using 3 ser_start [of x] closes_simps(2) [of R] by auto
  moreover have "R \<noteq> CHR '',''" using 3 by (simp add: closes_simps)
  ultimately show ?case using 3 n ser_start [of x] by (simp add: roundtrip)
qed

lemma length_join: "list_all ok xs \<Longrightarrow> length xs \<le> length (join (map (ser J) xs))"
proof (induction xs rule: induct_list012)
  case (2 x)
  then show ?case using ser_start [of x] by (cases "ser J x") auto
qed simp_all

lemma read_write_elements:
  assumes "closes R" and "list_all ok xs"
  shows "read_elements J init L R (write_elements J L R xs @ rest) = Inr (xs, rest)"
proof -
  have "elements (length (write_elements J L R xs @ rest)) J init R
      (join (map (ser J) xs) @ R # rest) = Inr (xs, R # rest)"
    using length_join [OF assms(2)] by (intro elements_roundtrip assms) (simp add: write_elements_def)
  then show ?thesis
    by (simp add: read_elements_def write_elements_def del: elements.simps)
qed

text \<open>Vectors.\<close>

lemma array_contract:
  assumes "closes R" and "L \<noteq> CHR ''n''" and "starts_value L"
    and "\<And>c. okc c \<Longrightarrow> list_all ok (iter c) \<and> add_all emp (iter c) = c"
  shows "json_codec (array_codec J init L R iter add_all emp) okc emp"
proof (intro json_codec.intro array_reader json_codec_axioms.intro)
  fix c rest
  assume "okc c"
  with assms show "unser (array_codec J init L R iter add_all emp) emp
      (ser (array_codec J init L R iter add_all emp) c @ rest) = Inr (c, rest)"
    using read_write_elements [of R "iter c" L rest]
    by (simp add: array_codec_def is_null_def write_elements_def)
qed (use assms(3) in \<open>simp_all add: array_codec_def write_elements_def\<close>)

lemma vector_contract: "json_codec (vector_codec J init) (list_all ok) []"
  unfolding vector_codec_def by (rule array_contract) (auto simp: closes_def)

end

text \<open>Pairs.\<close>

locale pair_codecs = k: json_codec K okk k0 + v: json_codec V okv v0
  for K :: "'k codec" and okk k0 and V :: "'v codec" and okv v0
begin

abbreviation pair_ok :: "'k \<times> 'v \<Rightarrow> bool" where
  "pair_ok e \<equiv> okk (fst e) \<and> okv (snd e)"

lemma pair_suffix:
  assumes "unser (pair_codec K V) e s = Inr (e', r)"
  shows "suffix r s"
proof -
  obtain k t t2 v where k: "unser K (fst e) s = Inr (k, t)" and t2: "t2 = parse_space (tl (parse_space t))"
    and v: "unser V (snd e) t2 = Inr (v, r)"
    using assms by (auto simp: pair_codec_def Let_def split: if_splits prod.splits)
  have "suffix t2 t" unfolding t2 using parse_space_suffix by (meson suffix_order.trans suffix_tl)
  with k.unser_suffix [OF k] v.unser_suffix [OF v] show ?thesis by (meson suffix_order.trans)
qed

lemma pair_contract: "json_codec (pair_codec K V) pair_ok (k0, v0)"
proof
  fix e s e' r
  assume "unser (pair_codec K V) e s = Inr (e', r)"
  then show "suffix r s" by (rule pair_suffix)
next
  fix e s
  show "unser (pair_codec K V) e s \<noteq> Inl Fuel_exhausted"
    by (auto simp: pair_codec_def Let_def bindE_Inl_iff k.unser_total v.unser_total
        split: prod.splits if_splits)
next
  fix e rest
  assume "pair_ok e" and "delim rest"
  then show "unser (pair_codec K V) (k0, v0) (ser (pair_codec K V) e @ rest) = Inr (e, rest)"
    using v.ser_start [of "snd e"]
    by (simp add: pair_codec_def case_prod_beta k.roundtrip v.roundtrip)
next
  fix e
  assume "pair_ok e"
  then show "ser (pair_codec K V) e \<noteq> [] \<and> starts_value (hd (ser (pair_codec K V) e))"
    using k.ser_start [of "fst e"] by (simp add: pair_codec_def case_prod_beta)
qed

end

sublocale pair_codecs \<subseteq> p: json_codec "pair_codec K V" pair_ok "(k0, v0)"
  by (rule pair_contract)

context pair_codecs
begin

lemma paired_base_contract: "json_codec (paired_base K V k0 v0) (list_all pair_ok) []"
  unfolding paired_base_def by (rule p.array_contract) (auto simp: closes_def)

lemma paired_suffix: "unser (paired_codec K V k0 v0) t s = Inr (t', r) \<Longrightarrow> suffix r s"
  using json_reader.unser_suffix [OF json_codec.axioms(1) [OF paired_base_contract]]
  by (auto simp: paired_codec_def split: if_splits intro: suffix_tl_left)

text \<open>The daemon's list of pairs.\<close>

lemma paired_contract: "json_codec (paired_codec K V k0 v0) (list_all pair_ok) []"
proof
  fix t s t' r
  assume "unser (paired_codec K V k0 v0) t s = Inr (t', r)"
  then show "suffix r s" by (rule paired_suffix)
next
  fix t s
  show "unser (paired_codec K V k0 v0) t s \<noteq> Inl Fuel_exhausted"
    using json_reader.unser_total [OF json_codec.axioms(1) [OF paired_base_contract]]
    by (auto simp: paired_codec_def)
next
  fix t rest
  assume "list_all pair_ok t" and "delim rest"
  then show "unser (paired_codec K V k0 v0) [] (ser (paired_codec K V k0 v0) t @ rest) = Inr (t, rest)"
    using json_codec.roundtrip [OF paired_base_contract]
    by (simp add: paired_codec_def paired_base_def array_codec_def write_elements_def)
qed (simp_all add: paired_codec_def paired_base_def array_codec_def write_elements_def)

text \<open>A map: the same entries come back, whatever the order of iteration.\<close>

lemma map_reader: "json_reader (map_codec iter K V k0 v0)"
  unfolding map_codec_def by (rule p.array_reader)

lemma foldl_map_insert:
  "distinct (map fst xs) \<Longrightarrow> set (map fst m) \<inter> set (map fst xs) = {} \<Longrightarrow>
     foldl map_insert m xs = m @ xs"
  by (induction xs arbitrary: m) (auto simp: map_insert_def map_of_eq_None_iff)

lemma map_roundtrip:
  assumes "distinct (map fst m)" and "mset (iter m) = mset m" and "list_all pair_ok m"
  shows "unser (map_codec iter K V k0 v0) [] (ser (map_codec iter K V k0 v0) m @ rest) =
           Inr (iter m, rest) \<and> map_of (iter m) = map_of m"
proof -
  have set: "set (iter m) = set m" by (rule mset_eq_setD [OF assms(2)])
  have "mset (map fst (iter m)) = mset (map fst m)" by (simp add: assms(2))
  with assms(1) have d: "distinct (map fst (iter m))" by (metis mset_eq_imp_distinct_iff)
  have "read_elements (pair_codec K V) (k0, v0) (CHR ''{'') (CHR ''}'')
      (write_elements (pair_codec K V) (CHR ''{'') (CHR ''}'') (iter m) @ rest) = Inr (iter m, rest)"
    by (rule p.read_write_elements) (use assms(3) set in \<open>auto simp: list_all_iff closes_def\<close>)
  moreover have "foldl map_insert [] (iter m) = iter m" using d by (simp add: foldl_map_insert)
  moreover have "map_of (iter m) = map_of m"
    by (rule map_of_inject_set [THEN iffD2]) (simp_all add: d assms(1) set)
  ultimately show ?thesis
    by (simp add: map_codec_def array_codec_def write_elements_def is_null_def)
qed

text \<open>A map listed in its own order of iteration comes back as it is.\<close>

lemma map_contract:
  "json_codec (map_codec iter K V k0 v0)
     (\<lambda>m. iter m = m \<and> distinct (map fst m) \<and> list_all pair_ok m) []"
proof (intro json_codec.intro map_reader json_codec_axioms.intro)
  fix m and rest :: string
  assume "iter m = m \<and> distinct (map fst m) \<and> list_all pair_ok m"
  then show "unser (map_codec iter K V k0 v0) [] (ser (map_codec iter K V k0 v0) m @ rest) =
      Inr (m, rest)"
    using map_roundtrip [of m iter rest] by simp
qed (simp_all add: map_codec_def array_codec_def write_elements_def)

end

end
