(* ===== verification/Json_Object.thy ===== *)
theory Json_Object
  imports Json_Array
begin

text \<open>
  Objects: \<open>serializerT< object<T, L> >\<close> of \<open>fas/misc/json/json_object.hpp\<close> and the member
  descriptors \<open>member\<close>, \<open>member_p\<close> and \<open>member_if\<close> of \<open>fas/misc/json.hpp\<close>. The type list
  \<open>L\<close> of a \<open>struct\<close> is a HOL list of \<open>json_member\<close>s over the type of the struct.

  Reading expects the members in the order of the list. When the next name in the input is
  not the expected one, the whole list is searched for it (\<open>unserialize_members\<close> with
  \<open>search = true\<close>, here \<open>search_members\<close>), an unknown member is skipped, and the list is not
  advanced. Once the list is used up, the remaining members are skipped.
\<close>

section \<open>Members\<close>

record 't json_member =
  m_name :: string
  m_ser :: "'t \<Rightarrow> string"
  m_unser :: "'t \<Rightarrow> string \<Rightarrow> ('t \<times> string) res"

text \<open>\<open>member<N, T, M, m, W>\<close>: a field, read in place.\<close>

definition member_of ::
  "string \<Rightarrow> 'm codec \<Rightarrow> ('t \<Rightarrow> 'm) \<Rightarrow> ('m \<Rightarrow> 't \<Rightarrow> 't) \<Rightarrow> 't json_member" where
  "member_of name W get put =
     \<lparr>m_name = name,
      m_ser = (\<lambda>t. ser W (get t)),
      m_unser = (\<lambda>t s. bindE (unser W (get t) s) (\<lambda>(v, r). Inr (put v t, r)))\<rparr>"

text \<open>\<open>member_p\<close>: a property, read into a fresh value and then set.\<close>

definition member_p ::
  "string \<Rightarrow> 'm codec \<Rightarrow> 'm \<Rightarrow> ('t \<Rightarrow> 'm) \<Rightarrow> ('m \<Rightarrow> 't \<Rightarrow> 't) \<Rightarrow> 't json_member" where
  "member_p name W fresh get put =
     \<lparr>m_name = name,
      m_ser = (\<lambda>t. ser W (get t)),
      m_unser = (\<lambda>t s. bindE (unser W fresh s) (\<lambda>(v, r). Inr (put v t, r)))\<rparr>"

text \<open>
  \<open>member_if<L, R, RU>\<close>: written as \<open>L\<close> unless \<open>L\<close>'s value is the default; read as \<open>R\<close>
  (or as \<open>L\<close> when \<open>RU\<close> is false). \<open>nondef\<close> tests the value of \<open>L\<close>.
\<close>

definition member_if ::
  "'t json_member \<Rightarrow> ('t \<Rightarrow> bool) \<Rightarrow> 't json_member \<Rightarrow> bool \<Rightarrow> 't json_member" where
  "member_if L nondef R RU =
     \<lparr>m_name = (if RU then m_name R else m_name L),
      m_ser = (\<lambda>t. if nondef t then m_ser L t else m_ser R t),
      m_unser = (if RU then m_unser R else m_unser L)\<rparr>"

section \<open>Writing\<close>

definition serialize_member :: "'t \<Rightarrow> 't json_member \<Rightarrow> string" where
  "serialize_member t M = DQ # takeWhile (\<lambda>c. c \<noteq> NUL) (m_name M) @ DQ # CHR '':'' # m_ser M t"

fun serialize_members :: "'t \<Rightarrow> 't json_member list \<Rightarrow> string" where
  "serialize_members t [] = []"
| "serialize_members t [C] = serialize_member t C"
| "serialize_members t (C # R) = serialize_member t C @ CHR '','' # serialize_members t R"

section \<open>Reading\<close>

text \<open>The comparison loop of \<open>unserialize_member_name\<close>: what is left of the name and of the input.\<close>

fun match_name :: "string \<Rightarrow> string \<Rightarrow> string \<times> string" where
  "match_name (n # ns) (c # s) =
     (if n \<noteq> NUL \<and> c = n \<and> c \<noteq> DQ then match_name ns s else (n # ns, c # s))"
| "match_name ns s = (ns, s)"

text \<open>The result says whether the name matched; if not, the input is left where it was.\<close>

definition unserialize_member_name :: "string \<Rightarrow> string \<Rightarrow> (string \<times> bool) res" where
  "unserialize_member_name name s =
     (if \<not> is_string s then throw (Expected_of [DQ]) (length s)
      else let (ns, r) = match_name name (tl s) in
      if r = [] then throw Unexpected_end_fragment 0
      else if hd r \<noteq> DQ \<or> ns \<noteq> [] then Inr (s, False)
      else let r = parse_space (tl r) in
      if r = [] then throw Unexpected_end_fragment 0
      else if hd r \<noteq> CHR '':'' then throw (Expected_of '':'') (length r)
      else let r = parse_space (tl r) in
      if r = [] then throw Unexpected_end_fragment 0
      else Inr (r, True))"

definition unserialize_member :: "'t \<Rightarrow> string \<Rightarrow> 't json_member \<Rightarrow> ('t \<times> string \<times> bool) res" where
  "unserialize_member t s M =
     bindE (unserialize_member_name (m_name M) s) (\<lambda>(r, found).
       if \<not> found then Inr (t, r, False)
       else bindE (m_unser M t r) (\<lambda>(t', r'). Inr (t', r', True)))"

text \<open>\<open>search = true\<close>: find the member, or skip it.\<close>

fun search_members :: "'t \<Rightarrow> string \<Rightarrow> 't json_member list \<Rightarrow> ('t \<times> string) res" where
  "search_members t s [] = bindE (parse_member s) (\<lambda>r. Inr (t, parse_space r))"
| "search_members t s (C # R) =
     bindE (unserialize_member t s C) (\<lambda>(t', r, found).
       if found then Inr (t', r) else search_members t' r R)"

text \<open>The members behind the end of the list are skipped up to the closing brace.\<close>

function skip_members :: "string \<Rightarrow> string res" where
  "skip_members s =
     bindE (parse_member s) (\<lambda>r.
       let r = parse_space r in
       if r = [] then throw Unexpected_end_fragment 0
       else if hd r = CHR ''}'' then Inr r
       else if hd r \<noteq> CHR '','' then throw (Expected_of '','') (length r)
       else skip_members (parse_space (tl r)))"
  by pat_completeness auto
termination
proof (relation "measure length")
  fix s r q
  assume r: "parse_member s = Inr r" and q: "q = parse_space r" "q \<noteq> []"
  have "length q < length s"
    using parse_member_shrinks [OF r] parse_space_shrinks [of r] q(1) by simp
  moreover have "length (parse_space (tl q)) \<le> length q"
    using parse_space_shrinks [of "tl q"] by simp
  ultimately show "(parse_space (tl q), s) \<in> measure length" by simp
qed simp

declare skip_members.simps [simp del]

definition skip_rest :: "string \<Rightarrow> string res" where
  "skip_rest s =
     (let s = parse_space s in
      if s = [] then throw Unexpected_end_fragment 0
      else if hd s = CHR ''}'' then Inr s
      else skip_members s)"

text \<open>
  \<open>search = false\<close>; \<open>L\<close> is the whole list. Each round consumes a comma, so one unit of fuel
  for each character is enough.
\<close>

fun unserialize_members ::
  "nat \<Rightarrow> 't json_member list \<Rightarrow> 't \<Rightarrow> string \<Rightarrow> 't json_member list \<Rightarrow> ('t \<times> string) res" where
  "unserialize_members 0 L t s ms = Inl Fuel_exhausted"
| "unserialize_members (Suc n) L t s [] = bindE (skip_rest s) (\<lambda>r. Inr (t, r))"
| "unserialize_members (Suc n) L t s (C # R) =
     bindE (unserialize_member t s C) (\<lambda>(t, r, found).
     bindE (if found then Inr (t, r) else search_members t r L) (\<lambda>(t, r).
       let r = parse_space r in
       if r = [] then throw Unexpected_end_fragment 0
       else bindE (if hd r = CHR '',''
                   then unserialize_members n L t (parse_space (tl r)) (if found then R else C # R)
                   else Inr (t, r)) (\<lambda>(t, r).
         if r = [] then throw Unexpected_end_fragment 0
         else if hd r \<noteq> CHR ''}'' then throw (Expected_of ''}'') (length r)
         else Inr (t, r))))"

definition unserialize_object :: "'t json_member list \<Rightarrow> 't \<Rightarrow> string \<Rightarrow> ('t \<times> string) res" where
  "unserialize_object L t s =
     (if s = [] then throw Unexpected_end_fragment 0
      else if hd s \<noteq> CHR ''{'' then throw (Expected_of ''{'') (length (tl s))
      else let r = parse_space (tl s) in
      if r = [] then throw Unexpected_end_fragment 0
      else bindE (if hd r \<noteq> CHR ''}''
                  then bindE (unserialize_members (Suc (length r)) L t r L) (\<lambda>(t, r).
                         if r = [] then throw Unexpected_end_fragment 0
                         else let r = parse_space r in
                         if r = [] then throw Unexpected_end_fragment 0 else Inr (t, r))
                  else Inr (t, r)) (\<lambda>(t, r).
        if hd r \<noteq> CHR ''}'' then throw (Expected_of ''}'') (length (tl r))
        else Inr (t, tl r)))"

definition object_codec :: "'t json_member list \<Rightarrow> 't \<Rightarrow> 't codec" where
  "object_codec L t0 =
     \<lparr>ser = (\<lambda>t. CHR ''{'' # serialize_members t L @ ''}''),
      unser = (\<lambda>t s. if is_null s then bindE (parse_null s) (\<lambda>r. Inr (t0, r))
                     else unserialize_object L t s)\<rparr>"

section \<open>Reading is total and stays inside the input\<close>

lemma match_name_suffix: "suffix (snd (match_name ns s)) s"
  by (induction ns s rule: match_name.induct) (auto intro: suffix_ConsI)

lemma unserialize_member_name_suffix:
  "unserialize_member_name name s = Inr (r, found) \<Longrightarrow> suffix r s"
  using match_name_suffix [of name "tl s"] parse_space_suffix
  by (auto simp: unserialize_member_name_def Let_def split: if_splits prod.splits)
     (meson suffix_order.trans suffix_tl)

lemma unserialize_member_name_total: "unserialize_member_name name s \<noteq> Inl Fuel_exhausted"
  by (auto simp: unserialize_member_name_def Let_def split: prod.splits)

lemma skip_members_Inr:
  "skip_members s = Inr r \<longleftrightarrow> (\<exists>q. parse_member s = Inr q \<and> parse_space q \<noteq> [] \<and>
     (if hd (parse_space q) = CHR ''}'' then parse_space q = r
      else hd (parse_space q) = CHR '','' \<and> skip_members (parse_space (tl (parse_space q))) = Inr r))"
  by (cases "parse_member s"; subst skip_members.simps; simp add: Let_def)

lemma skip_members_suffix: "skip_members s = Inr r \<Longrightarrow> suffix r s"
proof (induction s rule: skip_members.induct)
  case (1 s)
  from 1(2) obtain q where q: "parse_member s = Inr q" "parse_space q \<noteq> []"
    and r: "if hd (parse_space q) = CHR ''}'' then parse_space q = r
      else hd (parse_space q) = CHR '','' \<and> skip_members (parse_space (tl (parse_space q))) = Inr r"
    by (auto simp: skip_members_Inr [of s])
  have s: "suffix (parse_space q) s"
    using parse_member_suffix [OF q(1)] parse_space_suffix [of q] by (meson suffix_trans_rules)
  show ?case
  proof (cases "hd (parse_space q) = CHR ''}''")
    case False
    with r q(2) 1(1) [OF q(1) refl] have "suffix r (parse_space (tl (parse_space q)))" by simp
    with s parse_space_suffix [of "tl (parse_space q)"] show ?thesis
      by (meson suffix_order.trans suffix_tl)
  qed (use r s in simp)
qed

lemma skip_members_total: "skip_members s \<noteq> Inl Fuel_exhausted"
proof (induction s rule: skip_members.induct)
  case (1 s)
  then show ?case by (subst skip_members.simps) (auto simp: Let_def bindE_Inl_iff no_fuel)
qed

lemma skip_rest_suffix: "skip_rest s = Inr r \<Longrightarrow> suffix r s"
  using parse_space_suffix [of s]
  by (auto simp: skip_rest_def Let_def split: if_splits dest!: skip_members_suffix
      intro: suffix_order.trans)

lemma skip_rest_total: "skip_rest s \<noteq> Inl Fuel_exhausted"
  by (auto simp: skip_rest_def Let_def skip_members_total)

text \<open>What the members' serializers promise carries over to the object.\<close>

locale member_readers =
  fixes L :: "'t json_member list" and t0 :: 't
  assumes member_suffix: "M \<in> set L \<Longrightarrow> m_unser M t s = Inr (t', r) \<Longrightarrow> suffix r s"
    and member_total: "M \<in> set L \<Longrightarrow> m_unser M t s \<noteq> Inl Fuel_exhausted"
begin

lemma unserialize_member_suffix:
  "M \<in> set L \<Longrightarrow> unserialize_member t s M = Inr (t', r, found) \<Longrightarrow> suffix r s"
  by (auto simp: unserialize_member_def split: if_splits
      dest!: unserialize_member_name_suffix member_suffix intro: suffix_order.trans)

lemma unserialize_member_total: "M \<in> set L \<Longrightarrow> unserialize_member t s M \<noteq> Inl Fuel_exhausted"
  by (auto simp: unserialize_member_def bindE_Inl_iff unserialize_member_name_total member_total
      split: if_splits)

lemma search_members_suffix:
  "set ms \<subseteq> set L \<Longrightarrow> search_members t s ms = Inr (t', r) \<Longrightarrow> suffix r s"
proof (induction ms arbitrary: t s)
  case Nil
  then obtain q where q: "parse_member s = Inr q" "r = parse_space q" by auto
  then show ?case
    using parse_member_suffix [OF q(1)] parse_space_suffix [of q] by (meson suffix_trans_rules)
next
  case (Cons M ms)
  then obtain t1 q found where q: "unserialize_member t s M = Inr (t1, q, found)"
    and r: "q = r \<or> search_members t1 q ms = Inr (t', r)" by (auto split: if_splits)
  have "suffix q s" using unserialize_member_suffix [OF _ q] Cons.prems(1) by simp
  with r Cons.IH Cons.prems(1) show ?case by (auto intro: suffix_order.trans)
qed

lemma search_members_total: "set ms \<subseteq> set L \<Longrightarrow> search_members t s ms \<noteq> Inl Fuel_exhausted"
  by (induction ms arbitrary: t s) (auto simp: bindE_Inl_iff no_fuel unserialize_member_total)

text \<open>The part of a round before the comma.\<close>

definition one_member :: "'t \<Rightarrow> string \<Rightarrow> 't json_member \<Rightarrow> ('t \<times> string \<times> bool) res" where
  "one_member t s C = bindE (unserialize_member t s C) (\<lambda>(t, r, found).
     bindE (if found then Inr (t, r) else search_members t r L) (\<lambda>(t, r). Inr (t, parse_space r, found)))"

lemma one_member_suffix:
  assumes "C \<in> set L" and "one_member t s C = Inr (t', r, found)"
  shows "suffix r s"
proof -
  obtain t1 p q where p: "unserialize_member t s C = Inr (t1, p, found)"
    and q: "(if found then Inr (t1, p) else search_members t1 p L) = Inr (t', q)" "r = parse_space q"
    using assms(2) by (auto simp: one_member_def)
  have "suffix q p" using q(1) search_members_suffix [of L t1 p] by (cases found) auto
  with unserialize_member_suffix [OF assms(1) p] parse_space_suffix [of q] q(2) show ?thesis
    by (meson suffix_order.trans)
qed

lemma unserialize_members_Cons:
  "unserialize_members (Suc n) L t s (C # R) =
     bindE (one_member t s C) (\<lambda>(t, r, found).
       if r = [] then throw Unexpected_end_fragment 0
       else bindE (if hd r = CHR '',''
                   then unserialize_members n L t (parse_space (tl r)) (if found then R else C # R)
                   else Inr (t, r)) (\<lambda>(t, r).
         if r = [] then throw Unexpected_end_fragment 0
         else if hd r \<noteq> CHR ''}'' then throw (Expected_of ''}'') (length r)
         else Inr (t, r)))"
  by (auto simp: one_member_def Let_def bindE_def split: sum.splits prod.splits)

lemma unserialize_members_suffix:
  "set ms \<subseteq> set L \<Longrightarrow> unserialize_members n L t s ms = Inr (t', r) \<Longrightarrow> suffix r s"
proof (induction n arbitrary: t s ms)
  case (Suc n)
  show ?case
  proof (cases ms)
    case Nil
    then show ?thesis using Suc.prems by (auto dest: skip_rest_suffix)
  next
    case (Cons C R)
    from Suc.prems(2) obtain t1 q found where q: "one_member t s C = Inr (t1, q, found)"
      and r: "q = r \<or> unserialize_members n L t1 (parse_space (tl q)) (if found then R else C # R) =
                Inr (t', r)"
      unfolding Cons unserialize_members_Cons by (auto split: if_splits)
    have qs: "suffix q s" using one_member_suffix [OF _ q] Suc.prems(1) Cons by simp
    have "suffix r (parse_space (tl q))"
      if "unserialize_members n L t1 (parse_space (tl q)) (if found then R else C # R) = Inr (t', r)"
      by (rule Suc.IH [OF _ that]) (use Suc.prems(1) Cons in auto)
    with r qs parse_space_suffix [of "tl q"] show ?thesis by (meson suffix_order.trans suffix_tl)
  qed
qed simp

lemma unserialize_members_total:
  "set ms \<subseteq> set L \<Longrightarrow> length s < n \<Longrightarrow> unserialize_members n L t s ms \<noteq> Inl Fuel_exhausted"
proof (induction n arbitrary: t s ms)
  case (Suc n)
  show ?case
  proof (cases ms)
    case Nil
    then show ?thesis by (auto simp: bindE_Inl_iff skip_rest_total)
  next
    case (Cons C R)
    have total: "one_member t s C \<noteq> Inl Fuel_exhausted"
      using Suc.prems(1) Cons
      by (auto simp: one_member_def bindE_Inl_iff unserialize_member_total search_members_total)
    have "unserialize_members n L t1 (parse_space (tl q)) (if found then R else C # R) \<noteq> Inl Fuel_exhausted"
      if q: "one_member t s C = Inr (t1, q, found)" "q \<noteq> []" for t1 q found
    proof (rule Suc.IH)
      have "length q \<le> length s"
        using suffix_length_le [OF one_member_suffix [OF _ q(1)]] Suc.prems(1) Cons by simp
      moreover have "length (tl q) < length q" using q(2) by simp
      ultimately show "length (parse_space (tl q)) < n"
        using parse_space_shrinks [of "tl q"] Suc.prems(2) by linarith
    qed (use Suc.prems(1) Cons in auto)
    then show ?thesis
      unfolding Cons unserialize_members_Cons using total by (auto simp: bindE_Inl_iff)
  qed
qed simp

lemma object_reader: "json_reader (object_codec L t0)"
proof
  fix t s t' r
  assume *: "unser (object_codec L t0) t s = Inr (t', r)"
  show "suffix r s"
  proof (cases "is_null s")
    case False
    let ?q = "parse_space (tl s)"
    have q: "suffix ?q s" using parse_space_suffix [of "tl s"] by (rule suffix_tlI)
    from * False obtain p where "suffix p ?q" "r = tl p"
      by (auto simp: object_codec_def unserialize_object_def Let_def split: if_splits
          dest!: unserialize_members_suffix [OF order_refl]
          intro: suffix_order.trans [OF parse_space_suffix])
    with q show ?thesis by (meson suffix_order.trans suffix_tl)
  qed (use * in \<open>auto simp: object_codec_def dest: parse_null_suffix suffix_order.less_imp_le\<close>)
next
  fix t s
  show "unser (object_codec L t0) t s \<noteq> Inl Fuel_exhausted"
    using unserialize_members_total [OF order_refl, of "parse_space (tl s)"]
    by (auto simp: object_codec_def unserialize_object_def Let_def bindE_Inl_iff parse_null_no_fuel
        split: if_splits)
qed

end

section \<open>The contract of an object\<close>

text \<open>\<open>plain_name\<close>: a member name that is written and compared as it is.\<close>

definition plain_name :: "string \<Rightarrow> bool" where
  "plain_name name \<longleftrightarrow> NUL \<notin> set name \<and> DQ \<notin> set name"

lemma match_name_same: "plain_name name \<Longrightarrow> match_name name (name @ DQ # r) = ([], DQ # r)"
  by (induction name) (auto simp: plain_name_def)

lemma takeWhile_plain: "plain_name name \<Longrightarrow> takeWhile (\<lambda>c. c \<noteq> NUL) name = name"
  by (auto simp: plain_name_def)

lemma unserialize_member_name_same:
  assumes "plain_name name" and "v \<noteq> []" and "starts_value (hd v)"
  shows "unserialize_member_name name (DQ # name @ DQ # CHR '':'' # v @ r) = Inr (v @ r, True)"
  using assms
  by (simp add: unserialize_member_name_def is_string_def match_name_same)

text \<open>
  \<open>partial t i\<close> is the object after the first \<open>i\<close> members of \<open>t\<close> have been read: it starts
  as the default object and ends as \<open>t\<close>.
\<close>

locale json_object = member_readers L t0
  for L :: "'t json_member list" and t0 +
  fixes okt :: "'t \<Rightarrow> bool" and partial :: "'t \<Rightarrow> nat \<Rightarrow> 't"
  assumes plain_names: "M \<in> set L \<Longrightarrow> plain_name (m_name M)"
    and member_roundtrip: "okt t \<Longrightarrow> i < length L \<Longrightarrow> delim rest \<Longrightarrow>
      m_unser (L ! i) (partial t i) (m_ser (L ! i) t @ rest) = Inr (partial t (Suc i), rest)"
    and member_start: "okt t \<Longrightarrow> M \<in> set L \<Longrightarrow> m_ser M t \<noteq> [] \<and> starts_value (hd (m_ser M t))"
    and partial_0: "okt t \<Longrightarrow> partial t 0 = t0"
    and partial_all: "okt t \<Longrightarrow> partial t (length L) = t"
begin

lemma one_member_roundtrip:
  assumes "okt t" and "i < length L" and "delim (c # rest)" and "parse_space (c # rest) = c # rest"
  shows "one_member (partial t i) (serialize_member t (L ! i) @ c # rest) (L ! i) =
           Inr (partial t (Suc i), c # rest, True)"
  using member_roundtrip [OF assms(1-3)] member_start [OF assms(1), of "L ! i"]
    plain_names [of "L ! i"] assms(2,4)
  by (simp add: one_member_def serialize_member_def takeWhile_plain unserialize_member_def
      unserialize_member_name_same)

lemma serialize_members_Cons2:
  "ms \<noteq> [] \<Longrightarrow> serialize_members t (M # ms) = serialize_member t M @ CHR '','' # serialize_members t ms"
  by (cases ms) auto

lemma serialize_members_start: "ms \<noteq> [] \<Longrightarrow> \<exists>w. serialize_members t ms = DQ # w"
  by (cases ms rule: remdups_adj.cases) (auto simp: serialize_member_def)

lemma members_roundtrip:
  "okt t \<Longrightarrow> i < length L \<Longrightarrow> length L - i \<le> n \<Longrightarrow>
     unserialize_members n L (partial t i) (serialize_members t (drop i L) @ CHR ''}'' # rest) (drop i L) =
       Inr (t, CHR ''}'' # rest)"
proof (induction n arbitrary: i)
  case (Suc n)
  have drop: "drop i L = L ! i # drop (Suc i) L" using Suc.prems by (simp add: Cons_nth_drop_Suc)
  show ?case
  proof (cases "Suc i = length L")
    case True
    then show ?thesis
      using one_member_roundtrip [OF Suc.prems(1,2), of "CHR ''}''" rest] partial_all [OF Suc.prems(1)]
      unfolding drop by (subst unserialize_members_Cons) (simp add: is_space_def)
  next
    case False
    let ?q = "serialize_members t (drop (Suc i) L) @ CHR ''}'' # rest"
    have "unserialize_members n L (partial t (Suc i)) ?q (drop (Suc i) L) = Inr (t, CHR ''}'' # rest)"
      using Suc False by simp
    moreover have ne: "drop (Suc i) L \<noteq> []" using Suc.prems False by simp
    moreover obtain w where "serialize_members t (drop (Suc i) L) = DQ # w"
      using serialize_members_start [OF ne] by blast
    then have "parse_space ?q = ?q" by (simp add: is_space_def)
    ultimately show ?thesis
      using one_member_roundtrip [OF Suc.prems(1,2), of "CHR '',''" ?q]
      unfolding drop by (subst unserialize_members_Cons) (simp add: serialize_members_Cons2)
  qed
qed simp

lemma length_serialize_members: "length ms \<le> length (serialize_members t ms)"
  by (induction ms rule: induct_list012) (auto simp: serialize_member_def)

text \<open>The closing brace ends an object, so anything may follow it.\<close>

lemma object_roundtrip:
  assumes t: "okt t"
  shows "unser (object_codec L t0) t0 (ser (object_codec L t0) t @ rest) = Inr (t, rest)"
proof (cases "L = []")
  case False
  let ?q = "serialize_members t L @ CHR ''}'' # rest"
  obtain w where w: "?q = DQ # w" using serialize_members_start [OF False, of t] by auto
  have "unserialize_members (Suc (length ?q)) L t0 ?q L = Inr (t, CHR ''}'' # rest)"
    using members_roundtrip [OF t, of 0 "Suc (length ?q)" rest] False partial_0 [OF t]
      length_serialize_members [of L t] by simp
  with w show ?thesis
    by (simp add: object_codec_def is_null_def unserialize_object_def is_space_def
        del: unserialize_members.simps)
next
  case True
  with partial_0 [OF t] partial_all [OF t] show ?thesis
    by (simp add: object_codec_def is_null_def unserialize_object_def is_space_def)
qed

lemma object_contract: "json_codec (object_codec L t0) okt t0"
  by (intro json_codec.intro object_reader json_codec_axioms.intro object_roundtrip)
     (simp_all add: object_codec_def)

end

text \<open>Fields whose serializer keeps a contract are members that keep theirs.\<close>

lemma member_of_simps [simp]:
  "m_name (member_of name W get put) = name"
  "m_ser (member_of name W get put) t = ser W (get t)"
  "m_unser (member_of name W get put) t s = bindE (unser W (get t) s) (\<lambda>(v, r). Inr (put v t, r))"
  by (simp_all add: member_of_def)

lemma member_of_suffix:
  "json_reader W \<Longrightarrow> m_unser (member_of name W get put) t s = Inr (t', r) \<Longrightarrow> suffix r s"
  by (auto dest: json_reader.unser_suffix)

lemma member_of_total:
  "json_reader W \<Longrightarrow> m_unser (member_of name W get put) t s \<noteq> Inl Fuel_exhausted"
  by (auto simp: bindE_Inl_iff json_reader.unser_total)

lemmas member_of_reader = member_of_suffix member_of_total

end
