(* ===== verification/Requests.thy ===== *)
theory Requests
  imports Json_Object
begin

text \<open>
  The types of \<open>src/fas_queries.hpp\<close>: the containers and request structures of the daemon's
  methods and their JSON descriptions. A vector of pairs is a list of pairs; an
  \<open>unordered_map\<close> is a list of pairs with distinct keys, and \<open>iter\<close> and \<open>iteri\<close> stand for the
  order in which the library iterates it.
\<close>

section \<open>Containers\<close>

type_synonym valmap2raw = "(string \<times> string) list"
type_synonym valmap2str = "(string \<times> string) list"
type_synonym valmap2str_map = "(string \<times> string) list"
type_synonym valmap2int = "(string \<times> int) list"
type_synonym valmap2int_map = "(string \<times> int) list"
type_synonym valmap2bool = "(string \<times> bool) list"
type_synonym vallist = "string list"

definition valmap2raw_json :: "valmap2raw codec" where
  "valmap2raw_json = paired_codec string_codec raw_codec [] []"

definition valmap2str_json :: "valmap2str codec" where
  "valmap2str_json = paired_codec string_codec strvalue_codec [] []"

definition valmap2int_json :: "valmap2int codec" where
  "valmap2int_json = paired_codec string_codec (integer_codec c_long_long) [] 0"

definition valmap2bool_json :: "valmap2bool codec" where
  "valmap2bool_json = paired_codec string_codec bool_codec [] False"

definition vallist_json :: "vallist codec" where
  "vallist_json = vector_codec string_codec []"

definition valmap2str_map_json :: "(valmap2str_map \<Rightarrow> valmap2str_map) \<Rightarrow> valmap2str_map codec" where
  "valmap2str_map_json iter = map_codec iter string_codec strvalue_codec [] []"

definition valmap2int_map_json :: "(valmap2int_map \<Rightarrow> valmap2int_map) \<Rightarrow> valmap2int_map codec" where
  "valmap2int_map_json iter = map_codec iter string_codec (integer_codec c_long_long) [] 0"

text \<open>\<open>push_pair\<close> of \<open>src/aj_pairvector.hpp\<close>\<close>

definition push_pair :: "('k \<times> 'v) list \<Rightarrow> 'k \<Rightarrow> 'v \<Rightarrow> ('k \<times> 'v) list" where
  "push_pair target k v = target @ [(k, v)]"

section \<open>Request structures\<close>

record rep_setstate =
  rs_id :: string
  rs_state :: string

definition rep_setstate_init :: rep_setstate where
  "rep_setstate_init = \<lparr>rs_id = [], rs_state = ''start''\<rparr>"

definition rep_setstate_members :: "rep_setstate json_member list" where
  "rep_setstate_members =
     [member_of ''id'' string_codec rs_id (\<lambda>v t. t\<lparr>rs_id := v\<rparr>),
      member_of ''state'' string_codec rs_state (\<lambda>v t. t\<lparr>rs_state := v\<rparr>)]"

definition rep_setstate_json :: "rep_setstate codec" where
  "rep_setstate_json = object_codec rep_setstate_members rep_setstate_init"

record inc_add =
  ia_inc :: valmap2int
  ia_def :: valmap2int_map

definition inc_add_init :: inc_add where
  "inc_add_init = \<lparr>ia_inc = [], ia_def = []\<rparr>"

definition inc_add_members :: "(valmap2int_map \<Rightarrow> valmap2int_map) \<Rightarrow> inc_add json_member list" where
  "inc_add_members iteri =
     [member_of ''inc'' valmap2int_json ia_inc (\<lambda>v t. t\<lparr>ia_inc := v\<rparr>),
      member_of ''def'' (valmap2int_map_json iteri) ia_def (\<lambda>v t. t\<lparr>ia_def := v\<rparr>)]"

definition inc_add_json :: "(valmap2int_map \<Rightarrow> valmap2int_map) \<Rightarrow> inc_add codec" where
  "inc_add_json iteri = object_codec (inc_add_members iteri) inc_add_init"

record update_packed =
  up_key :: string
  up_inc :: valmap2int
  up_set :: valmap2str
  up_def :: valmap2str_map

definition update_packed_init :: update_packed where
  "update_packed_init = \<lparr>up_key = [], up_inc = [], up_set = [], up_def = []\<rparr>"

definition update_packed_members ::
  "(valmap2str_map \<Rightarrow> valmap2str_map) \<Rightarrow> update_packed json_member list" where
  "update_packed_members iter =
     [member_of ''key'' string_codec up_key (\<lambda>v t. t\<lparr>up_key := v\<rparr>),
      member_of ''inc'' valmap2int_json up_inc (\<lambda>v t. t\<lparr>up_inc := v\<rparr>),
      member_of ''set'' valmap2str_json up_set (\<lambda>v t. t\<lparr>up_set := v\<rparr>),
      member_of ''def'' (valmap2str_map_json iter) up_def (\<lambda>v t. t\<lparr>up_def := v\<rparr>)]"

definition update_packed_json :: "(valmap2str_map \<Rightarrow> valmap2str_map) \<Rightarrow> update_packed codec" where
  "update_packed_json iter = object_codec (update_packed_members iter) update_packed_init"

record get_range =
  gr_from :: string
  gr_to :: string
  gr_limit :: int
  gr_skip :: int

definition get_range_init :: get_range where
  "get_range_init = \<lparr>gr_from = [], gr_to = [], gr_limit = 1000, gr_skip = 0\<rparr>"

definition get_range_members :: "get_range json_member list" where
  "get_range_members =
     [member_of ''from'' string_codec gr_from (\<lambda>v t. t\<lparr>gr_from := v\<rparr>),
      member_of ''to'' string_codec gr_to (\<lambda>v t. t\<lparr>gr_to := v\<rparr>),
      member_of ''limit'' (integer_codec c_int) gr_limit (\<lambda>v t. t\<lparr>gr_limit := v\<rparr>),
      member_of ''skip'' (integer_codec c_int) gr_skip (\<lambda>v t. t\<lparr>gr_skip := v\<rparr>)]"

definition get_range_json :: "get_range codec" where
  "get_range_json = object_codec get_range_members get_range_init"

section \<open>Contracts\<close>

interpretation str_raw: pair_codecs string_codec text_ok "[]" raw_codec raw_ok "[]" ..
interpretation str_str: pair_codecs string_codec text_ok "[]" strvalue_codec text_ok "[]" ..
interpretation str_ll: pair_codecs string_codec text_ok "[]" "integer_codec c_long_long" "fits c_long_long" 0 ..
interpretation str_bool: pair_codecs string_codec text_ok "[]" bool_codec "\<lambda>_. True" False ..

definition strs_ok :: "valmap2str \<Rightarrow> bool" where
  "strs_ok = list_all (\<lambda>e. text_ok (fst e) \<and> text_ok (snd e))"

definition ints_ok :: "valmap2int \<Rightarrow> bool" where
  "ints_ok = list_all (\<lambda>e. text_ok (fst e) \<and> fits c_long_long (snd e))"

interpretation raws: json_codec valmap2raw_json "list_all (\<lambda>e. text_ok (fst e) \<and> raw_ok (snd e))" "[]"
  unfolding valmap2raw_json_def by (rule str_raw.paired_contract)

interpretation strs: json_codec valmap2str_json strs_ok "[]"
  unfolding valmap2str_json_def strs_ok_def by (rule str_str.paired_contract)

interpretation ints: json_codec valmap2int_json ints_ok "[]"
  unfolding valmap2int_json_def ints_ok_def by (rule str_ll.paired_contract)

interpretation bools: json_codec valmap2bool_json "list_all (\<lambda>e. text_ok (fst e) \<and> True)" "[]"
  unfolding valmap2bool_json_def by (rule str_bool.paired_contract)

interpretation keys: json_codec vallist_json "list_all text_ok" "[]"
  unfolding vallist_json_def by (rule str.vector_contract)

interpretation str_map: json_codec "valmap2str_map_json iter"
    "\<lambda>m. iter m = m \<and> distinct (map fst m) \<and> strs_ok m" "[]" for iter
  unfolding valmap2str_map_json_def strs_ok_def by (rule str_str.map_contract)

interpretation int_map: json_codec "valmap2int_map_json iter"
    "\<lambda>m. iter m = m \<and> distinct (map fst m) \<and> ints_ok m" "[]" for iter
  unfolding valmap2int_map_json_def ints_ok_def by (rule str_ll.map_contract)

text \<open>The fields of a structure, in the order they are read.\<close>

lemmas any_old_roundtrip =
  json_codec.roundtrip [OF string_codec_contract]
  json_codec.roundtrip [OF integer_codec_contract]

lemmas field_readers =
  str.json_reader_axioms c_int.json_reader_axioms c_ll.json_reader_axioms
  ints.json_reader_axioms strs.json_reader_axioms str_map.json_reader_axioms int_map.json_reader_axioms

lemma c_int_sizeof [simp]: "0 < sizeof c_int" "0 < sizeof c_long_long"
  by (simp_all add: c_int_def c_long_long_def)

definition rep_setstate_ok :: "rep_setstate \<Rightarrow> bool" where
  "rep_setstate_ok t \<longleftrightarrow> text_ok (rs_id t) \<and> text_ok (rs_state t)"

definition rep_setstate_partial :: "rep_setstate \<Rightarrow> nat \<Rightarrow> rep_setstate" where
  "rep_setstate_partial t i =
     \<lparr>rs_id = (if i < 1 then [] else rs_id t),
      rs_state = (if i < 2 then ''start'' else rs_state t)\<rparr>"

interpretation rep_setstate: json_object rep_setstate_members rep_setstate_init
    rep_setstate_ok rep_setstate_partial
proof
  fix t :: rep_setstate and i rest
  assume "rep_setstate_ok t" "i < length rep_setstate_members" "delim rest"
  moreover from this have "i = 0 \<or> i = 1" by (auto simp: rep_setstate_members_def)
  ultimately show "m_unser (rep_setstate_members ! i) (rep_setstate_partial t i)
      (m_ser (rep_setstate_members ! i) t @ rest) = Inr (rep_setstate_partial t (Suc i), rest)"
    by (auto simp: rep_setstate_members_def rep_setstate_partial_def rep_setstate_ok_def
        any_old_roundtrip)
qed (auto simp: rep_setstate_members_def rep_setstate_partial_def rep_setstate_ok_def
    rep_setstate_init_def plain_name_def bindE_Inl_iff str.ser_start str.unser_total
    dest: str.unser_suffix)

definition get_range_ok :: "get_range \<Rightarrow> bool" where
  "get_range_ok t \<longleftrightarrow> text_ok (gr_from t) \<and> text_ok (gr_to t) \<and>
     fits c_int (gr_limit t) \<and> fits c_int (gr_skip t)"

definition get_range_partial :: "get_range \<Rightarrow> nat \<Rightarrow> get_range" where
  "get_range_partial t i =
     \<lparr>gr_from = (if i < 1 then [] else gr_from t), gr_to = (if i < 2 then [] else gr_to t),
      gr_limit = (if i < 3 then 1000 else gr_limit t), gr_skip = (if i < 4 then 0 else gr_skip t)\<rparr>"

interpretation get_range: json_object get_range_members get_range_init get_range_ok get_range_partial
proof
  fix t :: get_range and i rest
  assume "get_range_ok t" "i < length get_range_members" "delim rest"
  moreover from this have "i = 0 \<or> i = 1 \<or> i = 2 \<or> i = 3" by (auto simp: get_range_members_def)
  ultimately show "m_unser (get_range_members ! i) (get_range_partial t i)
      (m_ser (get_range_members ! i) t @ rest) = Inr (get_range_partial t (Suc i), rest)"
    by (auto simp: get_range_members_def get_range_partial_def get_range_ok_def any_old_roundtrip)
qed (auto simp: get_range_members_def get_range_partial_def get_range_ok_def
    get_range_init_def plain_name_def bindE_Inl_iff str.ser_start c_int.ser_start
    str.unser_total c_int.unser_total dest: str.unser_suffix c_int.unser_suffix)

definition inc_add_ok :: "(valmap2int_map \<Rightarrow> valmap2int_map) \<Rightarrow> inc_add \<Rightarrow> bool" where
  "inc_add_ok iteri t \<longleftrightarrow> ints_ok (ia_inc t) \<and>
     (iteri (ia_def t) = ia_def t \<and> distinct (map fst (ia_def t)) \<and> ints_ok (ia_def t))"

definition inc_add_partial :: "inc_add \<Rightarrow> nat \<Rightarrow> inc_add" where
  "inc_add_partial t i =
     \<lparr>ia_inc = (if i < 1 then [] else ia_inc t), ia_def = (if i < 2 then [] else ia_def t)\<rparr>"

interpretation inc_add: json_object "inc_add_members iteri" inc_add_init
    "inc_add_ok iteri" inc_add_partial for iteri
proof
  fix t :: inc_add and i rest
  assume "inc_add_ok iteri t" "i < length (inc_add_members iteri)" "delim rest"
  moreover from this have "i = 0 \<or> i = 1" by (auto simp: inc_add_members_def)
  ultimately show "m_unser (inc_add_members iteri ! i) (inc_add_partial t i)
      (m_ser (inc_add_members iteri ! i) t @ rest) = Inr (inc_add_partial t (Suc i), rest)"
    by (auto simp: inc_add_members_def inc_add_partial_def inc_add_ok_def
        ints.roundtrip int_map.roundtrip)
qed (auto simp: inc_add_members_def inc_add_partial_def inc_add_ok_def
    inc_add_init_def plain_name_def bindE_Inl_iff ints.ser_start int_map.ser_start
    ints.unser_total int_map.unser_total dest: ints.unser_suffix int_map.unser_suffix)

definition update_packed_ok :: "(valmap2str_map \<Rightarrow> valmap2str_map) \<Rightarrow> update_packed \<Rightarrow> bool" where
  "update_packed_ok iter t \<longleftrightarrow> text_ok (up_key t) \<and> ints_ok (up_inc t) \<and> strs_ok (up_set t) \<and>
     (iter (up_def t) = up_def t \<and> distinct (map fst (up_def t)) \<and> strs_ok (up_def t))"

definition update_packed_partial :: "update_packed \<Rightarrow> nat \<Rightarrow> update_packed" where
  "update_packed_partial t i =
     \<lparr>up_key = (if i < 1 then [] else up_key t), up_inc = (if i < 2 then [] else up_inc t),
      up_set = (if i < 3 then [] else up_set t), up_def = (if i < 4 then [] else up_def t)\<rparr>"

interpretation update_packed: json_object "update_packed_members iter" update_packed_init
    "update_packed_ok iter" update_packed_partial for iter
proof
  fix t :: update_packed and i rest
  assume "update_packed_ok iter t" "i < length (update_packed_members iter)" "delim rest"
  moreover from this have "i = 0 \<or> i = 1 \<or> i = 2 \<or> i = 3" by (auto simp: update_packed_members_def)
  ultimately show "m_unser (update_packed_members iter ! i) (update_packed_partial t i)
      (m_ser (update_packed_members iter ! i) t @ rest) = Inr (update_packed_partial t (Suc i), rest)"
    by (auto simp: update_packed_members_def update_packed_partial_def update_packed_ok_def
        any_old_roundtrip ints.roundtrip strs.roundtrip str_map.roundtrip)
qed (auto simp: update_packed_members_def update_packed_partial_def update_packed_ok_def
    update_packed_init_def plain_name_def bindE_Inl_iff str.ser_start ints.ser_start strs.ser_start
    str_map.ser_start str.unser_total ints.unser_total strs.unser_total str_map.unser_total
    dest: str.unser_suffix ints.unser_suffix strs.unser_suffix str_map.unser_suffix)



text \<open>
  A \<open>get_range\<close> request survives the trip over the wire: reading the written object
  into a default-constructed structure gives every field back.
\<close>

lemma get_range_roundtrip:
  assumes "get_range_ok t" and "delim rest"
  shows "unser get_range_json get_range_init (ser get_range_json t @ rest) = Inr (t, rest)"
  unfolding get_range_json_def
  by (rule json_codec.roundtrip [OF get_range.object_contract assms])

text \<open>
  Reading the parameters of \<open>update_packed\<close>, the deepest structure of the protocol, ends on
  every input, with a value or an exception, and consumes no more than the input.
\<close>

lemma update_packed_total:
  "case unser (update_packed_json iter) t s of
     Inl e \<Rightarrow> e \<noteq> Fuel_exhausted
   | Inr (t', r) \<Rightarrow> suffix r s"
proof -
  have "json_reader (update_packed_json iter)"
    unfolding update_packed_json_def by (rule update_packed.object_reader)
  then show ?thesis
    using json_reader.unser_suffix json_reader.unser_total by (fastforce split: sum.splits)
qed

end
