(* ===== verification/Store.thy ===== *)
theory Store
  imports Prelude
begin

text \<open>
  The key/value store behind \<open>getDb()\<close>, \<open>src/db.hpp\<close>. LevelDB itself is not part of the
  repository, so its operations are a parameter: a record \<open>db_ops\<close> over an abstract database
  state \<open>'d\<close> and an abstract iterator \<open>'i\<close>. What the daemon relies on is stated by locales:

  \<^item> \<open>ordered_store\<close>: the entries are sorted by key, an iterator is a snapshot that walks
    them in order, a successful \<open>Put\<close> or \<open>Delete\<close> changes exactly one entry;
  \<^item> \<open>readable_store\<close>: \<open>Get\<close> returns the entry;
  \<^item> \<open>leveldb\<close>: the operations succeed (no I/O error).

  \<open>ldb_mem_db\<close>, the in-memory replacement in the other branch of the \<open>#if\<close>, is modelled
  from its source. It keeps the first contract but not the second: its \<open>Get\<close> assigns the
  local pointer. \<open>std_map_ops\<close> is the same class with a \<open>Get\<close> that returns what it finds.
\<close>

section \<open>Sorted association lists\<close>

type_synonym entry = "string \<times> string"

abbreviation sorted_keys :: "entry list \<Rightarrow> bool" where
  "sorted_keys xs \<equiv> sorted_wrt (<) (map fst xs)"

text \<open>\<open>data[k] = v\<close>, \<open>data.erase(k)\<close> and \<open>data.lower_bound(k)\<close> of a \<open>std::map\<close>.\<close>

fun ins :: "string \<Rightarrow> string \<Rightarrow> entry list \<Rightarrow> entry list" where
  "ins k v [] = [(k, v)]"
| "ins k v (e # es) =
     (if k < fst e then (k, v) # e # es
      else if k = fst e then (k, v) # es
      else e # ins k v es)"

definition erase :: "string \<Rightarrow> entry list \<Rightarrow> entry list" where
  "erase k es = filter (\<lambda>e. fst e \<noteq> k) es"

definition lower_bound :: "string \<Rightarrow> entry list \<Rightarrow> entry list" where
  "lower_bound k es = dropWhile (\<lambda>e. fst e < k) es"

lemma set_ins: "set (map fst (ins k v es)) = insert k (set (map fst es))"
  by (induction es) auto

lemma sorted_ins: "sorted_keys es \<Longrightarrow> sorted_keys (ins k v es)"
proof (induction es)
  case (Cons e es)
  then show ?case using set_ins [of k v es] by (fastforce simp: not_less order.order_iff_strict)
qed simp

lemma map_of_ins: "sorted_keys es \<Longrightarrow> map_of (ins k v es) = (map_of es)(k \<mapsto> v)"
  by (induction es) (auto simp: fun_eq_iff)

lemma sorted_erase: "sorted_keys es \<Longrightarrow> sorted_keys (erase k es)"
  by (auto simp: erase_def sorted_wrt_map intro: sorted_wrt_filter)

lemma map_of_erase: "map_of (erase k es) = (map_of es)(k := None)"
  by (induction es) (auto simp: erase_def fun_eq_iff)

text \<open>On sorted entries a seek is a filter.\<close>

lemma lower_bound_filter: "sorted_keys es \<Longrightarrow> lower_bound k es = filter (\<lambda>e. k \<le> fst e) es"
proof (induction es)
  case (Cons e es)
  show ?case
  proof (cases "fst e < k")
    case False
    with Cons.prems have "\<forall>x \<in> set es. k \<le> fst x" by fastforce
    then have "filter (\<lambda>e. k \<le> fst e) es = es" by (simp add: filter_id_conv)
    then show ?thesis using False by (simp add: lower_bound_def)
  qed (use Cons in \<open>auto simp: lower_bound_def not_le\<close>)
qed (simp add: lower_bound_def)

lemma takeWhile_sorted:
  "sorted_keys es \<Longrightarrow> takeWhile (\<lambda>e. fst e \<le> k) es = filter (\<lambda>e. fst e \<le> k) es"
proof (induction es)
  case (Cons e es)
  show ?case
  proof (cases "fst e \<le> k")
    case False
    with Cons.prems have "filter (\<lambda>e. fst e \<le> k) es = []" by (fastforce simp: filter_empty_conv)
    then show ?thesis using False by simp
  qed (use Cons in simp)
qed simp

lemma sorted_keys_ext:
  assumes "sorted_keys xs" and "sorted_keys ys" and "map_of xs = map_of ys"
  shows "xs = ys"
proof (rule map_sorted_distinct_set_unique [of fst])
  show d: "sorted (map fst xs)" "distinct (map fst xs)" "sorted (map fst ys)" "distinct (map fst ys)"
    using assms(1,2) by (auto simp: strict_sorted_iff)
  show eq: "set xs = set ys"
    using assms(3) d(2,4) map_of_eq_Some_iff [of xs] map_of_eq_Some_iff [of ys] by auto
  show "inj_on fst (set xs \<union> set ys)" using d(2) eq by (simp add: distinct_map)
qed

section \<open>The operations\<close>

record ('d, 'i) db_ops =
  Get :: "'d \<Rightarrow> string \<Rightarrow> string option"
  Put :: "'d \<Rightarrow> string \<Rightarrow> string \<Rightarrow> 'd \<times> bool"
  Delete :: "'d \<Rightarrow> string \<Rightarrow> 'd \<times> bool"
  NewIterator :: "'d \<Rightarrow> 'i"
  SeekToFirst :: "'i \<Rightarrow> 'i"
  Seek :: "'i \<Rightarrow> string \<Rightarrow> 'i"
  Valid :: "'i \<Rightarrow> bool"
  Next :: "'i \<Rightarrow> 'i"
  key_at :: "'i \<Rightarrow> string"
  value_at :: "'i \<Rightarrow> string"

text \<open>\<open>Next()\<close> requires \<open>Valid()\<close>; a call on an iterator at the end is undefined.\<close>

definition next_at :: "('d, 'i) db_ops \<Rightarrow> 'i \<Rightarrow> 'i res" where
  "next_at D it = (if Valid D it then Inr (Next D it) else Inl Out_of_bounds)"

locale ordered_store =
  fixes D :: "('d, 'i) db_ops" and inv :: "'d \<Rightarrow> bool" and entries :: "'d \<Rightarrow> entry list"
    and view :: "'i \<Rightarrow> entry list" and rest :: "'i \<Rightarrow> entry list"
  assumes entries_sorted: "inv d \<Longrightarrow> sorted_keys (entries d)"
    and new_iterator: "inv d \<Longrightarrow> view (NewIterator D d) = entries d"
    and seek_to_first: "rest (SeekToFirst D i) = view i"
    and seek: "rest (Seek D i k) = lower_bound k (view i)"
    and valid: "Valid D i \<longleftrightarrow> rest i \<noteq> []"
    and step: "rest i = e # es \<Longrightarrow> rest (Next D i) = es"
    and key_entry: "rest i = e # es \<Longrightarrow> key_at D i = fst e"
    and value_entry: "rest i = e # es \<Longrightarrow> value_at D i = snd e"
    and put_inv: "inv d \<Longrightarrow> Put D d k v = (d', b) \<Longrightarrow> inv d'"
    and put_entries: "inv d \<Longrightarrow> Put D d k v = (d', True) \<Longrightarrow> entries d' = ins k v (entries d)"
    and delete_inv: "inv d \<Longrightarrow> Delete D d k = (d', b) \<Longrightarrow> inv d'"
    and delete_entries: "inv d \<Longrightarrow> Delete D d k = (d', True) \<Longrightarrow> entries d' = erase k (entries d)"
begin

text \<open>The contents as a map.\<close>

definition contents :: "'d \<Rightarrow> string \<Rightarrow> string option" where
  "contents d = map_of (entries d)"

lemma put_contents:
  "inv d \<Longrightarrow> Put D d k v = (d', True) \<Longrightarrow> contents d' = (contents d)(k \<mapsto> v)"
  by (simp add: contents_def put_entries map_of_ins entries_sorted)

lemma delete_contents:
  "inv d \<Longrightarrow> Delete D d k = (d', True) \<Longrightarrow> contents d' = (contents d)(k := None)"
  by (simp add: contents_def delete_entries map_of_erase)

lemma not_valid: "\<not> Valid D i \<longleftrightarrow> rest i = []"
  by (simp add: valid)

end

locale readable_store = ordered_store +
  assumes get: "inv d \<Longrightarrow> Get D d k = map_of (entries d) k"

locale leveldb = readable_store +
  assumes put_ok: "inv d \<Longrightarrow> snd (Put D d k v)"
    and delete_ok: "inv d \<Longrightarrow> snd (Delete D d k)"
begin

lemma put_result: "inv d \<Longrightarrow> \<exists>d'. Put D d k v = (d', True)"
  using put_ok [of d k v] by (cases "Put D d k v") auto

lemma delete_result: "inv d \<Longrightarrow> \<exists>d'. Delete D d k = (d', True)"
  using delete_ok [of d k] by (cases "Delete D d k") auto

lemma fst_put:
  "inv d \<Longrightarrow> inv (fst (Put D d k v)) \<and> entries (fst (Put D d k v)) = ins k v (entries d)"
  using put_result [of d k v] put_inv put_entries by fastforce

lemma fst_delete:
  "inv d \<Longrightarrow> inv (fst (Delete D d k)) \<and> entries (fst (Delete D d k)) = erase k (entries d)"
  using delete_result [of d k] delete_inv delete_entries by fastforce

end

section \<open>The store in memory\<close>

text \<open>
  \<open>ldb_mem_db\<close> keeps a \<open>std::map\<close>; its iterator refers to the map and to a position in it.
  \<open>Get\<close> reads \<open>data[key]\<close>, which inserts a missing key with an empty value, stores a new
  string in its own pointer parameter and reports success: the caller's string \<open>r\<close> keeps
  its value. The other operations are collected by \<open>mem_ops\<close>, over any \<open>Get\<close>.
\<close>

type_synonym mem_iterator = "entry list \<times> entry list"

definition ldb_mem_Get :: "entry list \<Rightarrow> string \<Rightarrow> string \<Rightarrow> entry list \<times> string \<times> bool" where
  "ldb_mem_Get d k r = (if map_of d k = None then ins k [] d else d, r, True)"

definition mem_ops :: "(entry list \<Rightarrow> string \<Rightarrow> string option) \<Rightarrow> (entry list, mem_iterator) db_ops" where
  "mem_ops get =
     \<lparr>Get = get,
      Put = (\<lambda>d k v. (ins k v d, True)),
      Delete = (\<lambda>d k. (erase k d, True)),
      NewIterator = (\<lambda>d. (d, d)),
      SeekToFirst = (\<lambda>(d, p). (d, d)),
      Seek = (\<lambda>(d, p) k. (d, lower_bound k d)),
      Valid = (\<lambda>(d, p). p \<noteq> []),
      Next = (\<lambda>(d, p). (d, tl p)),
      key_at = (\<lambda>(d, p). fst (hd p)),
      value_at = (\<lambda>(d, p). snd (hd p))\<rparr>"

text \<open>A store that meets LevelDB's documentation: the class with a \<open>Get\<close> that looks up.\<close>

definition std_map_ops :: "(entry list, mem_iterator) db_ops" where
  "std_map_ops = mem_ops map_of"

lemmas mem_ops_defs = mem_ops_def std_map_ops_def

interpretation ldb_mem: ordered_store "mem_ops g" sorted_keys id fst snd for g
  by unfold_locales (auto simp: mem_ops_def sorted_ins sorted_erase)

interpretation std_map: leveldb std_map_ops sorted_keys id fst snd
  by unfold_locales (auto simp: mem_ops_defs sorted_ins sorted_erase)

text \<open>Reading changes the store in memory and never delivers the value.\<close>

lemma ldb_mem_Get_wrong:
  "v \<noteq> [] \<Longrightarrow> fst (snd (ldb_mem_Get (fst (Put (mem_ops g) d k v)) k [])) \<noteq> v"
  "sorted_keys d \<Longrightarrow> map_of d k = None \<Longrightarrow> map_of (fst (ldb_mem_Get d k r)) k = Some []"
  by (auto simp: ldb_mem_Get_def map_of_ins)

end
