(* ===== verification/Replication.thy ===== *)
theory Replication
  imports Requests Store
begin

text \<open>
  The replication master, \<open>src/replication.hpp\<close>. A \<open>Client_t\<close> is a slave: it is first sent
  the whole store in portions (\<open>syncing\<close>), then, once every portion is confirmed
  (\<open>sync_finishing\<close>), the updates that were queued meanwhile (\<open>running\<close>).

  The connection is the list of what was sent over it, in order: a \<open>Request\<close> of the slave's
  method with its parameters, or a \<open>Schedule\<close>, the detached thread that calls
  \<open>_push_queue_items\<close> one millisecond later. An operation maps the client and this list to new
  ones and a result; an exception keeps both as they are when it is thrown. The operations
  hold \<open>mtx\<close> while they run, so each is one step.
\<close>

section \<open>Clients\<close>

datatype client_state = not_ready | syncing | sync_finishing | running

record Client_t =
  cl_id :: string
  cl_state :: client_state
  current_keys :: "string list"
  queue :: "(string \<times> string) list"
  queue_pipelined :: int

datatype effect = Request string string | Schedule

type_synonym conn = "effect list"

type_synonym 'a outcome = "(exn \<times> Client_t \<times> conn) + ('a \<times> Client_t \<times> conn)"

definition new_client :: Client_t where
  "new_client = \<lparr>cl_id = [], cl_state = not_ready, current_keys = [], queue = [], queue_pipelined = 0\<rparr>"

definition pipeline_size :: int where "pipeline_size = 100"

definition current :: "Client_t \<Rightarrow> string" where
  "current cl = (if current_keys cl = [] then [] else last (current_keys cl))"

definition enqueue :: "Client_t \<Rightarrow> string \<times> string \<Rightarrow> Client_t" where
  "enqueue cl buf = cl\<lparr>queue := queue cl @ [buf]\<rparr>"

definition send :: "'a codec \<Rightarrow> Client_t \<Rightarrow> string \<Rightarrow> 'a \<Rightarrow> Client_t" where
  "send T cl cmd x = enqueue cl (cmd, ser T x)"

definition state_name :: "client_state \<Rightarrow> string" where
  "state_name st = (case st of not_ready \<Rightarrow> ''not_ready'' | syncing \<Rightarrow> ''syncing''
     | sync_finishing \<Rightarrow> ''sync_finishing'' | running \<Rightarrow> ''running'')"

text \<open>\<open>sstr << queue.size()\<close> prints a decimal number, like the integer serializer.\<close>

definition write_status :: "Client_t \<Rightarrow> string" where
  "write_status cl =
     CHR ''{'' # DQ # ''id'' @ DQ # CHR '':'' # DQ # cl_id cl @ DQ # CHR '','' # DQ # ''state'' @
     DQ # CHR '':'' # DQ # state_name (cl_state cl) @ DQ # CHR '','' # DQ # ''queue'' @
     DQ # CHR '':'' # serialize_integer c_long_long (int (length (queue cl))) @
     CHR '','' # DQ # ''current'' @ DQ # CHR '':'' # ser string_codec (current cl) @ ''}''"

section \<open>The first copy\<close>

text \<open>The loop of \<open>_push_next_portion\<close>: at most \<open>n\<close> entries from the iterator on.\<close>

fun collect :: "('d, 'i) db_ops \<Rightarrow> nat \<Rightarrow> 'i \<Rightarrow> entry list" where
  "collect D 0 it = []"
| "collect D (Suc n) it =
     (if Valid D it then (key_at D it, value_at D it) # collect D n (Next D it) else [])"

definition portion_start :: "('d, 'i) db_ops \<Rightarrow> 'd \<Rightarrow> string \<Rightarrow> 'i res" where
  "portion_start D d from =
     (let it = NewIterator D d in
      if from \<noteq> [] then next_at D (Seek D it from) else Inr (SeekToFirst D it))"

definition push_next_portion ::
  "('d, 'i) db_ops \<Rightarrow> 'd \<Rightarrow> string \<Rightarrow> Client_t \<Rightarrow> conn \<Rightarrow> string outcome" where
  "push_next_portion D d from cl conn =
     (case portion_start D d from of
        Inl e \<Rightarrow> Inl (e, cl, conn)
      | Inr it \<Rightarrow>
          let data = collect D 1000 it;
              conn = conn @ [Request ''set'' (ser valmap2str_json data)];
              key = (if data \<noteq> [] then fst (last data) else from);
              cl = (if data \<noteq> [] then cl else cl\<lparr>cl_state := sync_finishing\<rparr>)
          in Inr (key, cl\<lparr>current_keys := current_keys cl @ [key]\<rparr>, conn))"

fun sync_portions ::
  "('d, 'i) db_ops \<Rightarrow> 'd \<Rightarrow> nat \<Rightarrow> string \<Rightarrow> Client_t \<Rightarrow> conn \<Rightarrow> string outcome" where
  "sync_portions D d 0 key cl conn = Inr (key, cl, conn)"
| "sync_portions D d (Suc n) key cl conn =
     bindE (push_next_portion D d key cl conn) (\<lambda>(key, cl, conn). sync_portions D d n key cl conn)"

definition sync_initial :: "('d, 'i) db_ops \<Rightarrow> 'd \<Rightarrow> Client_t \<Rightarrow> conn \<Rightarrow> unit outcome" where
  "sync_initial D d cl conn =
     bindE (sync_portions D d (nat pipeline_size) [] cl conn) (\<lambda>(key, cl, conn).
       Inr ((), cl\<lparr>cl_state := syncing\<rparr>, conn))"

section \<open>The queue of updates\<close>

text \<open>
  A queue item goes out as a call of the method its tag stands for. The tag \<open>_set_range_\<close> is
  attached to the method \<open>set\<close> in the method lists of \<open>src/fas_methods.hpp\<close>.
\<close>

definition item_request :: "string \<times> string \<Rightarrow> effect option" where
  "item_request item =
     (if fst item = ''del'' then Some (Request ''del'' (snd item))
      else if fst item = ''set'' then Some (Request ''set'' (snd item))
      else if fst item = ''set_range'' then Some (Request ''set'' (snd item))
      else None)"

fun push_items ::
  "(string \<times> string) list \<Rightarrow> Client_t \<Rightarrow> conn \<Rightarrow> unit outcome" where
  "push_items [] cl conn = Inr ((), cl, conn)"
| "push_items (item # items) cl conn =
     (if pipeline_size \<le> queue_pipelined cl then Inr ((), cl, conn)
      else case item_request item of
        None \<Rightarrow> Inl (Logic_error (fst item), cl, conn)
      | Some req \<Rightarrow>
          push_items items (cl\<lparr>queue_pipelined := queue_pipelined cl + 1\<rparr>) (conn @ [req]))"

definition push_queue_items :: "Client_t \<Rightarrow> conn \<Rightarrow> bool outcome" where
  "push_queue_items cl conn =
     (if queue cl = []
      then if queue_pipelined cl \<noteq> 0
           then Inl (Logic_error ''fail: Y R U PIPELINED?'', cl, conn)
           else Inr (False, cl, conn @ [Schedule])
      else if int (length (queue cl)) \<le> queue_pipelined cl then Inr (False, cl, conn)
      else if pipeline_size \<le> queue_pipelined cl then Inr (False, cl, conn)
      else bindE (push_items (drop (nat (queue_pipelined cl)) (queue cl)) cl conn)
             (\<lambda>(_, cl, conn). Inr (True, cl, conn)))"

definition sync_queue :: "Client_t \<Rightarrow> conn \<Rightarrow> unit outcome" where
  "sync_queue cl conn =
     bindE (push_queue_items (cl\<lparr>cl_state := running, queue_pipelined := 0\<rparr>) conn)
       (\<lambda>(_, cl, conn). Inr ((), cl, conn))"

text \<open>The body of the thread started by \<open>_schedule_queue\<close>, while the connection is open.\<close>

definition scheduled :: "bool \<Rightarrow> Client_t \<Rightarrow> conn \<Rightarrow> unit outcome" where
  "scheduled status cl conn =
     (if \<not> status then Inr ((), cl, conn)
      else bindE (push_queue_items cl conn) (\<lambda>(_, cl, conn). Inr ((), cl, conn)))"

definition on_confirm :: "('d, 'i) db_ops \<Rightarrow> 'd \<Rightarrow> Client_t \<Rightarrow> conn \<Rightarrow> unit outcome" where
  "on_confirm D d cl conn =
     (if cl_state cl = syncing \<or> cl_state cl = sync_finishing
      then if current_keys cl = [] then Inl (Logic_error ''fail'', cl, conn)
           else let lst = last (current_keys cl);
                    cl = cl\<lparr>current_keys := tl (current_keys cl)\<rparr>
                in if cl_state cl = syncing
                   then bindE (push_next_portion D d lst cl conn) (\<lambda>(_, cl, conn). Inr ((), cl, conn))
                   else if current_keys cl = [] then sync_queue cl conn
                   else Inr ((), cl, conn)
      else if cl_state cl = running
      then if queue cl = []
           then Inl (Logic_error ''fail: empty queue but something returned'', cl, conn)
           else bindE (push_queue_items
                        (cl\<lparr>queue_pipelined := queue_pipelined cl - 1, queue := tl (queue cl)\<rparr>) conn)
                  (\<lambda>(_, cl, conn). Inr ((), cl, conn))
      else Inr ((), cl, conn))"

section \<open>The master\<close>

text \<open>\<open>Replication::repClients\<close>; the order of the list is the order of iteration.\<close>

type_synonym rep_clients = "(string \<times> Client_t) list"

definition erase_client :: "string \<Rightarrow> rep_clients \<Rightarrow> rep_clients" where
  "erase_client cid rs = filter (\<lambda>e. fst e \<noteq> cid) rs"

definition put_client :: "string \<Rightarrow> Client_t \<Rightarrow> rep_clients \<Rightarrow> rep_clients" where
  "put_client cid cl rs =
     (if map_of rs cid = None then rs @ [(cid, cl)]
      else map (\<lambda>e. if fst e = cid then (cid, cl) else e) rs)"

definition store_outcome ::
  "string \<Rightarrow> rep_clients \<Rightarrow> 'a outcome \<Rightarrow> rep_clients \<times> conn \<times> exn option" where
  "store_outcome cid rs out =
     (case out of
        Inl (e, cl, conn) \<Rightarrow> (put_client cid cl rs, conn, Some e)
      | Inr (_, cl, conn) \<Rightarrow> (put_client cid cl rs, conn, None))"

definition add_client ::
  "('d, 'i) db_ops \<Rightarrow> 'd \<Rightarrow> string \<Rightarrow> string \<Rightarrow> rep_clients \<Rightarrow> conn \<Rightarrow> rep_clients \<times> conn \<times> exn option" where
  "add_client D d cid st rs conn =
     (let known = (map_of rs cid \<noteq> None) in
      if known \<and> st = ''stop'' then (erase_client cid rs, conn, None)
      else
      let rs = (if known \<and> st = ''start'' then erase_client cid rs else rs);
          st = (if \<not> known \<and> st = ''auto'' then ''start'' else st)
      in if st = ''stop'' then (rs, conn, None)
      else
      let cl = (case map_of rs cid of None \<Rightarrow> new_client\<lparr>cl_id := cid\<rparr> | Some cl \<Rightarrow> cl)
      in if st = ''start''
         then store_outcome cid rs (sync_initial D d (cl\<lparr>cl_state := not_ready\<rparr>) conn)
         else store_outcome cid rs (sync_queue (cl\<lparr>cl_state := running\<rparr>) conn))"

text \<open>\<open>_send_to_clients\<close>; \<open>part\<close> is the callback, which selects what a syncing client needs.\<close>

definition send_to_client ::
  "'a list codec \<Rightarrow> string \<Rightarrow> 'a list \<Rightarrow> ('a list \<Rightarrow> string \<Rightarrow> 'a list) \<Rightarrow> Client_t \<Rightarrow> Client_t" where
  "send_to_client T str data part cl =
     (if cl_state cl = running then send T cl str data
      else if cl_state cl = syncing
      then let partial = part data (current cl) in
           if partial \<noteq> [] then send T cl str partial else cl
      else cl)"

definition send_to_clients ::
  "'a list codec \<Rightarrow> string \<Rightarrow> 'a list \<Rightarrow> ('a list \<Rightarrow> string \<Rightarrow> 'a list) \<Rightarrow> rep_clients \<Rightarrow> rep_clients" where
  "send_to_clients T str data part rs =
     (if data = [] then rs else map (\<lambda>(cid, cl). (cid, send_to_client T str data part cl)) rs)"

definition pairs_below :: "(string \<times> 'v) list \<Rightarrow> string \<Rightarrow> (string \<times> 'v) list" where
  "pairs_below data key = filter (\<lambda>e. fst e < key) data"

definition keys_below :: "string list \<Rightarrow> string \<Rightarrow> string list" where
  "keys_below data key = filter (\<lambda>k. k < key) data"

definition rep_set :: "valmap2str \<Rightarrow> rep_clients \<Rightarrow> rep_clients" where
  "rep_set data rs = send_to_clients valmap2str_json ''set'' data pairs_below rs"

definition rep_set_range :: "valmap2str \<Rightarrow> rep_clients \<Rightarrow> rep_clients" where
  "rep_set_range data rs = send_to_clients valmap2str_json ''set_range'' data pairs_below rs"

definition rep_del :: "vallist \<Rightarrow> rep_clients \<Rightarrow> rep_clients" where
  "rep_del data rs = send_to_clients vallist_json ''del'' data keys_below rs"

section \<open>Portions of a store\<close>

text \<open>\<open>portion es i\<close> is the \<open>i\<close>-th thousand of the entries, \<open>mark es i\<close> the last key before it.\<close>

definition portion :: "entry list \<Rightarrow> nat \<Rightarrow> entry list" where
  "portion es i = take 1000 (drop (1000 * i) es)"

definition mark :: "entry list \<Rightarrow> nat \<Rightarrow> string" where
  "mark es i = (if take (1000 * i) es = [] then [] else fst (last (take (1000 * i) es)))"

definition portion_request :: "entry list \<Rightarrow> effect" where
  "portion_request data = Request ''set'' (ser valmap2str_json data)"

lemma portion_append: "take (1000 * Suc i) es = take (1000 * i) es @ portion es i"
  by (simp add: portion_def take_add [symmetric] add.commute)

lemma concat_portions: "concat (map (portion es) [0..<n]) = take (1000 * n) es"
  by (induction n) (simp_all add: portion_append [symmetric])

lemma mark_Suc:
  "mark es (Suc i) = (if portion es i \<noteq> [] then fst (last (portion es i)) else mark es i)"
  unfolding mark_def portion_append by auto

lemma last_take_nth:
  assumes "take n xs \<noteq> []"
  shows "last (take n xs) = xs ! (length (take n xs) - 1)"
proof -
  have "length (take n xs) - 1 < n" using assms by (cases n; cases xs) auto
  then show ?thesis using last_conv_nth [OF assms] nth_take by metis
qed

text \<open>Seeking a key that is there finds it.\<close>

lemma lower_bound_nth:
  "sorted_keys es \<Longrightarrow> k < length es \<Longrightarrow> lower_bound (fst (es ! k)) es = drop k es"
proof (induction es arbitrary: k)
  case (Cons e es)
  show ?case
  proof (cases k)
    case (Suc j)
    with Cons.prems have "fst e < fst (es ! j)" by simp
    with Cons Suc show ?thesis by (simp add: lower_bound_def)
  qed (simp add: lower_bound_def)
qed (simp add: lower_bound_def)

text \<open>The empty string serves as "from the beginning", so it must not be the last key.\<close>

definition syncable :: "entry list \<Rightarrow> bool" where
  "syncable es \<longleftrightarrow> sorted_keys es \<and> (es = [] \<or> fst (last es) \<noteq> [])"

lemma mark_nonempty:
  assumes "syncable es" and "take (1000 * i) es \<noteq> []"
  shows "mark es i \<noteq> []"
proof
  assume m: "mark es i = []"
  let ?t = "take (1000 * i) es"
  have i: "0 < i" using assms(2) by (cases i) auto
  show False
  proof (cases "length es = 1")
    case True
    with i have "?t = es" by simp
    with m assms show False by (auto simp: mark_def syncable_def)
  next
    case False
    with assms(2) have len: "1 < length es" by (cases es) auto
    have lt: "1 < length ?t" using len i by (cases i) auto
    have "last ?t = es ! (length ?t - 1)" by (rule last_take_nth [OF assms(2)])
    moreover have "fst (es ! 0) < fst (es ! j)" if "0 < j" "j < length es" for j
      using assms(1) that by (simp add: syncable_def sorted_wrt_iff_nth_less)
    from this [of "length ?t - 1"] have "fst (es ! 0) < fst (es ! (length ?t - 1))"
      using lt by (simp add: min_def split: if_splits)
    ultimately have "fst (es ! 0) < []" using m assms(2) by (simp add: mark_def)
    then show False by simp
  qed
qed

context ordered_store
begin

lemma collect_rest: "collect D n it = take n (rest it)"
proof (induction n arbitrary: it)
  case (Suc n)
  then show ?case
    by (cases "rest it") (auto simp: valid key_entry value_entry step)
qed simp

lemma portion_start_mark:
  assumes "inv d" and "syncable (entries d)"
  shows "\<exists>it. portion_start D d (mark (entries d) i) = Inr it \<and> rest it = drop (1000 * i) (entries d)"
proof (cases "take (1000 * i) (entries d) = []")
  case True
  then have "mark (entries d) i = []" "drop (1000 * i) (entries d) = entries d"
    by (auto simp: mark_def)
  then show ?thesis
    using assms(1) by (simp add: portion_start_def seek_to_first new_iterator)
next
  case False
  let ?es = "entries d" let ?k = "length (take (1000 * i) ?es) - 1"
  have k: "?k < length ?es" "Suc ?k = length (take (1000 * i) ?es)"
    using False by (auto simp: min_def)
  have "mark ?es i = fst (?es ! ?k)"
    using False by (simp only: mark_def last_take_nth [OF False] if_False)
  then have seek: "rest (Seek D (NewIterator D d) (mark ?es i)) = drop ?k ?es"
    using lower_bound_nth [of ?es ?k] k assms by (simp add: seek new_iterator syncable_def)
  then obtain e where e: "rest (Seek D (NewIterator D d) (mark ?es i)) = e # drop (Suc ?k) ?es"
    using k(1) by (metis Cons_nth_drop_Suc)
  have "drop (Suc ?k) ?es = drop (1000 * i) ?es" unfolding k(2) by (auto simp: min_def)
  with e step [OF e] mark_nonempty [OF assms(2) False] show ?thesis
    by (simp add: portion_start_def next_at_def valid)
qed

text \<open>While the store does not change, the \<open>i\<close>-th portion is what is sent \<open>i\<close>-th.\<close>

lemma push_portion:
  assumes "inv d" and "syncable (entries d)"
  shows "push_next_portion D d (mark (entries d) i) cl conn =
    Inr (mark (entries d) (Suc i),
         (if portion (entries d) i \<noteq> [] then cl else cl\<lparr>cl_state := sync_finishing\<rparr>)
           \<lparr>current_keys := current_keys cl @ [mark (entries d) (Suc i)]\<rparr>,
         conn @ [portion_request (portion (entries d) i)])"
proof -
  obtain it where it: "portion_start D d (mark (entries d) i) = Inr it"
    and r: "rest it = drop (1000 * i) (entries d)"
    using portion_start_mark [OF assms] by blast
  have "collect D 1000 it = portion (entries d) i" by (simp add: collect_rest r portion_def)
  then show ?thesis
    by (simp add: push_next_portion_def it portion_request_def mark_Suc Let_def)
qed

lemma sync_portions_from:
  assumes "inv d" and "syncable (entries d)"
  shows "\<exists>st. sync_portions D d n (mark (entries d) i) cl conn =
    Inr (mark (entries d) (i + n),
         cl\<lparr>cl_state := st, current_keys := current_keys cl @ map (mark (entries d)) [Suc i..<Suc (i + n)]\<rparr>,
         conn @ map (portion_request \<circ> portion (entries d)) [i..<i + n])"
proof (induction n arbitrary: i cl conn)
  case 0
  show ?case by (rule exI [of _ "cl_state cl"]) simp
next
  case (Suc n)
  let ?cl = "(if portion (entries d) i \<noteq> [] then cl else cl\<lparr>cl_state := sync_finishing\<rparr>)
     \<lparr>current_keys := current_keys cl @ [mark (entries d) (Suc i)]\<rparr>"
  obtain st where "sync_portions D d n (mark (entries d) (Suc i)) ?cl
      (conn @ [portion_request (portion (entries d) i)]) =
    Inr (mark (entries d) (Suc i + n),
         ?cl\<lparr>cl_state := st, current_keys := current_keys ?cl @
           map (mark (entries d)) [Suc (Suc i)..<Suc (Suc i + n)]\<rparr>,
         (conn @ [portion_request (portion (entries d) i)]) @
           map (portion_request \<circ> portion (entries d)) [Suc i..<Suc i + n])"
    using Suc.IH by blast
  moreover have "[i..<i + Suc n] = i # [Suc i..<Suc i + n]" by (simp add: upt_conv_Cons)
  moreover have "[Suc i..<Suc (i + Suc n)] = Suc i # [Suc (Suc i)..<Suc (Suc i + n)]"
    by (simp add: upt_conv_Cons)
  ultimately show ?case
    by (auto simp del: upt_Suc simp: push_portion [OF assms])
qed

text \<open>A confirmation while syncing sends the next portion.\<close>

lemma syncing_confirm:
  assumes "inv d" and "syncable (entries d)"
    and "cl_state cl = syncing" and "current_keys cl \<noteq> []" and "last (current_keys cl) = mark (entries d) i"
  shows "on_confirm D d cl conn =
    Inr ((), cl\<lparr>cl_state := (if portion (entries d) i \<noteq> [] then syncing else sync_finishing),
                current_keys := tl (current_keys cl) @ [mark (entries d) (Suc i)]\<rparr>,
         conn @ [portion_request (portion (entries d) i)])"
  using assms(3-5) by (auto simp: on_confirm_def Let_def push_portion [OF assms(1,2)])

end

text \<open>Several confirmations in a row.\<close>

fun confirms :: "('d, 'i) db_ops \<Rightarrow> 'd \<Rightarrow> nat \<Rightarrow> Client_t \<Rightarrow> conn \<Rightarrow> unit outcome" where
  "confirms D d 0 cl conn = Inr ((), cl, conn)"
| "confirms D d (Suc n) cl conn =
     bindE (on_confirm D d cl conn) (\<lambda>(_, cl, conn). confirms D d n cl conn)"

lemma confirms_add:
  "confirms D d (m + n) cl conn =
     bindE (confirms D d m cl conn) (\<lambda>(_, cl, conn). confirms D d n cl conn)"
  by (induction m arbitrary: cl conn) (auto simp: bindE_def split: sum.splits prod.splits)

lemma finishing_confirms:
  "cl_state cl = sync_finishing \<Longrightarrow> n < length (current_keys cl) \<Longrightarrow>
     confirms D d n cl conn = Inr ((), cl\<lparr>current_keys := drop n (current_keys cl)\<rparr>, conn)"
proof (induction n arbitrary: cl)
  case (Suc n)
  let ?cl = "cl\<lparr>current_keys := tl (current_keys cl)\<rparr>"
  have "tl (current_keys cl) \<noteq> []" using Suc.prems by (cases "current_keys cl") auto
  then have "on_confirm D d cl conn = Inr ((), ?cl, conn)"
    using Suc.prems by (auto simp: on_confirm_def Let_def)
  moreover have "confirms D d n ?cl conn = Inr ((), ?cl\<lparr>current_keys := drop n (current_keys ?cl)\<rparr>, conn)"
    using Suc.prems by (intro Suc.IH) auto
  ultimately show ?case by (simp add: drop_Suc)
qed simp

lemma finishing_last:
  "cl_state cl = sync_finishing \<Longrightarrow> length (current_keys cl) = 1 \<Longrightarrow>
     on_confirm D d cl conn = sync_queue (cl\<lparr>current_keys := []\<rparr>) conn"
  by (cases "current_keys cl") (auto simp: on_confirm_def Let_def)

context ordered_store
begin

lemma syncing_confirms:
  assumes "inv d" and "syncable (entries d)"
  shows "\<forall>j \<in> {i..<i + n}. portion (entries d) j \<noteq> [] \<Longrightarrow> cl_state cl = syncing \<Longrightarrow>
      current_keys cl \<noteq> [] \<Longrightarrow> last (current_keys cl) = mark (entries d) i \<Longrightarrow>
    \<exists>ks. confirms D d n cl conn =
      Inr ((), cl\<lparr>current_keys := ks\<rparr>, conn @ map (portion_request \<circ> portion (entries d)) [i..<i + n]) \<and>
      length ks = length (current_keys cl) \<and> last ks = mark (entries d) (i + n)"
proof (induction n arbitrary: i cl conn)
  case 0
  then show ?case by (auto intro!: exI [of _ "current_keys cl"])
next
  case (Suc n)
  let ?ks = "tl (current_keys cl) @ [mark (entries d) (Suc i)]"
  have len: "length ?ks = length (current_keys cl)" using Suc.prems(3) by (cases "current_keys cl") auto
  have p: "portion (entries d) i \<noteq> []" using Suc.prems(1) by auto
  have "\<exists>ks. confirms D d n (cl\<lparr>current_keys := ?ks\<rparr>)
       (conn @ [portion_request (portion (entries d) i)]) =
      Inr ((), cl\<lparr>current_keys := ?ks\<rparr>\<lparr>current_keys := ks\<rparr>,
       (conn @ [portion_request (portion (entries d) i)]) @
         map (portion_request \<circ> portion (entries d)) [Suc i..<Suc i + n]) \<and>
      length ks = length (current_keys (cl\<lparr>current_keys := ?ks\<rparr>)) \<and>
      last ks = mark (entries d) (Suc i + n)"
    using Suc.prems by (intro Suc.IH) auto
  moreover have "[i..<i + Suc n] = i # [Suc i..<Suc i + n]" by (simp add: upt_conv_Cons)
  moreover have "cl\<lparr>cl_state := syncing, current_keys := ?ks\<rparr> = cl\<lparr>current_keys := ?ks\<rparr>"
    using Suc.prems(2) by simp
  ultimately show ?case
    using syncing_confirm [OF assms Suc.prems(2-4), of conn] p len
    by (auto simp del: upt_Suc)
qed

end

text \<open>How many portions are not empty, and how many confirmations end the synchronisation.\<close>

definition portions :: "entry list \<Rightarrow> nat" where
  "portions es = (length es + 999) div 1000"

lemma portion_nonempty: "portion es i \<noteq> [] \<longleftrightarrow> i < portions es"
proof -
  have "portion es i \<noteq> [] \<longleftrightarrow> 1000 * i < length es" by (auto simp: portion_def)
  also have "\<dots> \<longleftrightarrow> i < portions es" by (auto simp: portions_def)
  finally show ?thesis .
qed

lemma portion_empty: "portions es \<le> i \<Longrightarrow> portion es i = []"
  using portion_nonempty [of es i] by linarith

definition sync_rounds :: "entry list \<Rightarrow> nat" where
  "sync_rounds es = (portions es - 100) + 1"

lemma all_portions: "concat (map (portion es) [0..<100 + sync_rounds es]) = es"
proof -
  have "portion es (100 + sync_rounds es) = []"
    by (rule portion_empty) (simp add: sync_rounds_def)
  then have "length es \<le> 1000 * (100 + sync_rounds es)" by (simp add: portion_def)
  then show ?thesis unfolding concat_portions by simp
qed

context ordered_store
begin

lemma initial_sync:
  assumes "inv d" and "syncable (entries d)" and "queue cl = []" and "current_keys cl = []"
  shows "bindE (sync_initial D d cl []) (\<lambda>(_, cl, conn). confirms D d (sync_rounds (entries d) + 100) cl conn) =
    Inr ((), cl\<lparr>cl_state := running, queue_pipelined := 0\<rparr>,
         map (portion_request \<circ> portion (entries d)) [0..<100 + sync_rounds (entries d)] @ [Schedule])"
proof -
  let ?es = "entries d" let ?m = "portions ?es - 100"
  let ?sent = "\<lambda>n. map (portion_request \<circ> portion ?es) [0..<n]"
  obtain st where "sync_portions D d 100 (mark ?es 0) cl [] =
      Inr (mark ?es 100, cl\<lparr>cl_state := st, current_keys := map (mark ?es) [Suc 0..<Suc 100]\<rparr>, ?sent 100)"
    using sync_portions_from [OF assms(1,2), of 100 0 cl "[]"] assms(4) by auto
  then have init: "sync_initial D d cl [] =
      Inr ((), cl\<lparr>cl_state := syncing, current_keys := map (mark ?es) [Suc 0..<Suc 100]\<rparr>, ?sent 100)"
    by (simp add: sync_initial_def pipeline_size_def mark_def)
  let ?cl = "cl\<lparr>cl_state := syncing, current_keys := map (mark ?es) [Suc 0..<Suc 100]\<rparr>"
  have "\<forall>j \<in> {100..<100 + ?m}. portion ?es j \<noteq> []" by (auto simp: portion_nonempty)
  then obtain ks where ks: "confirms D d ?m ?cl (?sent 100) = Inr ((), ?cl\<lparr>current_keys := ks\<rparr>,
        ?sent 100 @ map (portion_request \<circ> portion ?es) [100..<100 + ?m])"
      "length ks = 100" "last ks = mark ?es (100 + ?m)"
    using syncing_confirms [OF assms(1,2), of 100 ?m ?cl "?sent 100"] by (auto simp: last_map)
  have sent: "?sent 100 @ map (portion_request \<circ> portion ?es) [100..<100 + ?m] = ?sent (100 + ?m)"
    by (simp only: map_append [symmetric] upt_add_eq_append [of 0 100 ?m, symmetric] le0)
  let ?ks = "tl ks @ [mark ?es (Suc (100 + ?m))]"
  define k where "k = 100 + ?m"
  have "portion ?es k = []" by (rule portion_empty) (simp add: k_def)
  then have more: "?sent (Suc k) = ?sent k @ [portion_request (portion ?es k)]" by simp
  have "ks \<noteq> []" using ks(2) by auto
  then have fin: "confirms D d (?m + 1) ?cl (?sent 100) =
      Inr ((), cl\<lparr>cl_state := sync_finishing, current_keys := ?ks\<rparr>, ?sent (Suc k))"
    using syncing_confirm [OF assms(1,2), of "?cl\<lparr>current_keys := ks\<rparr>" k "?sent k"] ks(3)
      \<open>portion ?es k = []\<close>
    unfolding confirms_add ks(1) sent more by (simp flip: k_def)
  have "length ?ks = 100" using ks(2) by simp
  then have "confirms D d (99 + 1) (cl\<lparr>cl_state := sync_finishing, current_keys := ?ks\<rparr>) conn =
      sync_queue (cl\<lparr>cl_state := sync_finishing, current_keys := []\<rparr>) conn" for conn
    unfolding confirms_add by (simp add: finishing_confirms finishing_last bindE_def split: sum.splits)
  moreover have "sync_queue (cl\<lparr>cl_state := sync_finishing, current_keys := []\<rparr>) conn =
      Inr ((), cl\<lparr>cl_state := running, queue_pipelined := 0\<rparr>, conn @ [Schedule])" for conn
    using assms(3,4) by (simp add: sync_queue_def push_queue_items_def)
  ultimately have tail: "confirms D d 100 (cl\<lparr>cl_state := sync_finishing, current_keys := ?ks\<rparr>) conn =
      Inr ((), cl\<lparr>cl_state := running, queue_pipelined := 0\<rparr>, conn @ [Schedule])" for conn
    by simp
  have "confirms D d (?m + 1 + 100) ?cl (?sent 100) =
      Inr ((), cl\<lparr>cl_state := running, queue_pipelined := 0\<rparr>, ?sent (Suc k) @ [Schedule])"
    by (subst confirms_add, subst fin) (simp only: bindE_simps prod.case tail)
  moreover have "Suc k = 100 + sync_rounds ?es" "?m + 1 + 100 = sync_rounds ?es + 100"
    by (simp_all add: k_def sync_rounds_def)
  ultimately show ?thesis by (simp only: init bindE_simps prod.case)
qed

end

end
