(* ===== verification/Replication_Queue.thy ===== *)
theory Replication_Queue
  imports Replication
begin

text \<open>
  The update queue of a running slave as a state machine. Three things happen to a client
  in state \<open>running\<close>, in any order: an update is queued (\<open>_send_to_clients\<close>), the slave confirms
  a request that is under way (\<open>on_confirm\<close>), and a scheduled check of the queue runs. The
  machine starts where \<open>sync_queue\<close> leaves the client, on a fresh connection. Its invariant
  gives the promise of the protocol: the slave receives every update once, in the order in
  which they were queued, and the \<open>logic_error\<close>s of the code are never thrown.
\<close>

section \<open>The machine\<close>

record rsys =
  rc :: Client_t
  rconn :: conn
  enq :: "(string \<times> string) list"
  acked :: nat
  ticks :: nat

definition requests :: "conn \<Rightarrow> conn" where
  "requests conn = filter (\<lambda>e. e \<noteq> Schedule) conn"

definition schedules :: "conn \<Rightarrow> nat" where
  "schedules conn = length (filter (\<lambda>e. e = Schedule) conn)"

definition known_item :: "string \<times> string \<Rightarrow> bool" where
  "known_item item \<longleftrightarrow> item_request item \<noteq> None"

inductive run_start :: "rsys \<Rightarrow> bool" where
  "list_all known_item (queue cl) \<Longrightarrow> sync_queue cl [] = Inr ((), cl', conn') \<Longrightarrow>
     run_start \<lparr>rc = cl', rconn = conn', enq = queue cl, acked = 0, ticks = 0\<rparr>"

inductive run_step :: "('d, 'i) db_ops \<Rightarrow> rsys \<Rightarrow> rsys \<Rightarrow> bool" for D where
  Update: "known_item item \<Longrightarrow>
     run_step D s (s\<lparr>rc := enqueue (rc s) item, enq := enq s @ [item]\<rparr>)"
| Confirm: "acked s < length (requests (rconn s)) \<Longrightarrow> on_confirm D d (rc s) (rconn s) = Inr ((), cl, conn) \<Longrightarrow>
     run_step D s (s\<lparr>rc := cl, rconn := conn, acked := acked s + 1\<rparr>)"
| Tick: "ticks s < schedules (rconn s) \<Longrightarrow> scheduled True (rc s) (rconn s) = Inr ((), cl, conn) \<Longrightarrow>
     run_step D s (s\<lparr>rc := cl, rconn := conn, ticks := ticks s + 1\<rparr>)"

inductive_cases run_start_cases: "run_start s"
inductive_cases run_step_cases: "run_step D s s'"

inductive run_reach :: "('d, 'i) db_ops \<Rightarrow> rsys \<Rightarrow> bool" for D where
  start: "run_start s \<Longrightarrow> run_reach D s"
| step: "run_reach D s \<Longrightarrow> run_step D s s' \<Longrightarrow> run_reach D s'"

section \<open>Sending queue items\<close>

lemma requests_simps [simp]:
  "requests [] = []" "requests (c @ c') = requests c @ requests c'"
  "requests (e # c) = (if e = Schedule then requests c else e # requests c)"
  by (simp_all add: requests_def)

lemma schedules_simps [simp]:
  "schedules [] = 0" "schedules (c @ c') = schedules c + schedules c'"
  "schedules (e # c) = (if e = Schedule then 1 else 0) + schedules c"
  by (simp_all add: schedules_def)

lemma item_request_not_schedule: "item_request item = Some e \<Longrightarrow> e \<noteq> Schedule"
  by (auto simp: item_request_def split: if_splits)

definition item_requests :: "(string \<times> string) list \<Rightarrow> conn" where
  "item_requests items = map (the \<circ> item_request) items"

lemma item_requests_simps [simp]:
  "item_requests [] = []" "item_requests (i # is) = the (item_request i) # item_requests is"
  by (simp_all add: item_requests_def)

lemma list_all_tl: "list_all P xs \<Longrightarrow> list_all P (tl xs)"
  by (cases xs) auto

lemma requests_items:
  "list_all known_item items \<Longrightarrow>
     requests (item_requests items) = item_requests items \<and> schedules (item_requests items) = 0"
  by (induction items) (auto simp: known_item_def dest: item_request_not_schedule)

lemma push_items_result:
  "list_all known_item items \<Longrightarrow> queue_pipelined cl \<le> pipeline_size \<Longrightarrow>
     push_items items cl conn =
       (let n = min (length items) (nat (pipeline_size - queue_pipelined cl)) in
        Inr ((), cl\<lparr>queue_pipelined := queue_pipelined cl + int n\<rparr>,
             conn @ item_requests (take n items)))"
proof (induction items arbitrary: cl conn)
  case (Cons item items)
  show ?case
  proof (cases "queue_pipelined cl = pipeline_size")
    case False
    let ?cl = "cl\<lparr>queue_pipelined := queue_pipelined cl + 1\<rparr>"
    obtain req where req: "item_request item = Some req" using Cons.prems by (auto simp: known_item_def)
    have n: "nat (pipeline_size - queue_pipelined cl) = Suc (nat (pipeline_size - queue_pipelined ?cl))"
      using Cons.prems False by simp
    have "push_items (item # items) cl conn = push_items items ?cl (conn @ [req])"
      using Cons.prems False req by simp
    also have "\<dots> = (let n = min (length items) (nat (pipeline_size - queue_pipelined ?cl)) in
        Inr ((), ?cl\<lparr>queue_pipelined := queue_pipelined ?cl + int n\<rparr>,
             (conn @ [req]) @ item_requests (take n items)))"
      using Cons.prems False by (intro Cons.IH) auto
    finally show ?thesis using req unfolding n by (simp add: Let_def item_requests_def)
  qed (simp add: item_requests_def)
qed (simp add: item_requests_def)

text \<open>A client whose counters are in order.\<close>

definition client_ok :: "Client_t \<Rightarrow> bool" where
  "client_ok cl \<longleftrightarrow> cl_state cl = running \<and> list_all known_item (queue cl) \<and>
     0 \<le> queue_pipelined cl \<and> queue_pipelined cl \<le> pipeline_size \<and>
     queue_pipelined cl \<le> int (length (queue cl))"

lemma push_queue_items_result:
  assumes "client_ok cl"
  obtains b n sched where "push_queue_items cl conn =
      Inr (b, cl\<lparr>queue_pipelined := queue_pipelined cl + int n\<rparr>,
           conn @ item_requests (take n (drop (nat (queue_pipelined cl)) (queue cl))) @ sched)"
    and "client_ok (cl\<lparr>queue_pipelined := queue_pipelined cl + int n\<rparr>)"
    and "sched = [] \<or> sched = [Schedule]"
    and "queue_pipelined cl + int n = 0 \<Longrightarrow> sched = [Schedule]"
    and "nat (queue_pipelined cl) + n \<le> length (queue cl)"
proof (cases "queue cl = [] \<or> int (length (queue cl)) \<le> queue_pipelined cl \<or>
    pipeline_size \<le> queue_pipelined cl")
  case True
  show ?thesis
  proof (rule that [of _ 0 "if queue cl = [] then [Schedule] else []"])
    show "push_queue_items cl conn = Inr (False, cl\<lparr>queue_pipelined := queue_pipelined cl + int 0\<rparr>,
        conn @ item_requests (take 0 (drop (nat (queue_pipelined cl)) (queue cl))) @
          (if queue cl = [] then [Schedule] else []))"
      using True assms by (auto simp: push_queue_items_def client_ok_def item_requests_def)
  qed (use assms True in \<open>auto simp: client_ok_def pipeline_size_def\<close>)
next
  case False
  let ?items = "drop (nat (queue_pipelined cl)) (queue cl)"
  let ?n = "min (length ?items) (nat (pipeline_size - queue_pipelined cl))"
  have "list_all known_item ?items"
    using assms by (auto simp: client_ok_def list_all_iff dest: in_set_dropD)
  then have "push_items ?items cl conn = Inr ((), cl\<lparr>queue_pipelined := queue_pipelined cl + int ?n\<rparr>,
      conn @ item_requests (take ?n ?items))"
    using push_items_result [of ?items cl conn] False by (simp add: Let_def)
  moreover have "0 < ?n" using False assms by (auto simp: client_ok_def)
  ultimately show ?thesis
    using False assms
    by (intro that [of True ?n "[]"]) (auto simp: push_queue_items_def client_ok_def)
qed

section \<open>The invariant\<close>

definition run_inv :: "rsys \<Rightarrow> bool" where
  "run_inv s \<longleftrightarrow> client_ok (rc s) \<and> list_all known_item (enq s) \<and>
     acked s \<le> length (enq s) \<and> queue (rc s) = drop (acked s) (enq s) \<and>
     requests (rconn s) = item_requests (take (acked s + nat (queue_pipelined (rc s))) (enq s)) \<and>
     ticks s \<le> schedules (rconn s) \<and>
     (queue_pipelined (rc s) = 0 \<longrightarrow> ticks s < schedules (rconn s))"

text \<open>Every step of the machine ends with a check of the queue of a client in order.\<close>

lemma run_inv_push:
  assumes ok: "client_ok cl" and q: "queue cl = drop a es" and a: "a \<le> length es"
    and es: "list_all known_item es"
    and req: "requests conn = item_requests (take (a + nat (queue_pipelined cl)) es)"
    and t: "t \<le> schedules conn"
  obtains b cl' conn' where "push_queue_items cl conn = Inr (b, cl', conn')"
    and "run_inv \<lparr>rc = cl', rconn = conn', enq = es, acked = a, ticks = t\<rparr>"
proof -
  from push_queue_items_result [OF ok, of conn] obtain b n sched where
    push: "push_queue_items cl conn =
      Inr (b, cl\<lparr>queue_pipelined := queue_pipelined cl + int n\<rparr>,
           conn @ item_requests (take n (drop (nat (queue_pipelined cl)) (queue cl))) @ sched)"
    and ok': "client_ok (cl\<lparr>queue_pipelined := queue_pipelined cl + int n\<rparr>)"
    and sched: "sched = [] \<or> sched = [Schedule]" "queue_pipelined cl + int n = 0 \<Longrightarrow> sched = [Schedule]"
    by metis
  let ?p = "nat (queue_pipelined cl)"
  have p: "nat (queue_pipelined cl + int n) = ?p + n" using ok by (simp add: client_ok_def nat_add_distrib)
  have new: "take n (drop ?p (queue cl)) = take n (drop (a + ?p) es)" by (simp add: q add.commute)
  have "take (a + (?p + n)) es = take (a + ?p) es @ take n (drop (a + ?p) es)"
    by (simp add: take_add add.assoc [symmetric])
  moreover have "list_all known_item (take n (drop (a + ?p) es))"
    using es by (auto simp: list_all_iff dest: in_set_takeD in_set_dropD)
  ultimately have "requests (conn @ item_requests (take n (drop ?p (queue cl))) @ sched) =
      item_requests (take (a + nat (queue_pipelined cl + int n)) es)"
    and "schedules (conn @ item_requests (take n (drop ?p (queue cl))) @ sched) =
      schedules conn + schedules sched"
    using requests_items [of "take n (drop (a + ?p) es)"] sched(1) req
    by (auto simp: new p item_requests_def)
  with ok' q a es t sched show ?thesis
    by (intro that [OF push]) (auto simp: run_inv_def)
qed

lemma run_inv_start: "run_start s \<Longrightarrow> run_inv s"
proof (erule run_start_cases)
  fix cl cl' conn'
  assume items: "list_all known_item (queue cl)" and sync: "sync_queue cl [] = Inr ((), cl', conn')"
    and s: "s = \<lparr>rc = cl', rconn = conn', enq = queue cl, acked = 0, ticks = 0\<rparr>"
  let ?cl = "cl\<lparr>cl_state := running, queue_pipelined := 0\<rparr>"
  have "client_ok ?cl" using items by (simp add: client_ok_def pipeline_size_def)
  then obtain b cl1 conn1 where "push_queue_items ?cl [] = Inr (b, cl1, conn1)"
    and "run_inv \<lparr>rc = cl1, rconn = conn1, enq = queue cl, acked = 0, ticks = 0\<rparr>"
    by (rule run_inv_push [where a = 0 and es = "queue cl" and t = 0])
       (use items in \<open>auto simp: item_requests_def\<close>)
  with sync s show ?thesis by (simp add: sync_queue_def)
qed

text \<open>A confirmation of a request under way never fails.\<close>

lemma confirm_ok:
  assumes inv: "run_inv s" and out: "acked s < length (requests (rconn s))"
  obtains cl conn where "on_confirm D d (rc s) (rconn s) = Inr ((), cl, conn)"
    and "run_inv (s\<lparr>rc := cl, rconn := conn, acked := acked s + 1\<rparr>)"
proof -
  let ?cl = "(rc s)\<lparr>queue_pipelined := queue_pipelined (rc s) - 1, queue := tl (queue (rc s))\<rparr>"
  have "0 < queue_pipelined (rc s)"
    using inv out by (auto simp: run_inv_def item_requests_def min_def split: if_splits)
  moreover from this inv have q: "queue (rc s) \<noteq> []" by (auto simp: run_inv_def client_ok_def)
  moreover have "list_all known_item (tl (queue (rc s)))"
    using inv unfolding run_inv_def client_ok_def by (intro list_all_tl) blast
  ultimately have "client_ok ?cl" and "nat (queue_pipelined (rc s)) = Suc (nat (queue_pipelined ?cl))"
    using inv by (auto simp: run_inv_def client_ok_def)
  moreover have "acked s < length (enq s)" using q inv by (auto simp: run_inv_def)
  ultimately obtain b cl conn where "push_queue_items ?cl (rconn s) = Inr (b, cl, conn)"
    and "run_inv \<lparr>rc = cl, rconn = conn, enq = enq s, acked = acked s + 1, ticks = ticks s\<rparr>"
    using inv
    by (elim run_inv_push [where a = "acked s + 1" and es = "enq s" and t = "ticks s" and conn = "rconn s"])
       (auto simp: run_inv_def tl_drop drop_Suc)
  moreover have "cl_state (rc s) = running" using inv by (simp add: run_inv_def client_ok_def)
  ultimately show ?thesis
    using q by (intro that [of cl conn]) (auto simp: on_confirm_def run_inv_def)
qed

lemma tick_ok:
  assumes inv: "run_inv s" and pending: "ticks s < schedules (rconn s)"
  obtains cl conn where "scheduled True (rc s) (rconn s) = Inr ((), cl, conn)"
    and "run_inv (s\<lparr>rc := cl, rconn := conn, ticks := ticks s + 1\<rparr>)"
proof -
  obtain b cl conn where "push_queue_items (rc s) (rconn s) = Inr (b, cl, conn)"
    and "run_inv \<lparr>rc = cl, rconn = conn, enq = enq s, acked = acked s, ticks = ticks s + 1\<rparr>"
    by (rule run_inv_push [of "rc s" "acked s" "enq s" "rconn s" "ticks s + 1"])
       (use inv pending in \<open>auto simp: run_inv_def\<close>)
  then show ?thesis by (intro that [of cl conn]) (auto simp: scheduled_def run_inv_def)
qed

lemma run_inv_step:
  assumes "run_step D s s'" and "run_inv s"
  shows "run_inv s'"
  using assms
proof (cases rule: run_step.cases)
  case (Update item)
  with assms(2) show ?thesis by (auto simp: run_inv_def client_ok_def enqueue_def)
next
  case (Confirm d cl conn)
  from confirm_ok [OF assms(2) Confirm(2), of D d] show ?thesis using Confirm(1,3) by auto
next
  case (Tick cl conn)
  from tick_ok [OF assms(2) Tick(2)] show ?thesis using Tick(1,3) by auto
qed

lemma run_inv_reach: "run_reach D s \<Longrightarrow> run_inv s"
  by (induction rule: run_reach.induct) (auto intro: run_inv_start run_inv_step)

section \<open>What the slave sees\<close>

text \<open>
  C2. A running slave is sent every queued update exactly once and in the order of the queue,
  at most \<open>pipeline_size\<close> of them unconfirmed: at every moment the requests sent are those of the
  confirmed updates followed by those of the first \<open>queue_pipelined\<close> items still in the queue.
\<close>

theorem running_slave_fifo:
  assumes "run_reach D s"
  shows "requests (rconn s) =
           item_requests (take (acked s + nat (queue_pipelined (rc s))) (enq s)) \<and>
         queue (rc s) = drop (acked s) (enq s) \<and>
         0 \<le> queue_pipelined (rc s) \<and> queue_pipelined (rc s) \<le> 100"
  using run_inv_reach [OF assms] by (auto simp: run_inv_def client_ok_def pipeline_size_def)

text \<open>One update, sent and not yet confirmed.\<close>

definition run_example :: rsys where
  "run_example =
     \<lparr>rc = \<lparr>cl_id = [], cl_state = running, current_keys = [], queue = [(''set'', ''{}'')],
            queue_pipelined = 1\<rparr>,
      rconn = [Request ''set'' ''{}''], enq = [(''set'', ''{}'')], acked = 0, ticks = 0\<rparr>"

lemma run_example_reach: "run_reach std_map_ops run_example"
proof (rule run_reach.start)
  let ?cl = "new_client\<lparr>queue := [(''set'', ''{}'')]\<rparr>"
  have "run_start \<lparr>rc = rc run_example, rconn = rconn run_example, enq = queue ?cl, acked = 0, ticks = 0\<rparr>"
    by (rule run_start.intros) (simp_all add: run_example_def new_client_def known_item_def
        item_request_def sync_queue_def push_queue_items_def pipeline_size_def)
  then show "run_start run_example" by (simp add: run_example_def)
qed

theorem running_slave_fifo_witness:
  "requests (rconn run_example) =
     item_requests (take (acked run_example + nat (queue_pipelined (rc run_example))) (enq run_example)) \<and>
   rconn run_example = [Request ''set'' ''{}'']"
  using running_slave_fifo [OF run_example_reach] by (simp add: run_example_def item_request_def)

text \<open>
  While a slave is running, neither a confirmation of a request that is under way nor a
  scheduled check of the queue throws: the \<open>logic_error\<close> branches of \<open>on_confirm\<close> and
  \<open>_push_queue_items\<close> are unreachable.
\<close>

lemma running_slave_no_error:
  assumes "run_reach D s"
  shows "(acked s < length (requests (rconn s)) \<longrightarrow>
            (\<exists>cl conn. on_confirm D d (rc s) (rconn s) = Inr ((), cl, conn))) \<and>
         (ticks s < schedules (rconn s) \<longrightarrow>
            (\<exists>cl conn. scheduled True (rc s) (rconn s) = Inr ((), cl, conn)))"
  using confirm_ok [OF run_inv_reach [OF assms]] tick_ok [OF run_inv_reach [OF assms]] by metis

text \<open>
  C4. The queue of a running slave never stalls: whenever updates wait, either a request is
  under way, whose confirmation continues, or a scheduled check of the queue is pending.
\<close>

theorem running_slave_never_stalls:
  assumes "run_reach D s" and "queue (rc s) \<noteq> []"
  shows "acked s < length (requests (rconn s)) \<or> ticks s < schedules (rconn s)"
proof (cases "queue_pipelined (rc s) = 0")
  case False
  have inv: "run_inv s" by (rule run_inv_reach [OF assms(1)])
  with False have "0 < nat (queue_pipelined (rc s))" by (simp add: run_inv_def client_ok_def)
  moreover have "acked s < length (enq s)" using inv assms(2) by (auto simp: run_inv_def)
  ultimately show ?thesis using inv by (auto simp: run_inv_def item_requests_def)
qed (use run_inv_reach [OF assms(1)] in \<open>simp add: run_inv_def\<close>)

theorem running_slave_never_stalls_witness:
  "acked run_example < length (requests (rconn run_example)) \<or>
     ticks run_example < schedules (rconn run_example)"
  by (rule running_slave_never_stalls [OF run_example_reach]) (simp add: run_example_def)

end
