(* ===== verification/Replication_Sync.thy ===== *)
theory Replication_Sync
  imports Replication
begin

text \<open>
  The first copy of the store to a slave: what it guarantees when the store does not change
  meanwhile, and where it loses keys or updates when it does.
\<close>

section \<open>A store that does not change\<close>

text \<open>
  C3. The first copy is complete: when the store does not change, the portions sent by
  \<open>sync_initial\<close> and by the confirmations that follow are the store's entries in order, each
  exactly once, and after \<open>sync_rounds + 100\<close> confirmations the slave is in state \<open>running\<close>.
  (The store must not hold the empty string as its only key, which \<open>_push_next_portion\<close> takes
  for "start from the beginning".)
\<close>

theorem initial_sync_complete:
  assumes "ordered_store D good entries view rest" and "good d" and "syncable (entries d)"
  shows "bindE (sync_initial D d (new_client\<lparr>cl_id := i\<rparr>) [])
           (\<lambda>(_, cl, conn). confirms D d (sync_rounds (entries d) + 100) cl conn) =
         Inr ((), new_client\<lparr>cl_id := i, cl_state := running\<rparr>,
              map (portion_request \<circ> portion (entries d)) [0..<100 + sync_rounds (entries d)]
                @ [Schedule]) \<and>
         concat (map (portion (entries d)) [0..<100 + sync_rounds (entries d)]) = entries d"
  using ordered_store.initial_sync [OF assms, of "new_client\<lparr>cl_id := i\<rparr>"]
  by (simp add: new_client_def all_portions)

theorem initial_sync_complete_witness:
  "bindE (sync_initial std_map_ops [(''a'', ''1''), (''b'', ''2'')] (new_client\<lparr>cl_id := ''s''\<rparr>) [])
     (\<lambda>(_, cl, conn). confirms std_map_ops [(''a'', ''1''), (''b'', ''2'')] 101 cl conn) =
   Inr ((), new_client\<lparr>cl_id := ''s'', cl_state := running\<rparr>,
        map (portion_request \<circ> portion [(''a'', ''1''), (''b'', ''2'')]) [0..<101] @ [Schedule])"
proof -
  let ?es = "[(''a'', ''1''), (''b'', ''2'')] :: entry list"
  have s: "sorted_keys ?es" by code_simp
  have "syncable (id ?es)" using s by (simp add: syncable_def)
  from initial_sync_complete [where entries = id and d = ?es,
      OF std_map.ordered_store_axioms s this, of "''s''"]
  show ?thesis by (simp add: sync_rounds_def portions_def)
qed

section \<open>A store that changes\<close>

context ordered_store
begin

text \<open>A portion that starts behind a key that is gone.\<close>

lemma portion_start_gone:
  assumes "inv d" and "from \<noteq> []" and "filter (\<lambda>e. from \<le> fst e) (entries d) = e # es"
  shows "\<exists>it. portion_start D d from = Inr it \<and> rest it = es"
proof -
  have "rest (Seek D (NewIterator D d) from) = e # es"
    using assms by (simp add: seek new_iterator lower_bound_filter entries_sorted)
  then show ?thesis using assms(2) by (auto simp: portion_start_def next_at_def valid step)
qed

lemma portion_start_end:
  assumes "inv d" and "from \<noteq> []" and "filter (\<lambda>e. from \<le> fst e) (entries d) = []"
  shows "portion_start D d from = Inl Out_of_bounds"
  using assms
  by (simp add: portion_start_def next_at_def valid seek new_iterator lower_bound_filter entries_sorted)

end

text \<open>
  A portion that starts behind a key which has been deleted since the last portion loses an
  entry: \<open>Seek\<close> stops at the first key behind the deleted one and the following \<open>Next\<close>
  skips it, so the portion sent starts with the entry after it.
\<close>

lemma portion_after_deleted_key:
  assumes "ordered_store D good entries view rest" and "good d" and "from \<noteq> []"
    and "from \<notin> fst ` set (entries d)" and "filter (\<lambda>e. from < fst e) (entries d) = e # es"
  shows "\<exists>key cl'. push_next_portion D d from cl conn =
           Inr (key, cl', conn @ [portion_request (take 1000 es)])"
proof -
  have "filter (\<lambda>e. from \<le> fst e) (entries d) = filter (\<lambda>e. from < fst e) (entries d)"
    using assms(4) by (intro filter_cong) (auto simp: order.order_iff_strict image_iff)
  with ordered_store.portion_start_gone [OF assms(1,2,3)] assms(5)
  obtain it where "portion_start D d from = Inr it" "rest it = es" by metis
  then show ?thesis
    using ordered_store.collect_rest [OF assms(1), of 1000 it]
    by (auto simp: push_next_portion_def Let_def portion_request_def)
qed

text \<open>
  When every key from the last one sent on has been deleted, the next portion calls
  \<open>Next()\<close> on an iterator that is not valid, which LevelDB leaves undefined.
\<close>

lemma portion_behind_the_end:
  assumes "ordered_store D good entries view rest" and "good d" and "from \<noteq> []"
    and "\<forall>e \<in> set (entries d). fst e < from"
  shows "push_next_portion D d from cl conn = Inl (Out_of_bounds, cl, conn)"
proof -
  have "filter (\<lambda>e. from \<le> fst e) (entries d) = []"
    using assms(4) by (auto simp: filter_empty_conv not_le)
  from ordered_store.portion_start_end [OF assms(1-3) this] show ?thesis
    by (simp add: push_next_portion_def)
qed

text \<open>
  An update made while a slave is synchronising is queued for it exactly when its key lies
  before the last key sent; an update of the last key sent itself, and every update made in
  state \<open>sync_finishing\<close>, is neither queued nor part of a later portion.
\<close>

lemma update_while_syncing:
  assumes "cl_state cl = syncing \<or> cl_state cl = sync_finishing"
  shows "rep_set [(k, v)] [(i, cl)] =
    [(i, if cl_state cl = syncing \<and> k < current cl
         then cl\<lparr>queue := queue cl @ [(''set'', ser valmap2str_json [(k, v)])]\<rparr> else cl)]"
  using assms
  by (auto simp: rep_set_def send_to_clients_def send_to_client_def pairs_below_def send_def enqueue_def)

end
