(* ===== verification/Methods.thy ===== *)
theory Methods
  imports Replication
begin

text \<open>
  The methods of the daemon, \<open>src/fas_methods.hpp\<close>: for each one its \<open>request\<close> on the store
  and the replication state, and for those sent to slaves also its \<open>response\<close>. A request
  returns whether the caller gets a result, the result, and the new state; an exception
  keeps the state reached when it is thrown. The key locks of \<open>add\<close>, \<open>inc\<close>, \<open>inc_add\<close> and
  \<open>update_packed\<close> make their read-modify-write of one key a single step (theory Locks).
  Signed overflow of a \<open>long long\<close> or an \<open>int\<close> wraps, as on the machines the daemon runs on.
\<close>

record 'd world =
  wdb :: 'd
  wrep :: rep_clients

type_synonym ('r, 'd) reply = "(exn \<times> 'd world) + (bool \<times> 'r \<times> 'd world)"

section \<open>Reading\<close>

fun get_loop :: "('d, 'i) db_ops \<Rightarrow> 'd \<Rightarrow> vallist \<Rightarrow> valmap2str" where
  "get_loop D d [] = []"
| "get_loop D d (k # ks) =
     (case Get D d k of
        Some r \<Rightarrow> (k, r) # get_loop D d ks
      | None \<Rightarrow> get_loop D d ks)"

definition get_request :: "('d, 'i) db_ops \<Rightarrow> vallist \<Rightarrow> 'd world \<Rightarrow> (valmap2str, 'd) reply" where
  "get_request D cmd w = Inr (True, get_loop D (wdb w) cmd, w)"

fun range_loop ::
  "('d, 'i) db_ops \<Rightarrow> nat \<Rightarrow> string \<Rightarrow> int \<Rightarrow> int \<Rightarrow> 'i \<Rightarrow> valmap2str" where
  "range_loop D 0 to skip cnt it = []"
| "range_loop D (Suc n) to skip cnt it =
     (if Valid D it \<and> (to = [] \<or> key_at D it \<le> to)
      then (if skip \<le> cnt then [(key_at D it, value_at D it)] else [])
             @ range_loop D n to skip (cnt + 1) (Next D it)
      else [])"

text \<open>
  The rounds left, \<open>total_limit - count\<close>, are the recursion argument of the loop. The checks
  compare \<open>limit + skip\<close> after it has wrapped.
\<close>

definition get_range_request ::
  "('d, 'i) db_ops \<Rightarrow> get_range \<Rightarrow> 'd world \<Rightarrow> (valmap2str, 'd) reply" where
  "get_range_request D cmd w =
     (if gr_limit cmd < 0 then Inr (False, [], w)
      else if gr_skip cmd < 0 then Inr (False, [], w)
      else if wrap c_int (gr_limit cmd + gr_skip cmd) > 11000 then Inr (False, [], w)
      else let it = NewIterator D (wdb w);
               it = (if gr_from cmd \<noteq> [] then Seek D it (gr_from cmd) else SeekToFirst D it);
               total_limit = wrap c_int (gr_limit cmd + gr_skip cmd)
           in Inr (True, range_loop D (nat total_limit) (gr_to cmd) (gr_skip cmd) 0 it, w))"

section \<open>Writing\<close>

fun put_all :: "('d, 'i) db_ops \<Rightarrow> valmap2str \<Rightarrow> bool \<Rightarrow> 'd \<Rightarrow> bool \<times> 'd" where
  "put_all D [] b d = (b, d)"
| "put_all D ((k, v) # cmd) b d =
     (let (d', ok) = Put D d k v in put_all D cmd (b \<and> ok) d')"

definition set_request :: "('d, 'i) db_ops \<Rightarrow> valmap2str \<Rightarrow> 'd world \<Rightarrow> (bool, 'd) reply" where
  "set_request D cmd w =
     (let (b, d) = put_all D cmd True (wdb w)
      in Inr (True, b, w\<lparr>wdb := d, wrep := rep_set cmd (wrep w)\<rparr>))"

text \<open>\<open>set_range\<close> with an empty map returns before it sets the result.\<close>

definition set_range_request :: "('d, 'i) db_ops \<Rightarrow> valmap2str \<Rightarrow> bool \<Rightarrow> 'd world \<Rightarrow> (bool, 'd) reply" where
  "set_range_request D cmd result w =
     (if cmd = [] then Inr (True, result, w)
      else let (b, d) = put_all D cmd True (wdb w)
           in Inr (True, b, w\<lparr>wdb := d, wrep := rep_set_range cmd (wrep w)\<rparr>))"

fun del_loop :: "('d, 'i) db_ops \<Rightarrow> vallist \<Rightarrow> 'd \<Rightarrow> valmap2bool \<times> 'd" where
  "del_loop D [] d = ([], d)"
| "del_loop D (k # ks) d =
     (let (d1, ok) = Delete D d k; (res, d2) = del_loop D ks d1 in ((k, ok) # res, d2))"

definition del_request :: "('d, 'i) db_ops \<Rightarrow> vallist \<Rightarrow> 'd world \<Rightarrow> (valmap2bool, 'd) reply" where
  "del_request D cmd w =
     (let (res, d) = del_loop D cmd (wdb w)
      in Inr (True, res, w\<lparr>wdb := d, wrep := rep_del cmd (wrep w)\<rparr>))"

text \<open>The second component of \<open>add_loop\<close>'s result is \<open>repl\<close>, what the slaves are sent.\<close>

fun add_loop ::
  "('d, 'i) db_ops \<Rightarrow> valmap2str \<Rightarrow> 'd \<Rightarrow> valmap2bool \<times> valmap2str \<times> 'd" where
  "add_loop D [] d = ([], [], d)"
| "add_loop D ((k, v) # cmd) d =
     (if Get D d k = None
      then let (d1, ok) = Put D d k v; (res, repl, d2) = add_loop D cmd d1
           in ((k, ok) # res, (if ok then [(k, v)] else []) @ repl, d2)
      else let (res, repl, d2) = add_loop D cmd d in ((k, False) # res, repl, d2))"

definition add_request :: "('d, 'i) db_ops \<Rightarrow> valmap2str \<Rightarrow> 'd world \<Rightarrow> (valmap2bool, 'd) reply" where
  "add_request D cmd w =
     (let (res, repl, d) = add_loop D cmd (wdb w)
      in Inr (True, res, w\<lparr>wdb := d, wrep := rep_set repl (wrep w)\<rparr>))"

section \<open>Counters\<close>

text \<open>A stored number; what follows it in the value is not looked at.\<close>

definition read_number :: "string \<Rightarrow> int res" where
  "read_number r = bindE (unser (integer_codec c_long_long) 0 r) (\<lambda>(v, _). Inr v)"

definition write_number :: "int \<Rightarrow> string" where
  "write_number v = ser (integer_codec c_long_long) v"

definition plus_ll :: "int \<Rightarrow> int \<Rightarrow> int" where
  "plus_ll v w = wrap c_long_long (v + w)"

text \<open>\<open>inc\<close> lets the exception of a value that is no number escape: the keys before it are
  changed, and nothing is replicated.\<close>

fun inc_loop ::
  "('d, 'i) db_ops \<Rightarrow> valmap2int \<Rightarrow> valmap2raw \<Rightarrow> 'd \<Rightarrow> (exn \<times> 'd) + (valmap2raw \<times> 'd)" where
  "inc_loop D [] result d = Inr (result, d)"
| "inc_loop D ((k, n) # cmd) result d =
     (case Get D d k of
        None \<Rightarrow> inc_loop D cmd result d
      | Some r \<Rightarrow>
          (case read_number r of
             Inl e \<Rightarrow> Inl (e, d)
           | Inr v \<Rightarrow>
               let r = write_number (plus_ll v n); (d', ok) = Put D d k r
               in inc_loop D cmd (if ok then push_pair result k r else result) d'))"

definition inc_request :: "('d, 'i) db_ops \<Rightarrow> valmap2int \<Rightarrow> 'd world \<Rightarrow> (valmap2raw, 'd) reply" where
  "inc_request D cmd w =
     (case inc_loop D cmd [] (wdb w) of
        Inl (e, d) \<Rightarrow> Inl (e, w\<lparr>wdb := d\<rparr>)
      | Inr (result, d) \<Rightarrow> Inr (True, result, w\<lparr>wdb := d, wrep := rep_set result (wrep w)\<rparr>))"

text \<open>\<open>inc_add\<close> starts a missing counter at its default, and a value that is no number at 0.\<close>

definition inc_add_value :: "('d, 'i) db_ops \<Rightarrow> 'd \<Rightarrow> valmap2int_map \<Rightarrow> string \<Rightarrow> int" where
  "inc_add_value D d defs k =
     (case Get D d k of
        Some r \<Rightarrow> (case read_number r of Inl e \<Rightarrow> 0 | Inr v \<Rightarrow> v)
      | None \<Rightarrow> (case map_of defs k of Some v \<Rightarrow> v | None \<Rightarrow> 0))"

fun inc_add_loop ::
  "('d, 'i) db_ops \<Rightarrow> valmap2int_map \<Rightarrow> valmap2int \<Rightarrow> valmap2raw \<Rightarrow> 'd \<Rightarrow> valmap2raw \<times> 'd" where
  "inc_add_loop D defs [] result d = (result, d)"
| "inc_add_loop D defs ((k, n) # cmd) result d =
     (let r = write_number (plus_ll (inc_add_value D d defs k) n); (d', ok) = Put D d k r
      in inc_add_loop D defs cmd (if ok then push_pair result k r else result) d')"

definition inc_add_request ::
  "('d, 'i) db_ops \<Rightarrow> inc_add \<Rightarrow> 'd world \<Rightarrow> (valmap2raw, 'd) reply" where
  "inc_add_request D cmd w =
     (let (result, d) = inc_add_loop D (ia_def cmd) (ia_inc cmd) [] (wdb w)
      in Inr (True, result, w\<lparr>wdb := d, wrep := rep_set result (wrep w)\<rparr>))"

section \<open>Packed records\<close>

text \<open>\<open>data[k] = v\<close> on an \<open>unordered_map\<close>.\<close>

definition map_put :: "('k \<times> 'v) list \<Rightarrow> 'k \<Rightarrow> 'v \<Rightarrow> ('k \<times> 'v) list" where
  "map_put m k v =
     (if map_of m k = None then m @ [(k, v)]
      else map (\<lambda>e. if fst e = k then (k, v) else e) m)"

definition packed_load ::
  "(valmap2str_map \<Rightarrow> valmap2str_map) \<Rightarrow> ('d, 'i) db_ops \<Rightarrow> 'd \<Rightarrow> update_packed \<Rightarrow> valmap2str_map" where
  "packed_load iter D d cmd =
     (case Get D d (up_key cmd) of
        Some tmp \<Rightarrow>
          (case unser (valmap2str_map_json iter) [] tmp of
             Inl e \<Rightarrow> up_def cmd
           | Inr (data, _) \<Rightarrow> data)
      | None \<Rightarrow> up_def cmd)"

definition packed_set :: "valmap2str \<Rightarrow> valmap2str_map \<Rightarrow> valmap2str_map" where
  "packed_set sets data = foldl (\<lambda>m (k, v). map_put m k v) data sets"

definition packed_number :: "string \<Rightarrow> int" where
  "packed_number sval =
     (if sval = [] then 0 else case read_number sval of Inl e \<Rightarrow> 0 | Inr v \<Rightarrow> v)"

definition packed_inc_one :: "valmap2str_map \<Rightarrow> string \<times> int \<Rightarrow> valmap2str_map" where
  "packed_inc_one m e =
     (let sval = (case map_of m (fst e) of Some v \<Rightarrow> v | None \<Rightarrow> [])
      in map_put m (fst e) (write_number (plus_ll (packed_number sval) (snd e))))"

definition packed_inc :: "valmap2int \<Rightarrow> valmap2str_map \<Rightarrow> valmap2str_map" where
  "packed_inc incs data = foldl packed_inc_one data incs"

definition update_packed_request ::
  "(valmap2str_map \<Rightarrow> valmap2str_map) \<Rightarrow> ('d, 'i) db_ops \<Rightarrow> update_packed \<Rightarrow> 'd world \<Rightarrow>
    (string, 'd) reply" where
  "update_packed_request iter D cmd w =
     (let data = packed_inc (up_inc cmd) (packed_set (up_set cmd) (packed_load iter D (wdb w) cmd));
          result = ser (valmap2str_map_json iter) data;
          (d, ok) = Put D (wdb w) (up_key cmd) result
      in if ok then Inr (True, result, w\<lparr>wdb := d, wrep := rep_set [(up_key cmd, result)] (wrep w)\<rparr>)
         else Inr (True, ''null'', w\<lparr>wdb := d\<rparr>))"

section \<open>Replication control\<close>

fun status_list :: "rep_clients \<Rightarrow> bool \<Rightarrow> string" where
  "status_list [] first = []"
| "status_list ((i, cl) # rs) first =
     (if first then [] else '','') @ DQ # i @ DQ # CHR '':'' # write_status cl @ status_list rs False"

definition rep_status :: "'d world \<Rightarrow> (string, 'd) reply" where
  "rep_status w = Inr (True, CHR ''{'' # status_list (wrep w) True @ ''}'', w)"

text \<open>
  The method object of a connection keeps \<open>clid\<close>, the slave's name; \<open>clear\<close> empties it when
  the connection closes. A response of a slave confirms a request.
\<close>

definition rep_setstate_request ::
  "('d, 'i) db_ops \<Rightarrow> rep_setstate \<Rightarrow> 'd world \<Rightarrow> conn \<Rightarrow> string \<times> 'd world \<times> conn \<times> exn option" where
  "rep_setstate_request D cmd w conn =
     (let (rs, conn', e) = add_client D (wdb w) (rs_id cmd) (rs_state cmd) (wrep w) conn
      in (rs_id cmd, w\<lparr>wrep := rs\<rparr>, conn', e))"

definition method_response ::
  "('d, 'i) db_ops \<Rightarrow> string \<Rightarrow> 'd world \<Rightarrow> conn \<Rightarrow> bool \<times> 'd world \<times> conn \<times> exn option" where
  "method_response D clid w conn =
     (case map_of (wrep w) clid of
        None \<Rightarrow> (False, w, conn, None)
      | Some cl \<Rightarrow>
          let (rs, conn', e) = store_outcome clid (wrep w) (on_confirm D (wdb w) cl conn)
          in (True, w\<lparr>wrep := rs\<rparr>, conn', e))"

section \<open>The method lists\<close>

text \<open>
  \<open>method_list\<close>: the names that the listed methods answer to, in the order of the list. The
  entry tagged \<open>_set_range_\<close> is the method \<open>set\<close> again, so the name \<open>set_range\<close> is missing.
  A request goes to the first method with its name.
\<close>

datatype daemon_method = M_get | M_get_range | M_set | M_inc | M_inc_add | M_add | M_del
  | M_rep_status | M_update_packed | M_rep_setstate | M_get_statistics

definition method_list :: "(string \<times> daemon_method) list" where
  "method_list =
     [(''get'', M_get), (''get_range'', M_get_range), (''set'', M_set), (''set'', M_set),
      (''inc'', M_inc), (''inc_add'', M_inc_add), (''add'', M_add), (''del'', M_del),
      (''rep_status'', M_rep_status), (''update_packed'', M_update_packed),
      (''rep_setstate'', M_rep_setstate), (''get_statistics'', M_get_statistics)]"

definition method_list_client :: "(string \<times> daemon_method) list" where
  "method_list_client =
     [(''set'', M_set), (''set'', M_set), (''del'', M_del), (''rep_setstate'', M_rep_setstate)]"

lemma set_range_unknown:
  "map_of method_list ''set_range'' = None" "map_of method_list_client ''set_range'' = None"
  by (simp_all add: method_list_def method_list_client_def)

end
