(* ===== verification/Method_Laws.thy ===== *)
theory Method_Laws
  imports Methods
begin

text \<open>
  What the methods of theory Methods do to the contents of a store that keeps LevelDB's
  contract: every method is related to an operation on the finite map of the entries.
\<close>

section \<open>Maps of entries\<close>

definition ins_all :: "entry list \<Rightarrow> valmap2str \<Rightarrow> entry list" where
  "ins_all es cmd = foldl (\<lambda>es (k, v). ins k v es) es cmd"

definition erase_all :: "entry list \<Rightarrow> vallist \<Rightarrow> entry list" where
  "erase_all es ks = foldl (\<lambda>es k. erase k es) es ks"

lemma ins_all_simps [simp]:
  "ins_all es [] = es" "ins_all es ((k, v) # cmd) = ins_all (ins k v es) cmd"
  "ins_all es (cmd @ cmd') = ins_all (ins_all es cmd) cmd'"
  by (simp_all add: ins_all_def)

lemma erase_all_simps [simp]:
  "erase_all es [] = es" "erase_all es (k # ks) = erase_all (erase k es) ks"
  by (simp_all add: erase_all_def)

lemma sorted_ins_all: "sorted_keys es \<Longrightarrow> sorted_keys (ins_all es cmd)"
  by (induction cmd arbitrary: es) (auto simp: sorted_ins)

lemma map_of_ins_all: "sorted_keys es \<Longrightarrow> map_of (ins_all es cmd) = map_of es ++ map_of (rev cmd)"
proof (induction cmd arbitrary: es)
  case (Cons e cmd)
  then show ?case by (cases e) (auto simp: sorted_ins map_of_ins fun_eq_iff map_add_def split: option.splits)
qed simp

lemma map_of_erase_all: "map_of (erase_all es ks) k = (if k \<in> set ks then None else map_of es k)"
  by (induction ks arbitrary: es) (auto simp: map_of_erase)

text \<open>\<open>add_new\<close>: the pairs of \<open>add\<close> whose key is new when their turn comes.\<close>

fun add_new :: "(string \<Rightarrow> bool) \<Rightarrow> valmap2str \<Rightarrow> valmap2str" where
  "add_new known [] = []"
| "add_new known ((k, v) # cmd) =
     (if known k then add_new known cmd else (k, v) # add_new (\<lambda>x. x = k \<or> known x) cmd)"

lemma add_new_map_of:
  "map_of (rev (add_new known cmd)) k = (if known k then None else map_of cmd k)"
proof (induction known cmd rule: add_new.induct)
  case (2 known k' v cmd)
  then show ?case by (cases "known k'") (auto simp: map_add_def split: option.splits if_splits)
qed simp

section \<open>The store behind the methods\<close>

context leveldb
begin

lemma put_all_entries:
  "inv d \<Longrightarrow> put_all D cmd b d = (b', d') \<Longrightarrow> inv d' \<and> b' = b \<and> entries d' = ins_all (entries d) cmd"
proof (induction cmd arbitrary: b d)
  case (Cons e cmd)
  obtain k v where e: "e = (k, v)" by (cases e)
  obtain d1 where d1: "Put D d k v = (d1, True)" using put_result Cons.prems(1) by blast
  then have "put_all D cmd b d1 = (b', d')" using Cons.prems(2) e by simp
  with Cons.IH [of d1 b] put_inv [OF Cons.prems(1) d1] put_entries [OF Cons.prems(1) d1] e
  show ?case by simp
qed simp

lemma put_all_run:
  assumes "inv d"
  obtains d' where "put_all D cmd True d = (True, d')" "inv d'" "entries d' = ins_all (entries d) cmd"
  using put_all_entries [OF assms, of cmd True] by (cases "put_all D cmd True d") auto

lemma del_loop_entries:
  "inv d \<Longrightarrow> \<exists>d'. del_loop D ks d = (map (\<lambda>k. (k, True)) ks, d') \<and> inv d' \<and>
     entries d' = erase_all (entries d) ks"
proof (induction ks arbitrary: d)
  case (Cons k ks)
  obtain d1 where d1: "Delete D d k = (d1, True)" using delete_result Cons.prems by blast
  from Cons.IH [OF delete_inv [OF Cons.prems d1]] delete_entries [OF Cons.prems d1] d1
  show ?case by auto
qed simp

lemma add_loop_entries:
  "inv d \<Longrightarrow> \<exists>res d'. add_loop D cmd d = (res, add_new (\<lambda>k. map_of (entries d) k \<noteq> None) cmd, d') \<and>
     inv d' \<and> entries d' = ins_all (entries d) (add_new (\<lambda>k. map_of (entries d) k \<noteq> None) cmd)"
proof (induction cmd arbitrary: d)
  case (Cons e cmd)
  obtain k v where e: "e = (k, v)" by (cases e)
  show ?case
  proof (cases "map_of (entries d) k = None")
    case True
    obtain d1 where d1: "Put D d k v = (d1, True)" using put_result Cons.prems by blast
    have e1: "entries d1 = ins k v (entries d)" by (rule put_entries [OF Cons.prems d1])
    have "(\<lambda>x. map_of (entries d1) x \<noteq> None) = (\<lambda>x. x = k \<or> map_of (entries d) x \<noteq> None)"
      by (auto simp: e1 map_of_ins entries_sorted Cons.prems)
    then show ?thesis
      using Cons.IH [OF put_inv [OF Cons.prems d1]] True d1 e e1 get [OF Cons.prems, of k]
      by (auto simp: case_prod_beta)
  next
    case False
    from Cons.IH [OF Cons.prems] obtain res d' where
      "add_loop D cmd d = (res, add_new (\<lambda>k. map_of (entries d) k \<noteq> None) cmd, d')" "inv d'"
      "entries d' = ins_all (entries d) (add_new (\<lambda>k. map_of (entries d) k \<noteq> None) cmd)" by blast
    then show ?thesis using False e get [OF Cons.prems, of k] by auto
  qed
qed simp

lemma inc_add_entries:
  "inv d \<Longrightarrow> \<exists>new d'. inc_add_loop D defs cmd result d = (result @ new, d') \<and> inv d' \<and>
     entries d' = ins_all (entries d) new \<and> map fst new = map fst cmd"
proof (induction cmd arbitrary: d result)
  case (Cons e cmd)
  obtain k n where e: "e = (k, n)" by (cases e)
  let ?r = "write_number (plus_ll (inc_add_value D d defs k) n)"
  obtain d1 where d1: "Put D d k ?r = (d1, True)" using put_result Cons.prems by blast
  obtain new d' where "inc_add_loop D defs cmd (result @ [(k, ?r)]) d1 = ((result @ [(k, ?r)]) @ new, d')"
    and "inv d'" "entries d' = ins_all (entries d1) new" "map fst new = map fst cmd"
    using Cons.IH [OF put_inv [OF Cons.prems d1]] by blast
  with d1 e put_entries [OF Cons.prems d1] show ?case
    by (intro exI [of _ "(k, ?r) # new"] exI [of _ d']) (simp add: push_pair_def)
qed simp

lemma inc_entries:
  "inv d \<Longrightarrow> inc_loop D cmd result d = Inr (result', d') \<Longrightarrow>
     \<exists>new. result' = result @ new \<and> inv d' \<and> entries d' = ins_all (entries d) new"
proof (induction cmd arbitrary: d result)
  case (Cons e cmd)
  obtain k n where e: "e = (k, n)" by (cases e)
  show ?case
  proof (cases "Get D d k")
    case None
    then show ?thesis using Cons e by simp
  next
    case (Some r)
    then obtain v where v: "read_number r = Inr v" using Cons.prems(2) e by (auto split: sum.splits)
    let ?r = "write_number (plus_ll v n)"
    obtain d1 where d1: "Put D d k ?r = (d1, True)" using put_result Cons.prems(1) by blast
    then have "inc_loop D cmd (result @ [(k, ?r)]) d1 = Inr (result', d')"
      using Cons.prems(2) e Some v by (simp add: push_pair_def)
    from Cons.IH [OF put_inv [OF Cons.prems(1) d1] this] put_entries [OF Cons.prems(1) d1]
    show ?thesis by auto
  qed
qed simp

end

section \<open>Ranges\<close>

context ordered_store
begin

lemma range_loop_rest:
  "range_loop D n to skip cnt it =
     drop (nat (skip - cnt)) (take n (takeWhile (\<lambda>e. to = [] \<or> fst e \<le> to) (rest it)))"
proof (induction n arbitrary: cnt it)
  case (Suc n)
  show ?case
  proof (cases "rest it")
    case Nil
    then show ?thesis by (simp add: valid)
  next
    case (Cons e es)
    have n: "cnt < skip \<Longrightarrow> nat (skip - cnt) = Suc (nat (skip - (cnt + 1)))"
      "skip \<le> cnt \<Longrightarrow> nat (skip - (cnt + 1)) = 0" by simp_all
    show ?thesis
      using Suc.IH [of "cnt + 1" "Next D it"] Cons
      by (cases "skip \<le> cnt") (auto simp: valid step key_entry value_entry n)
  qed
qed simp

lemma range_start:
  "inv d \<Longrightarrow> rest (if from \<noteq> [] then Seek D (NewIterator D d) from else SeekToFirst D (NewIterator D d)) =
     filter (\<lambda>e. from \<le> fst e) (entries d)"
  by (auto simp: seek seek_to_first new_iterator lower_bound_filter entries_sorted filter_id_conv)

lemma takeWhile_range:
  "sorted_keys es \<Longrightarrow> takeWhile (\<lambda>e. to = [] \<or> fst e \<le> to) es = filter (\<lambda>e. to = [] \<or> fst e \<le> to) es"
  by (cases "to = []") (simp_all add: takeWhile_sorted takeWhile_eq_all_conv)

end

section \<open>Numbers\<close>

lemma wrap_fits_range: "0 < sizeof t \<Longrightarrow> fits t (wrap t x)"
proof -
  have s: "signed_take_bit n x < 2 ^ n" "- (2 ^ n) \<le> signed_take_bit n x" for n :: nat
    using signed_take_bit_int_less_exp [of n x] signed_take_bit_int_greater_eq_minus_exp [of n x] by simp_all
  show ?thesis using s by (auto simp: fits_def wrap_def)
qed

lemma wrap_add: "0 < sizeof t \<Longrightarrow> wrap t (wrap t x + y) = wrap t (x + y)"
  by (simp add: wrap_eq_iff) (metis take_bit_add take_bit_wrap)

lemma read_write_number: "fits c_long_long v \<Longrightarrow> read_number (write_number v) = Inr v"
  using c_ll.roundtrip [of v "[]"] by (simp add: read_number_def write_number_def)

lemma plus_ll_fits: "fits c_long_long (plus_ll v w)"
  by (simp add: plus_ll_def wrap_fits_range)

lemma plus_ll_plus: "plus_ll (plus_ll v n) m = plus_ll v (n + m)"
  by (simp add: plus_ll_def wrap_add add.assoc)

section \<open>Properties\<close>

text \<open>
  C23. \<open>get_range\<close> answers exactly the entries with \<open>from \<le> key \<le> to\<close> (an empty \<open>to\<close> is no
  bound), in key order, without the first \<open>skip\<close> and at most \<open>limit\<close> of them, and leaves the
  daemon's state alone.
\<close>

theorem get_range_correct:
  assumes "ordered_store D good entries view rest" and "good (wdb w)"
    and "0 \<le> gr_limit cmd" and "0 \<le> gr_skip cmd" and "gr_limit cmd + gr_skip cmd \<le> 11000"
  shows "get_range_request D cmd w =
    Inr (True, take (nat (gr_limit cmd)) (drop (nat (gr_skip cmd))
           (filter (\<lambda>e. gr_from cmd \<le> fst e \<and> (gr_to cmd = [] \<or> fst e \<le> gr_to cmd))
              (entries (wdb w)))), w)"
proof -
  note store = assms(1)
  let ?es = "filter (\<lambda>e. gr_from cmd \<le> fst e) (entries (wdb w))"
  have sum: "wrap c_int (gr_limit cmd + gr_skip cmd) = gr_limit cmd + gr_skip cmd"
    using assms(3-5) by (intro wrap_fits) (auto simp: c_int_def fits_def bits_of_def)
  have "sorted_keys ?es"
    using ordered_store.entries_sorted [OF store assms(2)]
    by (auto simp: sorted_wrt_map intro: sorted_wrt_filter)
  note tw = ordered_store.takeWhile_range [OF store this]
  have "nat (gr_limit cmd + gr_skip cmd) = nat (gr_skip cmd) + nat (gr_limit cmd)"
    using assms(3,4) by simp
  then show ?thesis
    using assms(3-5)
    by (simp add: get_range_request_def Let_def sum ordered_store.range_loop_rest [OF store]
        ordered_store.range_start [OF store assms(2)] tw drop_take conj_commute)
qed

theorem get_range_correct_witness:
  "get_range_request std_map_ops \<lparr>gr_from = ''b'', gr_to = ''d'', gr_limit = 2, gr_skip = 1\<rparr>
     \<lparr>wdb = [(''a'', ''1''), (''b'', ''2''), (''c'', ''3''), (''d'', ''4''), (''e'', ''5'')], wrep = []\<rparr> =
   Inr (True, [(''c'', ''3''), (''d'', ''4'')],
     \<lparr>wdb = [(''a'', ''1''), (''b'', ''2''), (''c'', ''3''), (''d'', ''4''), (''e'', ''5'')], wrep = []\<rparr>)"
proof -
  let ?w = "\<lparr>wdb = [(''a'', ''1''), (''b'', ''2''), (''c'', ''3''), (''d'', ''4''), (''e'', ''5'')],
             wrep = []\<rparr> :: entry list world"
  let ?cmd = "\<lparr>gr_from = ''b'', gr_to = ''d'', gr_limit = 2, gr_skip = 1\<rparr> :: get_range"
  have "sorted_keys (wdb ?w)" by code_simp
  from get_range_correct [where entries = id and w = ?w and cmd = ?cmd,
      OF std_map.ordered_store_axioms this]
  have "get_range_request std_map_ops ?cmd ?w =
    Inr (True, take (nat 2) (drop (nat 1) (filter (\<lambda>e. ''b'' \<le> fst e \<and> (''d'' = [] \<or> fst e \<le> ''d'')) (wdb ?w))), ?w)"
    by simp
  moreover have "take (nat 2) (drop (nat 1) (filter (\<lambda>e. ''b'' \<le> fst e \<and> (''d'' = [] \<or> fst e \<le> ''d'')) (wdb ?w))) =
    [(''c'', ''3''), (''d'', ''4'')]" by code_simp
  ultimately show ?thesis by (simp only:)
qed

text \<open>
  The bound of 11000 on \<open>limit + skip\<close> can be evaded: when the sum of two valid \<open>int\<close>s
  overflows, the wrapped sum is negative, the request passes the check and is answered with
  an empty range, whatever the store holds (after \<open>reserve(limit)\<close>).
\<close>

lemma get_range_overflow:
  assumes "0 \<le> gr_limit cmd" and "gr_limit cmd < 2 ^ 31" and "0 \<le> gr_skip cmd" and "gr_skip cmd < 2 ^ 31"
    and "2 ^ 31 \<le> gr_limit cmd + gr_skip cmd"
  shows "get_range_request D cmd w = Inr (True, [], w)"
proof -
  let ?s = "gr_limit cmd + gr_skip cmd"
  have "wrap c_int ?s = ?s - 2 ^ 32"
  proof -
    have "take_bit 32 (?s - 2 ^ 32) = take_bit 32 ?s"
      by (simp add: take_bit_eq_mod mod_diff_right_eq [symmetric])
    then have "wrap c_int ?s = wrap c_int (?s - 2 ^ 32)"
      by (subst wrap_eq_iff) (simp_all add: c_int_def bits_of_def)
    also have "\<dots> = ?s - 2 ^ 32"
      using assms by (intro wrap_fits) (auto simp: c_int_def fits_def bits_of_def)
    finally show ?thesis .
  qed
  then show ?thesis using assms by (simp add: get_range_request_def)
qed

text \<open>
  C24. After \<open>set\<close>, \<open>get\<close> of every key answers the last value the request gave it, and the old
  value for a key the request does not mention; the request reports success.
\<close>

theorem set_then_get:
  assumes "leveldb D good entries view rest" and "good (wdb w)"
  shows "\<exists>w'. set_request D cmd w = Inr (True, True, w') \<and>
    (\<forall>k. Get D (wdb w') k =
       (case map_of (rev cmd) k of Some v \<Rightarrow> Some v | None \<Rightarrow> Get D (wdb w) k))"
proof -
  obtain d' where "put_all D cmd True (wdb w) = (True, d')" "good d'"
    and e: "entries d' = ins_all (entries (wdb w)) cmd"
    by (rule leveldb.put_all_run [OF assms])
  moreover have "readable_store D good entries view rest" by (rule leveldb.axioms(1) [OF assms(1)])
  note get = readable_store.get [OF this]
  moreover have "sorted_keys (entries (wdb w))"
    by (rule ordered_store.entries_sorted [OF readable_store.axioms(1) [OF leveldb.axioms(1) [OF assms(1)]] assms(2)])
  ultimately show ?thesis
    using assms(2) by (auto simp: set_request_def map_of_ins_all map_add_def split: option.splits)
qed

theorem set_then_get_witness:
  "\<exists>w'. set_request std_map_ops [(''k'', ''1''), (''k'', ''2'')] \<lparr>wdb = [(''a'', ''0'')], wrep = []\<rparr> =
       Inr (True, True, w') \<and>
     Get std_map_ops (wdb w') ''k'' = Some ''2'' \<and> Get std_map_ops (wdb w') ''a'' = Some ''0''"
proof -
  from set_then_get [where entries = id and w = "\<lparr>wdb = [(''a'', ''0'')], wrep = []\<rparr>",
      OF std_map.leveldb_axioms, of "[(''k'', ''1''), (''k'', ''2'')]"]
  show ?thesis by (auto simp: mem_ops_defs)
qed

text \<open>
  \<open>add\<close> never overwrites: a key that has a value keeps it, a new key gets the first value
  the request gives it, and exactly the pairs that were added are passed on to the slaves.
\<close>

lemma add_keeps_existing:
  assumes "leveldb D good entries view rest" and "good (wdb w)"
  shows "\<exists>res w'. add_request D cmd w = Inr (True, res, w') \<and>
    (\<forall>k. Get D (wdb w') k =
       (case Get D (wdb w) k of Some v \<Rightarrow> Some v | None \<Rightarrow> map_of cmd k)) \<and>
    wrep w' = rep_set (add_new (\<lambda>k. Get D (wdb w) k \<noteq> None) cmd) (wrep w)"
proof -
  have st: "readable_store D good entries view rest" by (rule leveldb.axioms(1) [OF assms(1)])
  note get = readable_store.get [OF st]
  have sorted: "sorted_keys (entries (wdb w))"
    by (rule ordered_store.entries_sorted [OF readable_store.axioms(1) [OF st] assms(2)])
  from leveldb.add_loop_entries [OF assms] obtain res d' where
    add: "add_loop D cmd (wdb w) = (res, add_new (\<lambda>k. map_of (entries (wdb w)) k \<noteq> None) cmd, d')"
    and "good d'"
    and e: "entries d' = ins_all (entries (wdb w)) (add_new (\<lambda>k. map_of (entries (wdb w)) k \<noteq> None) cmd)"
    by blast
  then show ?thesis
    using assms(2) sorted
    by (intro exI [of _ res] exI [of _ "w\<lparr>wdb := d', wrep := rep_set (add_new (\<lambda>k. map_of (entries (wdb w)) k \<noteq> None) cmd) (wrep w)\<rparr>"])
       (auto simp: add_request_def get map_of_ins_all map_add_def add_new_map_of split: option.splits)
qed



lemma inc_loop_append:
  "inc_loop D (pre @ cmd) result d =
     (case inc_loop D pre result d of Inl x \<Rightarrow> Inl x | Inr (result', d') \<Rightarrow> inc_loop D cmd result' d')"
  by (induction D pre result d rule: inc_loop.induct)
     (simp_all add: Let_def split: option.splits sum.splits prod.splits)

text \<open>
  \<open>inc\<close> on a stored value that is no number throws out of the method: the increments of
  the keys before it stay in the store but are not passed on to any slave.
\<close>

lemma inc_failure_not_replicated:
  assumes "inc_loop D pre [] (wdb w) = Inr (fine, d)" and "Get D d k = Some r" and "read_number r = Inl e"
  shows "inc_request D (pre @ (k, n) # cmd) w = Inl (e, w\<lparr>wdb := d\<rparr>)"
  using assms by (simp add: inc_request_def inc_loop_append)

end
