(* ===== verification/Replica.thy ===== *)
theory Replica
  imports Method_Laws
begin

text \<open>
  Master and slave together: the slave executes the queued requests with the same methods,
  on its own store. The theory shows that the writing methods keep a running slave
  convergent: whatever requests the master serves, a slave that executes everything in its
  queue ends with the master's contents. Every method contributes the same argument, that
  what it queues has the effect it had itself.
\<close>

section \<open>The slave\<close>

text \<open>One queued request, parsed and executed by the slave's \<open>del\<close> or \<open>set\<close>.\<close>

definition slave_apply :: "('d, 'i) db_ops \<Rightarrow> string \<times> string \<Rightarrow> 'd \<Rightarrow> 'd res" where
  "slave_apply D item d =
     (if fst item = ''del''
      then bindE (unser vallist_json [] (snd item)) (\<lambda>(ks, _). Inr (snd (del_loop D ks d)))
      else bindE (unser valmap2str_json [] (snd item)) (\<lambda>(kvs, _). Inr (snd (put_all D kvs True d))))"

fun slave_run :: "('d, 'i) db_ops \<Rightarrow> (string \<times> string) list \<Rightarrow> 'd \<Rightarrow> 'd res" where
  "slave_run D [] d = Inr d"
| "slave_run D (item # items) d = bindE (slave_apply D item d) (slave_run D items)"

lemma slave_run_snoc:
  "slave_run D (items @ [item]) d = bindE (slave_run D items d) (slave_apply D item)"
  by (induction items arbitrary: d) (simp_all add: bindE_def split: sum.splits)

section \<open>What a method queues\<close>

lemma map_of_send:
  "map_of (send_to_clients T str data part rs) i =
     (if data = [] then map_of rs i else map_option (send_to_client T str data part) (map_of rs i))"
  by (induction rs) (auto simp: send_to_clients_def)

lemma rep_set_running:
  assumes "map_of rs i = Some cl" and "cl_state cl = running"
  shows "map_of (rep_set data rs) i =
    Some (if data = [] then cl else cl\<lparr>queue := queue cl @ [(''set'', ser valmap2str_json data)]\<rparr>)"
  using assms by (simp add: rep_set_def map_of_send send_to_client_def send_def enqueue_def)

lemma rep_del_running:
  assumes "map_of rs i = Some cl" and "cl_state cl = running"
  shows "map_of (rep_del data rs) i =
    Some (if data = [] then cl else cl\<lparr>queue := queue cl @ [(''del'', ser vallist_json data)]\<rparr>)"
  using assms by (simp add: rep_del_def map_of_send send_to_client_def send_def enqueue_def)

context leveldb
begin

text \<open>The slave \<open>i\<close> of the master's state \<open>w\<close>, whose own store is \<open>ds\<close>, will catch up.\<close>

definition replica_ok where
  "replica_ok w i ds \<longleftrightarrow> inv (wdb w) \<and> (\<exists>cl ds'. map_of (wrep w) i = Some cl \<and> cl_state cl = running \<and>
     slave_run D (queue cl) ds = Inr ds' \<and> inv ds' \<and> entries ds' = entries (wdb w))"

lemma slave_set:
  assumes "inv ds" and "strs_ok data"
  obtains ds' where "slave_apply D (''set'', ser valmap2str_json data) ds = Inr ds'" and "inv ds'"
    and "entries ds' = ins_all (entries ds) data"
proof -
  obtain ds' where "put_all D data True ds = (True, ds')" "inv ds'" "entries ds' = ins_all (entries ds) data"
    by (rule put_all_run [OF assms(1)])
  then show ?thesis
    using strs.roundtrip [OF assms(2), of "[]"] by (intro that) (auto simp: slave_apply_def)
qed

lemma slave_del:
  assumes "inv ds" and "list_all text_ok ks"
  obtains ds' where "slave_apply D (''del'', ser vallist_json ks) ds = Inr ds'" and "inv ds'"
    and "entries ds' = erase_all (entries ds) ks"
proof -
  obtain ds' where "del_loop D ks ds = (map (\<lambda>k. (k, True)) ks, ds')" "inv ds'"
    "entries ds' = erase_all (entries ds) ks"
    using del_loop_entries [OF assms(1)] by blast
  then show ?thesis
    using keys.roundtrip [OF assms(2), of "[]"] by (intro that) (auto simp: slave_apply_def)
qed

text \<open>A method that inserts \<open>data\<close> and queues \<open>data\<close> keeps the slave convergent.\<close>

lemma replica_insert:
  assumes "replica_ok w i ds" and "strs_ok data"
    and "inv d'" and "entries d' = ins_all (entries (wdb w)) data"
  shows "replica_ok (w\<lparr>wdb := d', wrep := rep_set data (wrep w)\<rparr>) i ds"
proof -
  from assms(1) obtain cl ds' where cl: "map_of (wrep w) i = Some cl" "cl_state cl = running"
    and ds': "slave_run D (queue cl) ds = Inr ds'" "inv ds'" "entries ds' = entries (wdb w)"
    by (auto simp: replica_ok_def)
  show ?thesis
  proof (cases "data = []")
    case True
    then show ?thesis using assms cl ds' rep_set_running [OF cl, of data] by (auto simp: replica_ok_def)
  next
    case False
    obtain ds2 where "slave_apply D (''set'', ser valmap2str_json data) ds' = Inr ds2" "inv ds2"
      "entries ds2 = ins_all (entries ds') data"
      by (rule slave_set [OF ds'(2) assms(2)])
    then show ?thesis
      using False assms(3,4) cl ds' rep_set_running [OF cl, of data]
      by (auto simp: replica_ok_def slave_run_snoc)
  qed
qed

lemma replica_erase:
  assumes "replica_ok w i ds" and "list_all text_ok ks"
    and "inv d'" and "entries d' = erase_all (entries (wdb w)) ks"
  shows "replica_ok (w\<lparr>wdb := d', wrep := rep_del ks (wrep w)\<rparr>) i ds"
proof -
  from assms(1) obtain cl ds' where cl: "map_of (wrep w) i = Some cl" "cl_state cl = running"
    and ds': "slave_run D (queue cl) ds = Inr ds'" "inv ds'" "entries ds' = entries (wdb w)"
    by (auto simp: replica_ok_def)
  obtain ds2 where "slave_apply D (''del'', ser vallist_json ks) ds' = Inr ds2" "inv ds2"
    "entries ds2 = erase_all (entries ds') ks"
    by (rule slave_del [OF ds'(2) assms(2)])
  then show ?thesis
    using assms(1,3,4) cl ds' rep_del_running [OF cl, of ks]
    by (cases "ks = []") (auto simp: replica_ok_def slave_run_snoc)
qed

end

section \<open>The requests\<close>

text \<open>
  The texts that pass through the queue have to survive the JSON round trip: UTF-8 without
  zero bytes. The text of a number always does.
\<close>

lemma text_ok_ascii: "list_all (\<lambda>c. byte c < 128 \<and> c \<noteq> NUL) s \<Longrightarrow> text_ok s"
  by (induction s) (auto simp: text_ok_def and_128_char)

lemma decimal_chars: "list_all (\<lambda>c. c = CHR ''-'' \<or> is_digit c) (decimal v)"
proof -
  have digits: "list_all (\<lambda>c. c = CHR ''-'' \<or> is_digit c) (rev (put_digits 1 x))" if "0 < x" for x
    using rev_put_digits [OF that] by (auto simp: list_all_iff)
  show ?thesis using digits [of v] digits [of "- v"] by (auto simp: decimal_def is_digit_iff)
qed

lemma number_char: "c = CHR ''-'' \<or> is_digit c \<Longrightarrow> byte c < 128 \<and> c \<noteq> NUL"
  by (erule disjE) (auto simp: is_digit_iff)

lemma text_ok_number:
  assumes "fits c_long_long v"
  shows "text_ok (write_number v)"
proof -
  have "write_number v = decimal v"
    using assms by (simp add: write_number_def integer_codec_def serialize_integer_decimal)
  moreover have "list_all (\<lambda>c. byte c < 128 \<and> c \<noteq> NUL) (decimal v)"
    by (rule list.pred_mono_strong [OF decimal_chars number_char])
  ultimately show ?thesis by (simp only: text_ok_ascii)
qed

inductive write_step ::
  "('d, 'i) db_ops \<Rightarrow> (valmap2str_map \<Rightarrow> valmap2str_map) \<Rightarrow> 'd world \<Rightarrow> 'd world \<Rightarrow> bool" for D iter where
  Set: "strs_ok cmd \<Longrightarrow> set_request D cmd w = Inr (ok, res, w') \<Longrightarrow> write_step D iter w w'"
| Del: "list_all text_ok ks \<Longrightarrow> del_request D ks w = Inr (ok, resd, w') \<Longrightarrow> write_step D iter w w'"
| Add: "strs_ok cmd \<Longrightarrow> add_request D cmd w = Inr (ok, resd, w') \<Longrightarrow> write_step D iter w w'"
| Inc: "list_all (text_ok \<circ> fst) cmdi \<Longrightarrow> inc_request D cmdi w = Inr (ok, resr, w') \<Longrightarrow> write_step D iter w w'"
| Inc_add: "list_all (text_ok \<circ> fst) (ia_inc cmda) \<Longrightarrow> inc_add_request D cmda w = Inr (ok, resr, w') \<Longrightarrow>
    write_step D iter w w'"
| Update_packed: "text_ok (up_key cmdu) \<Longrightarrow> text_ok resu \<Longrightarrow>
    update_packed_request iter D cmdu w = Inr (ok, resu, w') \<Longrightarrow> write_step D iter w w'"

lemma strs_ok_Cons [simp]: "strs_ok (e # es) \<longleftrightarrow> text_ok (fst e) \<and> text_ok (snd e) \<and> strs_ok es"
  and strs_ok_Nil [simp]: "strs_ok []" and strs_ok_append [simp]: "strs_ok (a @ b) \<longleftrightarrow> strs_ok a \<and> strs_ok b"
  by (simp_all add: strs_ok_def)

lemma strs_ok_add_new: "strs_ok cmd \<Longrightarrow> strs_ok (add_new known cmd)"
  by (induction known cmd rule: add_new.induct) auto

lemma inc_loop_texts:
  "inc_loop D cmd result d = Inr (result', d') \<Longrightarrow> list_all (text_ok \<circ> fst) cmd \<Longrightarrow> strs_ok result \<Longrightarrow>
     strs_ok result'"
proof (induction D cmd result d rule: inc_loop.induct)
  case (2 D k n cmd result d)
  then show ?case
    by (auto simp: push_pair_def Let_def text_ok_number plus_ll_fits
        split: option.splits sum.splits prod.splits if_splits)
qed simp

lemma inc_add_loop_texts:
  "inc_add_loop D defs cmd result d = (result', d') \<Longrightarrow> list_all (text_ok \<circ> fst) cmd \<Longrightarrow> strs_ok result \<Longrightarrow>
     strs_ok result'"
proof (induction D defs cmd result d rule: inc_add_loop.induct)
  case (2 D defs k n cmd result d)
  then show ?case
    by (auto simp: push_pair_def Let_def text_ok_number plus_ll_fits split: prod.splits if_splits)
qed simp

context leveldb
begin

lemma replica_step:
  assumes "write_step D iter w w'" and ok: "replica_ok w i ds"
  shows "replica_ok w' i ds"
proof -
  have inv: "inv (wdb w)" using ok by (simp add: replica_ok_def)
  show ?thesis using assms(1)
  proof (cases rule: write_step.cases)
    case (Set cmd ok' res)
    obtain d' where "put_all D cmd True (wdb w) = (True, d')" "inv d'"
      "entries d' = ins_all (entries (wdb w)) cmd" by (rule put_all_run [OF inv])
    with replica_insert [OF ok Set(1)] Set(2) show ?thesis by (auto simp: set_request_def)
  next
    case (Del ks ok' res)
    obtain d' where "del_loop D ks (wdb w) = (map (\<lambda>k. (k, True)) ks, d')" "inv d'"
      "entries d' = erase_all (entries (wdb w)) ks" using del_loop_entries [OF inv] by blast
    with replica_erase [OF ok Del(1)] Del(2) show ?thesis by (auto simp: del_request_def)
  next
    case (Add cmd ok' res)
    let ?new = "add_new (\<lambda>k. map_of (entries (wdb w)) k \<noteq> None) cmd"
    obtain r d' where "add_loop D cmd (wdb w) = (r, ?new, d')" "inv d'"
      "entries d' = ins_all (entries (wdb w)) ?new" using add_loop_entries [OF inv] by blast
    with replica_insert [OF ok strs_ok_add_new [OF Add(1)]] Add(2) show ?thesis
      by (auto simp: add_request_def)
  next
    case (Inc cmd ok' res)
    from Inc(2) obtain new d' where l: "inc_loop D cmd [] (wdb w) = Inr (new, d')"
      and w': "w' = w\<lparr>wdb := d', wrep := rep_set new (wrep w)\<rparr>"
      by (auto simp: inc_request_def split: sum.splits)
    have "inv d' \<and> entries d' = ins_all (entries (wdb w)) new" using inc_entries [OF inv l] by simp
    with replica_insert [OF ok inc_loop_texts [OF l Inc(1)]] w' show ?thesis by simp
  next
    case (Inc_add cmd ok' res)
    obtain new d' where l: "inc_add_loop D (ia_def cmd) (ia_inc cmd) [] (wdb w) = (new, d')"
      and d': "inv d'" "entries d' = ins_all (entries (wdb w)) new"
      using inc_add_entries [OF inv, of "ia_def cmd" "ia_inc cmd" "[]"] by auto
    with replica_insert [OF ok inc_add_loop_texts [OF l Inc_add(1)]] Inc_add(2) show ?thesis
      by (auto simp: inc_add_request_def)
  next
    case (Update_packed cmd res ok')
    let ?r = "ser (valmap2str_map_json iter)
      (packed_inc (up_inc cmd) (packed_set (up_set cmd) (packed_load iter D (wdb w) cmd)))"
    obtain d' where d': "Put D (wdb w) (up_key cmd) ?r = (d', True)" using put_result [OF inv] by blast
    with Update_packed(3) have "res = ?r" "w' = w\<lparr>wdb := d', wrep := rep_set [(up_key cmd, ?r)] (wrep w)\<rparr>"
      by (auto simp: update_packed_request_def Let_def)
    then show ?thesis
      using replica_insert [OF ok, of "[(up_key cmd, ?r)]" d'] Update_packed(1,2)
        put_inv [OF inv d'] put_entries [OF inv d'] by simp
  qed
qed

lemma replica_steps: "(write_step D iter)\<^sup>*\<^sup>* w w' \<Longrightarrow> replica_ok w i ds \<Longrightarrow> replica_ok w' i ds"
  by (induction rule: rtranclp_induct) (auto intro: replica_step)

end



end
