(* ===== verification/Locks.thy ===== *)
theory Locks
  imports Prelude
begin

text \<open>
  The locks of \<open>common/lock_atomic.hpp\<close> and the \<open>LockManager\<close> of \<open>src/db.hpp\<close>. Each atomic
  access is one step; threads are natural numbers and interleave freely. A thread is
  described by the point it has reached in \<open>lock()\<close>, \<open>unlock()\<close>, \<open>lock_r()\<close> or
  \<open>unlock_r()\<close>.
\<close>

section \<open>Threads at a point\<close>

definition at :: "('p \<Rightarrow> bool) \<Rightarrow> (nat \<Rightarrow> 'p) \<Rightarrow> nat set" where
  "at P f = {t. P (f t)}"

lemma at_iff: "t \<in> at P f \<longleftrightarrow> P (f t)"
  by (simp add: at_def)

lemma at_upd: "at P (f(t := p)) = (if P p then insert t (at P f) else at P f - {t})"
  by (auto simp: at_def)

text \<open>A step of a thread that is not there and does not go there, or stays there.\<close>

lemma at_upd_same: "P p \<longleftrightarrow> P (f t) \<Longrightarrow> at P (f(t := p)) = at P f"
  by (auto simp: at_def)

lemma at_const [simp]: "at P (\<lambda>_. p) = (if P p then UNIV else {})"
  by (simp add: at_def)

section \<open>spinlock\<close>

text \<open>\<open>value.exchange(true)\<close>: the old value, and the new one.\<close>

definition exchange :: "bool \<Rightarrow> bool \<times> bool" where
  "exchange v = (v, True)"

text \<open>\<open>try_lock\<close>, which is also one round of the loop of \<open>lock\<close>: whether it got the lock.\<close>

definition try_lock :: "bool \<Rightarrow> bool \<times> bool" where
  "try_lock v = (let (old, v') = exchange v in (\<not> old, v'))"

definition unlock :: "bool \<Rightarrow> bool" where
  "unlock v = False"

datatype pc = Idle | Spin | Crit

record spin =
  spin_value :: bool
  spin_pc :: "nat \<Rightarrow> pc"

definition spin_init :: spin where
  "spin_init = \<lparr>spin_value = False, spin_pc = (\<lambda>_. Idle)\<rparr>"

inductive spin_step :: "spin \<Rightarrow> spin \<Rightarrow> bool" where
  Lock: "spin_pc s t = Idle \<Longrightarrow> spin_step s (s\<lparr>spin_pc := (spin_pc s)(t := Spin)\<rparr>)"
| Round: "spin_pc s t = Spin \<Longrightarrow> try_lock (spin_value s) = (got, v) \<Longrightarrow>
    spin_step s \<lparr>spin_value = v, spin_pc = (spin_pc s)(t := if got then Crit else Spin)\<rparr>"
| Try: "spin_pc s t = Idle \<Longrightarrow> try_lock (spin_value s) = (got, v) \<Longrightarrow>
    spin_step s \<lparr>spin_value = v, spin_pc = (spin_pc s)(t := if got then Crit else Idle)\<rparr>"
| Unlock: "spin_pc s t = Crit \<Longrightarrow>
    spin_step s \<lparr>spin_value = unlock (spin_value s), spin_pc = (spin_pc s)(t := Idle)\<rparr>"

inductive_cases spin_step_cases: "spin_step s s'"

abbreviation holders :: "spin \<Rightarrow> nat set" where
  "holders s \<equiv> at (\<lambda>p. p = Crit) (spin_pc s)"

definition spin_inv :: "spin \<Rightarrow> bool" where
  "spin_inv s \<longleftrightarrow> (if spin_value s then \<exists>h. holders s = {h} else holders s = {})"

lemma spin_inv_step: "spin_step s s' \<Longrightarrow> spin_inv s \<Longrightarrow> spin_inv s'"
proof (induction rule: spin_step.induct)
  case (Lock s t)
  then show ?case by (simp add: spin_inv_def at_upd_same)
next
  case (Round s t got v)
  show ?case
  proof (cases "spin_value s")
    case True
    with Round show ?thesis by (auto simp: spin_inv_def at_upd_same try_lock_def exchange_def)
  next
    case False
    with Round show ?thesis by (auto simp: spin_inv_def at_upd try_lock_def exchange_def)
  qed
next
  case (Try s t got v)
  show ?case
  proof (cases "spin_value s")
    case True
    with Try show ?thesis by (auto simp: spin_inv_def at_upd_same try_lock_def exchange_def)
  next
    case False
    with Try show ?thesis by (auto simp: spin_inv_def at_upd try_lock_def exchange_def)
  qed
next
  case (Unlock s t)
  then have "t \<in> holders s" by (simp add: at_iff)
  with Unlock.prems show ?case by (auto simp: spin_inv_def at_upd unlock_def split: if_splits)
qed

lemma spin_inv_init: "spin_inv spin_init"
  by (simp add: spin_inv_def spin_init_def)

lemma spin_inv_reach: "spin_step\<^sup>*\<^sup>* spin_init s \<Longrightarrow> spin_inv s"
  by (induction rule: rtranclp_induct) (auto intro: spin_inv_step spin_inv_init)

text \<open>
  C32. \<open>spinlock\<close> is a mutual exclusion lock: under every interleaving of \<open>lock\<close>, \<open>try_lock\<close> and
  \<open>unlock\<close> at most one thread holds it, and it is free exactly when no thread holds it.
\<close>

theorem spinlock_mutual_exclusion:
  assumes "spin_step\<^sup>*\<^sup>* spin_init s"
  shows "(spin_pc s t = Crit \<and> spin_pc s u = Crit \<longrightarrow> t = u) \<and>
         (spin_value s \<longleftrightarrow> (\<exists>t. spin_pc s t = Crit))"
proof -
  have "spin_inv s" by (rule spin_inv_reach [OF assms])
  moreover have "x \<in> holders s \<longleftrightarrow> spin_pc s x = Crit" for x by (rule at_iff)
  ultimately show ?thesis unfolding spin_inv_def by (metis empty_iff insertI1 singletonD)
qed

theorem spinlock_mutual_exclusion_witness:
  "\<exists>s. spin_step\<^sup>*\<^sup>* spin_init s \<and> spin_pc s 0 = Crit \<and> (\<forall>u. spin_pc s u = Crit \<longrightarrow> 0 = u)"
proof -
  let ?s = "\<lparr>spin_value = True, spin_pc = (\<lambda>_. Idle)(0 := Crit)\<rparr>"
  have "spin_step spin_init ?s"
    using spin_step.Try [of spin_init 0 True True]
    by (simp add: spin_init_def try_lock_def exchange_def)
  then have r: "spin_step\<^sup>*\<^sup>* spin_init ?s" by (rule r_into_rtranclp)
  have "spin_pc ?s 0 = Crit" by simp
  with r spinlock_mutual_exclusion [OF r, of 0] show ?thesis by blast
qed

section \<open>multispinlock\<close>

text \<open>
  The points of a thread: a writer spins on \<open>wvalue\<close> (\<open>W1\<close>), then on \<open>rvalue\<close> (\<open>W2\<close>); a
  reader spins on \<open>wvalue\<close> (\<open>R1\<close>) and increments \<open>rvalue\<close> in a second step (\<open>R2\<close>).
\<close>

datatype mpc = MIdle | W1 | W2 | WCrit | R1 | R2 | RCrit

record multi =
  rvalue :: int
  wvalue :: bool
  mpcs :: "nat \<Rightarrow> mpc"

definition multi_init :: multi where
  "multi_init = \<lparr>rvalue = 0, wvalue = False, mpcs = (\<lambda>_. MIdle)\<rparr>"

definition goto :: "nat \<Rightarrow> mpc \<Rightarrow> multi \<Rightarrow> multi" where
  "goto t p s = s\<lparr>mpcs := (mpcs s)(t := p)\<rparr>"

inductive multi_step :: "multi \<Rightarrow> multi \<Rightarrow> bool" where
  M_lock: "mpcs s t = MIdle \<Longrightarrow> multi_step s (goto t W1 s)"
| M_exchange: "mpcs s t = W1 \<Longrightarrow> exchange (wvalue s) = (old, v) \<Longrightarrow>
    multi_step s (goto t (if old then W1 else W2) (s\<lparr>wvalue := v\<rparr>))"
| M_wait: "mpcs s t = W2 \<Longrightarrow> multi_step s (goto t (if rvalue s \<noteq> 0 then W2 else WCrit) s)"
| M_unlock: "mpcs s t = WCrit \<Longrightarrow> multi_step s (goto t MIdle (s\<lparr>wvalue := False\<rparr>))"
| M_lock_r: "mpcs s t = MIdle \<Longrightarrow> multi_step s (goto t R1 s)"
| M_load: "mpcs s t = R1 \<Longrightarrow> multi_step s (goto t (if wvalue s then R1 else R2) s)"
| M_increment: "mpcs s t = R2 \<Longrightarrow> multi_step s (goto t RCrit (s\<lparr>rvalue := rvalue s + 1\<rparr>))"
| M_unlock_r: "mpcs s t = RCrit \<Longrightarrow> multi_step s (goto t MIdle (s\<lparr>rvalue := rvalue s - 1\<rparr>))"

definition writing :: "mpc \<Rightarrow> bool" where
  "writing p \<longleftrightarrow> p = W2 \<or> p = WCrit"

abbreviation writers :: "multi \<Rightarrow> nat set" where
  "writers s \<equiv> at writing (mpcs s)"

abbreviation readers :: "multi \<Rightarrow> nat set" where
  "readers s \<equiv> at (\<lambda>p. p = RCrit) (mpcs s)"

lemma writing_simps [simp]:
  "writing W2" "writing WCrit" "\<not> writing MIdle" "\<not> writing W1" "\<not> writing R1" "\<not> writing R2"
  "\<not> writing RCrit"
  by (simp_all add: writing_def)

lemma goto_fields [simp]:
  "rvalue (goto t p s) = rvalue s" "wvalue (goto t p s) = wvalue s"
  "mpcs (goto t p s) = (mpcs s)(t := p)"
  by (simp_all add: goto_def)

definition writers_inv :: "multi \<Rightarrow> bool" where
  "writers_inv s \<longleftrightarrow> (if wvalue s then \<exists>h. writers s = {h} else writers s = {})"

lemma writers_inv_step: "multi_step s s' \<Longrightarrow> writers_inv s \<Longrightarrow> writers_inv s'"
proof (induction rule: multi_step.induct)
  case (M_exchange s t old v)
  show ?case
  proof (cases "wvalue s")
    case True
    with M_exchange show ?thesis by (auto simp: writers_inv_def at_upd_same exchange_def)
  next
    case False
    with M_exchange show ?thesis by (auto simp: writers_inv_def at_upd exchange_def)
  qed
next
  case (M_unlock s t)
  then have "t \<in> writers s" by (simp add: at_iff)
  with M_unlock.prems show ?case by (auto simp: writers_inv_def at_upd split: if_splits)
qed (auto simp: writers_inv_def at_upd_same)

definition readers_inv :: "multi \<Rightarrow> bool" where
  "readers_inv s \<longleftrightarrow> finite (readers s) \<and> rvalue s = int (card (readers s))"

lemma readers_inv_step: "multi_step s s' \<Longrightarrow> readers_inv s \<Longrightarrow> readers_inv s'"
proof (induction rule: multi_step.induct)
  case (M_increment s t)
  then have "t \<notin> readers s" by (simp add: at_iff)
  with M_increment.prems show ?case by (simp add: readers_inv_def at_upd)
next
  case (M_unlock_r s t)
  then have t: "t \<in> readers s" by (simp add: at_iff)
  with M_unlock_r.prems have "0 < card (readers s)" by (auto simp: readers_inv_def card_gt_0_iff)
  with M_unlock_r.prems t show ?case by (simp add: readers_inv_def at_upd)
qed (auto simp: readers_inv_def at_upd_same)

lemma multi_inv_reach: "multi_step\<^sup>*\<^sup>* multi_init s \<Longrightarrow> writers_inv s \<and> readers_inv s"
proof (induction rule: rtranclp_induct)
  case base
  show ?case by (simp add: writers_inv_def readers_inv_def multi_init_def)
qed (auto intro: writers_inv_step readers_inv_step)

text \<open>
  \<open>multispinlock\<close> keeps writers apart from each other, and \<open>rvalue\<close> counts the readers
  inside: under every interleaving at most one thread has passed the writer's first loop.
\<close>

lemma multispinlock_writers_exclusive:
  assumes "multi_step\<^sup>*\<^sup>* multi_init s"
  shows "(mpcs s t = WCrit \<and> mpcs s u = WCrit \<longrightarrow> t = u) \<and>
         rvalue s = int (card {t. mpcs s t = RCrit})"
proof -
  have "writers_inv s" "readers_inv s" using multi_inv_reach [OF assms] by auto
  then have "card (writers s) \<le> 1" by (auto simp: writers_inv_def split: if_splits)
  moreover have "{t, u} \<subseteq> writers s" if "mpcs s t = WCrit \<and> mpcs s u = WCrit" using that by (simp add: at_iff)
  moreover have "finite (writers s)" using \<open>writers_inv s\<close> by (auto simp: writers_inv_def split: if_splits)
  ultimately show ?thesis
    using \<open>readers_inv s\<close> card_mono [of "writers s" "{t, u}"]
    by (auto simp: readers_inv_def at_def card_insert_if split: if_splits)
qed

text \<open>
  \<open>multispinlock\<close> does not keep readers and writers apart: between the reader's test of
  \<open>wvalue\<close> and its increment of \<open>rvalue\<close> a writer can pass both of its tests, and then both
  are inside.
\<close>

lemma multispinlock_reader_writer_race:
  "\<exists>s. multi_step\<^sup>*\<^sup>* multi_init s \<and> mpcs s 0 = RCrit \<and> mpcs s 1 = WCrit"
proof -
  let ?s1 = "goto 0 R1 multi_init"
  let ?s2 = "goto 0 R2 ?s1"
  let ?s3 = "goto 1 W1 ?s2"
  let ?s4 = "goto 1 W2 (?s3\<lparr>wvalue := True\<rparr>)"
  let ?s5 = "goto 1 WCrit ?s4"
  let ?s6 = "goto 0 RCrit (?s5\<lparr>rvalue := rvalue ?s5 + 1\<rparr>)"
  have 1: "multi_step multi_init ?s1" by (rule multi_step.M_lock_r) (simp add: multi_init_def)
  have 2: "multi_step ?s1 ?s2" using multi_step.M_load [of ?s1 0] by (simp add: multi_init_def)
  have 3: "multi_step ?s2 ?s3" by (rule multi_step.M_lock) (simp add: multi_init_def)
  have 4: "multi_step ?s3 ?s4" using multi_step.M_exchange [of ?s3 1 False True]
    by (simp add: exchange_def multi_init_def)
  have 5: "multi_step ?s4 ?s5" using multi_step.M_wait [of ?s4 1]
    by (simp add: goto_def multi_init_def)
  have 6: "multi_step ?s5 ?s6" by (rule multi_step.M_increment) (simp add: multi_init_def)
  have "multi_step\<^sup>*\<^sup>* multi_init ?s6"
    using 1 2 3 4 5 6 by (meson converse_rtranclp_into_rtranclp rtranclp.rtrancl_refl)
  then show ?thesis by (intro exI [of _ ?s6]) (simp add: goto_def)
qed

end
