(* ===== verification/Key_Locks.thy ===== *)
theory Key_Locks
  imports Locks Method_Laws
begin

text \<open>
  The key locks of \<open>src/db.hpp\<close> at work: the threads of the daemon execute the critical
  section of \<open>inc_add\<close> (\<open>src/fas_methods.hpp\<close>), each for its own key and increment,
  interleaved at every access to the lock and to the store. \<open>LockManager\<close> maps a key to one
  of 1024 spin locks by the hash of the key, so two keys may share a lock, but a key never
  has two.
\<close>

definition lock_index :: "nat \<Rightarrow> nat" where
  "lock_index n = n mod 1024"

definition key_lock :: "(string \<Rightarrow> nat) \<Rightarrow> string \<Rightarrow> nat" where
  "key_lock h str = lock_index (h str)"

lemma key_lock_in_range: "key_lock h str < 1024"
  by (simp add: key_lock_def lock_index_def)

section \<open>The machine\<close>

text \<open>
  The points of a thread: before the lock, with the lock, after \<open>Get\<close>, after \<open>Put\<close>, and after
  the lock guard has been destroyed.
\<close>

datatype kpc = KStart | KLocked | KRead | KWritten | KDone

record ksys =
  locks :: "nat \<Rightarrow> bool"
  counter :: "string \<Rightarrow> int"
  val :: "nat \<Rightarrow> int"
  kpcs :: "nat \<Rightarrow> kpc"

definition k_init :: "(string \<Rightarrow> int) \<Rightarrow> ksys" where
  "k_init c = \<lparr>locks = (\<lambda>_. False), counter = c, val = (\<lambda>_. 0), kpcs = (\<lambda>_. KStart)\<rparr>"

inductive k_step ::
  "(string \<Rightarrow> nat) \<Rightarrow> (nat \<Rightarrow> string) \<Rightarrow> (nat \<Rightarrow> int) \<Rightarrow> ksys \<Rightarrow> ksys \<Rightarrow> bool" for h ky amount where
  K_lock: "kpcs s t = KStart \<Longrightarrow> try_lock (locks s (key_lock h (ky t))) = (got, v) \<Longrightarrow>
    k_step h ky amount s (s\<lparr>locks := (locks s)(key_lock h (ky t) := v),
      kpcs := (kpcs s)(t := if got then KLocked else KStart)\<rparr>)"
| K_get: "kpcs s t = KLocked \<Longrightarrow>
    k_step h ky amount s (s\<lparr>val := (val s)(t := counter s (ky t)), kpcs := (kpcs s)(t := KRead)\<rparr>)"
| K_put: "kpcs s t = KRead \<Longrightarrow>
    k_step h ky amount s (s\<lparr>counter := (counter s)(ky t := plus_ll (val s t) (amount t)),
      kpcs := (kpcs s)(t := KWritten)\<rparr>)"
| K_unlock: "kpcs s t = KWritten \<Longrightarrow>
    k_step h ky amount s (s\<lparr>locks := (locks s)(key_lock h (ky t) := unlock (locks s (key_lock h (ky t)))),
      kpcs := (kpcs s)(t := KDone)\<rparr>)"

section \<open>The invariant\<close>

definition inside :: "kpc \<Rightarrow> bool" where
  "inside p \<longleftrightarrow> p = KLocked \<or> p = KRead \<or> p = KWritten"

definition written :: "kpc \<Rightarrow> bool" where
  "written p \<longleftrightarrow> p = KWritten \<or> p = KDone"

lemma point_simps [simp]:
  "inside KLocked" "inside KRead" "inside KWritten" "\<not> inside KStart" "\<not> inside KDone"
  "written KWritten" "written KDone" "\<not> written KStart" "\<not> written KLocked" "\<not> written KRead"
  by (simp_all add: inside_def written_def)

text \<open>The holder of a lock is unique, and a value read is still the stored one.\<close>

definition k_inv :: "(string \<Rightarrow> nat) \<Rightarrow> (nat \<Rightarrow> string) \<Rightarrow> ksys \<Rightarrow> bool" where
  "k_inv h ky s \<longleftrightarrow>
     (\<forall>t u. inside (kpcs s t) \<longrightarrow> inside (kpcs s u) \<longrightarrow> key_lock h (ky t) = key_lock h (ky u) \<longrightarrow> t = u) \<and>
     (\<forall>t. inside (kpcs s t) \<longrightarrow> locks s (key_lock h (ky t))) \<and>
     (\<forall>t. kpcs s t = KRead \<longrightarrow> val s t = counter s (ky t))"

lemma k_inv_step: "k_step h ky amount s s' \<Longrightarrow> k_inv h ky s \<Longrightarrow> k_inv h ky s'"
proof (induction rule: k_step.induct)
  case (K_lock s t got v)
  show ?case
  proof (cases "locks s (key_lock h (ky t))")
    case True
    with K_lock show ?thesis by (auto simp: k_inv_def try_lock_def exchange_def)
  next
    case False
    with K_lock.prems have "\<forall>u. inside (kpcs s u) \<longrightarrow> key_lock h (ky u) \<noteq> key_lock h (ky t)"
      by (auto simp: k_inv_def)
    with False K_lock show ?thesis by (auto simp: k_inv_def try_lock_def exchange_def)
  qed
next
  case (K_get s t)
  then show ?case by (auto simp: k_inv_def)
next
  case (K_put s t)
  then have "\<forall>u. inside (kpcs s u) \<longrightarrow> ky u = ky t \<longrightarrow> u = t" by (auto simp: k_inv_def)
  with K_put show ?case by (auto simp: k_inv_def)
next
  case (K_unlock s t)
  then have "\<forall>u. inside (kpcs s u) \<longrightarrow> key_lock h (ky u) = key_lock h (ky t) \<longrightarrow> u = t"
    by (auto simp: k_inv_def)
  with K_unlock show ?case by (auto simp: k_inv_def)
qed

text \<open>The threads whose increment of the key is in the store.\<close>

definition increments :: "(nat \<Rightarrow> string) \<Rightarrow> ksys \<Rightarrow> string \<Rightarrow> nat set" where
  "increments ky s k = {t. written (kpcs s t) \<and> ky t = k}"

definition sum_inv :: "(nat \<Rightarrow> string) \<Rightarrow> (nat \<Rightarrow> int) \<Rightarrow> (string \<Rightarrow> int) \<Rightarrow> ksys \<Rightarrow> bool" where
  "sum_inv ky amount c s \<longleftrightarrow> (\<forall>k. finite (increments ky s k) \<and>
     counter s k = plus_ll (c k) (sum amount (increments ky s k)))"

lemma increments_same:
  "written p \<longleftrightarrow> written (kpcs s t) \<Longrightarrow> increments ky (s\<lparr>kpcs := (kpcs s)(t := p)\<rparr>) k = increments ky s k"
  by (auto simp: increments_def)

lemma increments_other [simp]:
  "increments ky (s\<lparr>locks := l, kpcs := p\<rparr>) k = increments ky (s\<lparr>kpcs := p\<rparr>) k"
  "increments ky (s\<lparr>val := v, kpcs := p\<rparr>) k = increments ky (s\<lparr>kpcs := p\<rparr>) k"
  "increments ky (s\<lparr>counter := c, kpcs := p\<rparr>) k = increments ky (s\<lparr>kpcs := p\<rparr>) k"
  by (simp_all add: increments_def)

lemma increments_put:
  "increments ky (s\<lparr>kpcs := (kpcs s)(t := KWritten)\<rparr>) k =
     (if ky t = k then insert t (increments ky s k) else increments ky s k - {t})"
  by (auto simp: increments_def)

lemma sum_inv_step:
  "k_step h ky amount s s' \<Longrightarrow> k_inv h ky s \<Longrightarrow> sum_inv ky amount c s \<Longrightarrow> sum_inv ky amount c s'"
proof (induction rule: k_step.induct)
  case (K_put s t)
  then have new: "t \<notin> increments ky s k" for k by (simp add: increments_def)
  have "val s t = counter s (ky t)" using K_put by (simp add: k_inv_def)
  with K_put.prems(2) new show ?case
    by (auto simp: sum_inv_def increments_put plus_ll_plus add.commute)
qed (auto simp: sum_inv_def increments_same)

lemma k_reach:
  assumes "\<forall>k. fits c_long_long (c k)"
  shows "(k_step h ky amount)\<^sup>*\<^sup>* (k_init c) s \<Longrightarrow> k_inv h ky s \<and> sum_inv ky amount c s"
proof (induction rule: rtranclp_induct)
  case base
  show ?case
    using assms by (simp add: k_inv_def sum_inv_def k_init_def increments_def plus_ll_def wrap_fits)
qed (auto intro: k_inv_step sum_inv_step)

text \<open>
  C33. No increment is lost: under every interleaving of any number of threads that execute the
  locked section of \<open>inc_add\<close>, and for every hash function, each counter is its initial value
  plus the increments of all threads that have written it, modulo the range of
  \<open>long long\<close>; also when several keys share a lock.
\<close>

theorem no_lost_increment:
  assumes "\<forall>k. fits c_long_long (c k)" and "(k_step h ky amount)\<^sup>*\<^sup>* (k_init c) s"
  shows "counter s k =
    plus_ll (c k) (sum amount {t. (kpcs s t = KWritten \<or> kpcs s t = KDone) \<and> ky t = k})"
  using k_reach [OF assms] by (simp add: sum_inv_def increments_def written_def)

theorem no_lost_increment_witness:
  "\<exists>s. (k_step (\<lambda>_. 0) (\<lambda>_. ''k'') (\<lambda>_. 5))\<^sup>*\<^sup>* (k_init (\<lambda>_. 1)) s \<and>
     kpcs s 0 = KWritten \<and> counter s ''k'' = 6"
proof -
  let ?step = "k_step (\<lambda>_. 0) (\<lambda>_. ''k'') (\<lambda>_. 5)"
  let ?s0 = "k_init (\<lambda>_. 1)"
  let ?s1 = "?s0\<lparr>locks := (locks ?s0)(0 := True), kpcs := (kpcs ?s0)(0 := KLocked)\<rparr>"
  let ?s2 = "?s1\<lparr>val := (val ?s1)(0 := 1), kpcs := (kpcs ?s1)(0 := KRead)\<rparr>"
  let ?s3 = "?s2\<lparr>counter := (counter ?s2)(''k'' := plus_ll 1 5), kpcs := (kpcs ?s2)(0 := KWritten)\<rparr>"
  have "?step ?s0 ?s1"
    using k_step.K_lock [of ?s0 0 "\<lambda>_. 0" "\<lambda>_. ''k''" True True "\<lambda>_. 5"]
    by (simp add: k_init_def key_lock_def lock_index_def try_lock_def exchange_def)
  moreover have "?step ?s1 ?s2"
    using k_step.K_get [of ?s1 0 "\<lambda>_. 0" "\<lambda>_. ''k''" "\<lambda>_. 5"] by (simp add: k_init_def)
  moreover have "?step ?s2 ?s3"
    using k_step.K_put [of ?s2 0 "\<lambda>_. 0" "\<lambda>_. ''k''" "\<lambda>_. 5"] by (simp add: k_init_def)
  ultimately have r: "?step\<^sup>*\<^sup>* ?s0 ?s3" by (meson converse_rtranclp_into_rtranclp rtranclp.rtrancl_refl)
  have fit: "\<forall>k::string. fits c_long_long 1" by (simp add: fits_def c_long_long_def bits_of_def)
  have "{t. (kpcs ?s3 t = KWritten \<or> kpcs ?s3 t = KDone) \<and> ''k'' = ''k''} = {0}"
    by (auto simp: k_init_def)
  with no_lost_increment [OF fit r, of "''k''"] have "counter ?s3 ''k'' = plus_ll 1 5" by simp
  moreover have "plus_ll 1 5 = 6" by code_simp
  ultimately show ?thesis using r by (intro exI [of _ ?s3]) simp
qed

end
