(* ===== verification/Rpc.thy ===== *)
theory Rpc
  imports Json_Object
begin

text \<open>
  JSON-RPC, \<open>fas/adv/json_rpc3\<close>: the message objects (\<open>json_rpc3_types.hpp\<close>), the classes
  \<open>invoker\<close>, \<open>caller\<close>, \<open>notified\<close> and \<open>notifier\<close> of a method (\<open>method.hpp\<close>), and \<open>ad_invoke\<close>
  (\<open>ad_invoke.hpp\<close>), which finds out what kind of message has arrived and hands it to a
  method.

  The state of one connection is a record over the state \<open>'w\<close> of the program behind it. Texts
  handed to the writer are appended to \<open>sent\<close>, calls of the error advices to \<open>events\<close>. A
  pointer into the data is the rest of the data from there, the null pointer is \<open>None\<close>. The
  clock and statistics advices around a call are left out.
\<close>

section \<open>Messages\<close>

record 'p request_object =
  rq_jsonrpc :: string
  rq_method :: string
  rq_id :: int
  rq_params :: 'p

record 'r response_object =
  rp_jsonrpc :: string
  rp_id :: int
  rp_result :: 'r

record 'p notify_object =
  nt_jsonrpc :: string
  nt_method :: string
  nt_params :: 'p

text \<open>
  \<open>strncpy\<close> into an array of 64: at most 64 characters, zeros behind them. (\<open>strcpy\<close> of
  \<open>"2.0"\<close> leaves the cells behind the terminating zero as they were; they are never
  looked at.)
\<close>

definition cells :: "nat \<Rightarrow> string \<Rightarrow> string" where
  "cells N name = fill N (take N (takeWhile (\<lambda>c. c \<noteq> NUL) name))"

definition request_init :: "string \<Rightarrow> 'p \<Rightarrow> 'p request_object" where
  "request_init name p0 =
     \<lparr>rq_jsonrpc = cells 8 ''2.0'', rq_method = cells 64 name, rq_id = -1, rq_params = p0\<rparr>"

definition response_init :: "'r \<Rightarrow> 'r response_object" where
  "response_init r0 = \<lparr>rp_jsonrpc = cells 8 ''2.0'', rp_id = -1, rp_result = r0\<rparr>"

definition notify_init :: "string \<Rightarrow> 'p \<Rightarrow> 'p notify_object" where
  "notify_init name p0 =
     \<lparr>nt_jsonrpc = cells 8 ''2.0'', nt_method = cells 64 name, nt_params = p0\<rparr>"

definition request_members :: "'p codec \<Rightarrow> 'p request_object json_member list" where
  "request_members J =
     [member_of ''jsonrpc'' (char_array_codec 8) rq_jsonrpc (\<lambda>v t. t\<lparr>rq_jsonrpc := v\<rparr>),
      member_of ''method'' (char_array_codec 64) rq_method (\<lambda>v t. t\<lparr>rq_method := v\<rparr>),
      member_of ''id'' (integer_codec c_int) rq_id (\<lambda>v t. t\<lparr>rq_id := v\<rparr>),
      member_of ''params'' J rq_params (\<lambda>v t. t\<lparr>rq_params := v\<rparr>)]"

definition notify_members :: "'p codec \<Rightarrow> 'p notify_object json_member list" where
  "notify_members J =
     [member_of ''jsonrpc'' (char_array_codec 8) nt_jsonrpc (\<lambda>v t. t\<lparr>nt_jsonrpc := v\<rparr>),
      member_of ''method'' (char_array_codec 64) nt_method (\<lambda>v t. t\<lparr>nt_method := v\<rparr>),
      member_of ''params'' J nt_params (\<lambda>v t. t\<lparr>nt_params := v\<rparr>)]"

definition response_members :: "'r codec \<Rightarrow> 'r response_object json_member list" where
  "response_members J =
     [member_of ''jsonrpc'' (char_array_codec 8) rp_jsonrpc (\<lambda>v t. t\<lparr>rp_jsonrpc := v\<rparr>),
      member_of ''id'' (integer_codec c_int) rp_id (\<lambda>v t. t\<lparr>rp_id := v\<rparr>),
      member_of ''result'' J rp_result (\<lambda>v t. t\<lparr>rp_result := v\<rparr>)]"

definition request_rpc :: "'p codec \<Rightarrow> 'p \<Rightarrow> 'p request_object codec" where
  "request_rpc J p0 = object_codec (request_members J) (request_init [] p0)"

definition notify_rpc :: "'p codec \<Rightarrow> 'p \<Rightarrow> 'p notify_object codec" where
  "notify_rpc J p0 = object_codec (notify_members J) (notify_init [] p0)"

definition response_rpc :: "'r codec \<Rightarrow> 'r \<Rightarrow> 'r response_object codec" where
  "response_rpc J r0 = object_codec (response_members J) (response_init r0)"

section \<open>The connection\<close>

datatype rpc_event =
    Invalid_json_event string
  | Unknown_method_event string
  | Lost_result_event string
  | Invalid_id_event string
  | Begin_invoke
  | End_invoke

text \<open>
  \<open>in_ids\<close> is \<open>ad_invoke::_in_ids\<close>, a multiset; \<open>out_ids\<close> gives for each method object (by its
  tag) the ids of \<open>caller::_out_ids\<close>.
\<close>

record 'w rpc =
  rworld :: 'w
  in_ids :: "int list"
  id_count :: int
  out_ids :: "string \<Rightarrow> int list"
  sent :: "string list"
  events :: "rpc_event list"

type_synonym ('a, 'w) rpc_result = "(exn \<times> 'w rpc) + ('a \<times> 'w rpc)"

definition event :: "rpc_event \<Rightarrow> 'w rpc \<Rightarrow> 'w rpc" where
  "event e c = c\<lparr>events := events c @ [e]\<rparr>"

definition writer :: "string \<Rightarrow> 'w rpc \<Rightarrow> 'w rpc" where
  "writer d c = c\<lparr>sent := sent c @ [d]\<rparr>"

definition create_id :: "'w rpc \<Rightarrow> int \<times> 'w rpc" where
  "create_id c = (let n = wrap c_int (id_count c + 1) in (n, c\<lparr>id_count := n\<rparr>))"

text \<open>\<open>ad_invoke::request\<close>, \<open>response\<close>, \<open>notify\<close>, \<open>error\<close>\<close>

definition invoke_write :: "string \<Rightarrow> 'w rpc \<Rightarrow> 'w rpc" where
  "invoke_write d c = writer d c"

definition respond :: "int \<Rightarrow> string \<Rightarrow> 'w rpc \<Rightarrow> 'w rpc" where
  "respond i d c = writer d (if i \<in> set (in_ids c) then c\<lparr>in_ids := remove1 i (in_ids c)\<rparr> else c)"

definition invoke_error :: "int \<Rightarrow> string \<Rightarrow> 'w rpc \<Rightarrow> 'w rpc" where
  "invoke_error i d c = writer d (if i \<in> set (in_ids c) then c\<lparr>in_ids := remove1 i (in_ids c)\<rparr> else c)"

definition clear_invoke :: "'w rpc \<Rightarrow> 'w rpc" where
  "clear_invoke c = c\<lparr>id_count := 0, in_ids := []\<rparr>"

section \<open>Methods\<close>

text \<open>
  \<open>invoker<M>::request\<close>. The handler is \<open>M::request\<close>: it gets the parameters and the id and
  says whether there is a result. A handler may throw; the parser's exceptions are caught.
\<close>

type_synonym ('p, 'r, 'w) handler = "'p \<Rightarrow> int \<Rightarrow> 'w rpc \<Rightarrow> (bool \<times> 'r, 'w) rpc_result"

definition invoker_request ::
  "'p codec \<Rightarrow> 'p \<Rightarrow> 'r codec \<Rightarrow> 'r \<Rightarrow> ('p, 'r, 'w) handler \<Rightarrow> string \<Rightarrow> 'w rpc \<Rightarrow>
    (string option, 'w) rpc_result" where
  "invoker_request J p0 R r0 f d c =
     (if d = [] then Inr (None, c)
      else case unser (request_rpc J p0) (request_init [] p0) d of
        Inl e \<Rightarrow> if e = Out_of_bounds then Inl (e, c)
                 else Inr (None, event (Invalid_json_event d) c)
      | Inr (req, next) \<Rightarrow>
          bindE (f (rq_params req) (rq_id req) c) (\<lambda>((ok, res), c).
            if ok
            then let rsp = (response_init r0)\<lparr>rp_result := res, rp_id := rq_id req\<rparr>;
                     v = ser (response_rpc R r0) rsp
                 in Inr (Some next, if v \<noteq> [] then respond (rp_id rsp) v c else c)
            else Inr (Some next, c)))"

text \<open>\<open>invoker<M>::response\<close>, the asynchronous answer.\<close>

definition invoker_response ::
  "'r codec \<Rightarrow> 'r \<Rightarrow> 'r \<Rightarrow> int \<Rightarrow> 'w rpc \<Rightarrow> 'w rpc" where
  "invoker_response R r0 res i c =
     (let v = ser (response_rpc R r0) ((response_init r0)\<lparr>rp_result := res, rp_id := i\<rparr>)
      in if v \<noteq> [] then respond i v c else c)"

text \<open>\<open>caller<M>\<close>: a remote call, and the answer to it.\<close>

definition caller_request ::
  "'p codec \<Rightarrow> 'p \<Rightarrow> string \<Rightarrow> string \<Rightarrow> 'p \<Rightarrow> 'w rpc \<Rightarrow> int \<times> 'w rpc" where
  "caller_request J p0 tag name param c =
     (let (i, c) = create_id c;
          req = (request_init name p0)\<lparr>rq_params := param, rq_id := i\<rparr>;
          c = c\<lparr>out_ids := (out_ids c)(tag := List.insert i (out_ids c tag))\<rparr>;
          v = ser (request_rpc J p0) req
      in (i, if v \<noteq> [] then invoke_write v c else c))"

definition caller_response ::
  "'r codec \<Rightarrow> 'r \<Rightarrow> string \<Rightarrow> ('r \<Rightarrow> int \<Rightarrow> 'w rpc \<Rightarrow> (bool, 'w) rpc_result) \<Rightarrow> string \<Rightarrow> 'w rpc \<Rightarrow>
    (string option, 'w) rpc_result" where
  "caller_response R r0 tag f d c =
     (if d = [] then Inr (None, c)
      else case unser (response_rpc R r0) (response_init r0) d of
        Inl e \<Rightarrow> if e = Out_of_bounds then Inl (e, c)
                 else Inr (None, event (Invalid_json_event d) c)
      | Inr (res, next) \<Rightarrow>
          if rp_id res \<notin> set (out_ids c tag)
          then Inr (Some next, event (Invalid_id_event d) c)
          else bindE (f (rp_result res) (rp_id res) c) (\<lambda>(_, c).
            Inr (Some next, c\<lparr>out_ids := (out_ids c)(tag := remove1 (rp_id res) (out_ids c tag))\<rparr>)))"

definition caller_clear :: "string \<Rightarrow> 'w rpc \<Rightarrow> 'w rpc" where
  "caller_clear tag c = c\<lparr>out_ids := (out_ids c)(tag := [])\<rparr>"

text \<open>\<open>notified<M>\<close> and \<open>notifier<M>\<close>\<close>

definition notified_notify ::
  "'p codec \<Rightarrow> 'p \<Rightarrow> ('p \<Rightarrow> 'w rpc \<Rightarrow> (unit, 'w) rpc_result) \<Rightarrow> string \<Rightarrow> 'w rpc \<Rightarrow>
    (string option, 'w) rpc_result" where
  "notified_notify J p0 f d c =
     (if d = [] then Inr (None, c)
      else case unser (notify_rpc J p0) (notify_init [] p0) d of
        Inl e \<Rightarrow> if e = Out_of_bounds then Inl (e, c)
                 else Inr (None, event (Invalid_json_event d) c)
      | Inr (ntf, next) \<Rightarrow> bindE (f (nt_params ntf) c) (\<lambda>(_, c). Inr (Some next, c)))"

definition notifier_notify :: "'p codec \<Rightarrow> 'p \<Rightarrow> string \<Rightarrow> 'p \<Rightarrow> 'w rpc \<Rightarrow> 'w rpc" where
  "notifier_notify J p0 name param c =
     (let v = ser (notify_rpc J p0) ((notify_init name p0)\<lparr>nt_params := param\<rparr>)
      in if v \<noteq> [] then invoke_write v c else c)"

text \<open>
  \<open>method<M>\<close> as \<open>ad_invoke\<close> sees it. A part the class \<open>M\<close> does not declare is the
  specialisation \<open><M, false>\<close>: it returns the start of the data and has no ids.
\<close>

record 'w meth =
  mt_name :: string
  mt_tag :: string
  mt_request :: "string \<Rightarrow> 'w rpc \<Rightarrow> (string option, 'w) rpc_result"
  mt_notify :: "string \<Rightarrow> 'w rpc \<Rightarrow> (string option, 'w) rpc_result"
  mt_response :: "string \<Rightarrow> 'w rpc \<Rightarrow> (string option, 'w) rpc_result"

definition no_part :: "string \<Rightarrow> 'w rpc \<Rightarrow> (string option, 'w) rpc_result" where
  "no_part d c = Inr (Some d, c)"

definition has_id :: "'w rpc \<Rightarrow> 'w meth \<Rightarrow> int \<Rightarrow> bool" where
  "has_id c m i \<longleftrightarrow> i \<in> set (out_ids c (mt_tag m))"

section \<open>Finding out what has arrived\<close>

text \<open>\<open>for (;beg!=end && *beg <= 32; ++beg);\<close> with a signed \<open>char\<close>\<close>

definition skip_low :: "string \<Rightarrow> string" where
  "skip_low s = dropWhile (\<lambda>c. schar c \<le> 32) s"

definition search_tovalue :: "string \<Rightarrow> string option res" where
  "search_tovalue s =
     (let s = skip_low s in
      if s = [] then Inl Out_of_bounds
      else let s = (if hd s \<noteq> CHR '':'' then [] else tl s);
               s = skip_low s;
               s = (if s \<noteq> [] \<and> hd s = DQ then tl s else s)
           in Inr (if s = [] then None else Some s))"

text \<open>The comparison with a literal also compares its terminating zero.\<close>

definition literal_at :: "string \<Rightarrow> string \<Rightarrow> bool" where
  "literal_at w s \<longleftrightarrow> prefix w s \<and> (length s = length w \<or> s ! length w \<noteq> NUL)"

record found =
  f_method :: "string option"
  f_result :: "string option"
  f_id :: "string option"

definition nothing_found :: found where
  "nothing_found = \<lparr>f_method = None, f_result = None, f_id = None\<rparr>"

definition s_method :: string where "s_method = DQ # ''method'' @ [DQ]"
definition s_result :: string where "s_result = DQ # ''result'' @ [DQ]"
definition s_id :: string where "s_id = DQ # ''id'' @ [DQ]"

definition note_member :: "string \<Rightarrow> found \<Rightarrow> found res" where
  "note_member s f =
     (if literal_at s_method s
      then bindE (search_tovalue (drop (length s_method) s)) (\<lambda>p. Inr (f\<lparr>f_method := p\<rparr>))
      else if literal_at s_result s
      then bindE (search_tovalue (drop (length s_result) s)) (\<lambda>p. Inr (f\<lparr>f_result := p\<rparr>))
      else if literal_at s_id s
      then bindE (search_tovalue (drop (length s_id) s)) (\<lambda>p. Inr (f\<lparr>f_id := p\<rparr>))
      else Inr f)"

text \<open>
  The loop of \<open>_search_helper_\<close> over the members. What has been noted stays noted when the
  loop gives up or the parser throws, since \<open>_search_\<close> ignores the returned pointer.
\<close>

function search_loop :: "string \<Rightarrow> found \<Rightarrow> found res" where
  "search_loop s f =
     (if s = [] then Inr f
      else bindE (note_member s f) (\<lambda>f.
        case parse_member s of
          Inl e \<Rightarrow> if e = Out_of_bounds then Inl e else Inr f
        | Inr r \<Rightarrow>
            let r = parse_space r in
            if r = [] then Inr f
            else if hd r = CHR '','' then search_loop (parse_space (tl r)) f
            else Inr f))"
  by pat_completeness auto
termination
proof (relation "measure (\<lambda>(s, f). length s)")
  fix s f x r q
  assume "s \<noteq> []" and r: "parse_member s = Inr r" and q: "q = parse_space r" "q \<noteq> []"
  have "length q < length s"
    using parse_member_shrinks [OF r] parse_space_shrinks [of r] q(1) by simp
  moreover have "length (parse_space (tl q)) \<le> length q"
    using parse_space_shrinks [of "tl q"] by simp
  ultimately show "((parse_space (tl q), x), (s, f)) \<in> measure (\<lambda>(s, f). length s)" by simp
qed simp

declare search_loop.simps [simp del]

definition search :: "string \<Rightarrow> found res" where
  "search s =
     (let s = parse_space s in
      if s = [] \<or> hd s \<noteq> CHR ''{'' then Inr nothing_found
      else search_loop (parse_space (tl s)) nothing_found)"

fun raw_equal :: "string \<Rightarrow> string \<Rightarrow> bool res" where
  "raw_equal (n # ns) (c # s) =
     (if n \<noteq> NUL \<and> c \<noteq> DQ then (if n \<noteq> c then Inr False else raw_equal ns s)
      else Inr (n = NUL \<and> c = DQ))"
| "raw_equal [] (c # s) = Inr (c = DQ)"
| "raw_equal ns [] = Inl Out_of_bounds"

text \<open>\<open>std::atoi\<close>: white space, a sign, digits. Digits up to the end of the data are read past it.\<close>

definition atoi_space :: "char \<Rightarrow> bool" where
  "atoi_space c \<longleftrightarrow> c \<in> set [CHR '' '', TAB, LF, CHR 0x0B, FF, CR]"

definition atoi :: "string \<Rightarrow> int res" where
  "atoi s =
     (let s = dropWhile atoi_space s;
          neg = (s \<noteq> [] \<and> hd s = CHR ''-'');
          s = (if s \<noteq> [] \<and> (hd s = CHR ''-'' \<or> hd s = CHR ''+'') then tl s else s);
          (v, r) = digits_loop c_int 0 s
      in if r = [] then Inl Out_of_bounds else Inr (if neg then wrap c_int (- v) else v))"

section \<open>Dispatch\<close>

text \<open>\<open>_invoke\<close>: along the list of methods; \<open>code\<close> is -1, -2 or the id of a response.\<close>

fun invoke :: "'w meth list \<Rightarrow> string \<Rightarrow> string \<Rightarrow> int \<Rightarrow> 'w rpc \<Rightarrow> (string option, 'w) rpc_result" where
  "invoke [] name d code c =
     Inr (None, event (if code < 0 then Unknown_method_event d else Lost_result_event d) c)"
| "invoke (m # ms) name d code c =
     (case (if 0 < code then Inr True else raw_equal (mt_name m) name) of
        Inl e \<Rightarrow> Inl (e, c)
      | Inr hit \<Rightarrow>
          if \<not> hit then invoke ms name d code c
          else if code = -1 then mt_request m d c
          else if code = -2 then mt_notify m d c
          else if has_id c m code then mt_response m d c
          else invoke ms name d code c)"

definition invoke_1 :: "'w meth list \<Rightarrow> string \<Rightarrow> 'w rpc \<Rightarrow> (string option, 'w) rpc_result" where
  "invoke_1 ms d c =
     (case search d of
        Inl e \<Rightarrow> Inl (e, c)
      | Inr f \<Rightarrow>
          if f_method f = None \<and> f_result f = None \<or> f_result f \<noteq> None \<and> f_id f = None
          then Inr (None, event (Invalid_json_event d) c)
          else case (case f_id f of None \<Rightarrow> Inr (-1) | Some p \<Rightarrow> atoi p) of
            Inl e \<Rightarrow> Inl (e, c)
          | Inr rid \<Rightarrow>
              (case (f_method f, f_id f, f_result f) of
                 (Some p, Some i, None) \<Rightarrow> invoke ms p d (-1) (c\<lparr>in_ids := rid # in_ids c\<rparr>)
               | (Some p, None, None) \<Rightarrow> invoke ms p d (-2) c
               | (None, Some i, Some p) \<Rightarrow> invoke ms p d rid c
               | _ \<Rightarrow> Inr (None, event (Invalid_json_event d) c)))"

text \<open>The batch: at most ten messages in one packet.\<close>

fun invoke_batch :: "nat \<Rightarrow> 'w meth list \<Rightarrow> string \<Rightarrow> 'w rpc \<Rightarrow> (unit, 'w) rpc_result" where
  "invoke_batch 0 ms d c = Inr ((), c)"
| "invoke_batch (Suc n) ms d c =
     bindE (invoke_1 ms d c) (\<lambda>(next, c).
       case next of
         None \<Rightarrow> Inr ((), c)
       | Some r \<Rightarrow>
           if r = d then Inr ((), c)
           else let r = skip_low r in
                if r = [] then Inr ((), c) else invoke_batch n ms r c)"

definition ad_invoke :: "'w meth list \<Rightarrow> string \<Rightarrow> 'w rpc \<Rightarrow> (unit, 'w) rpc_result" where
  "ad_invoke ms d c =
     (if d = [] then Inr ((), c)
      else bindE (invoke_batch 10 ms d (event Begin_invoke c)) (\<lambda>(_, c). Inr ((), event End_invoke c)))"

end
