(* ===== verification/Json_Text.thy ===== *)
theory Json_Text
  imports Requests
begin

text \<open>
  What the serializers write is JSON to the parser. \<open>ad_invoke\<close> runs the parser over a message
  before any serializer reads it, and goes by what the parser makes of it; this theory
  shows that the parser takes the text of a value as one value. The exception are
  four-byte UTF-8 sequences, at which it throws: \<open>skipped\<close> allows for that, and \<open>_search_\<close>
  is prepared for it.
\<close>

definition skipped :: "string res \<Rightarrow> string \<Rightarrow> bool" where
  "skipped x rest \<longleftrightarrow> x = Inr rest \<or> (\<exists>k n. x = throw k n)"

lemma skipped_simps [simp]:
  "skipped (Inr r) rest \<longleftrightarrow> r = rest" "skipped (throw k n) rest"
  by (auto simp: skipped_def)

lemma skipped_bind: "skipped x t \<Longrightarrow> skipped (f t) rest \<Longrightarrow> skipped (bindE x f) rest"
  by (auto simp: skipped_def)

text \<open>The contract: a codec whose text the parser skips.\<close>

locale json_text = json_codec J ok init
  for J :: "'a codec" and ok init +
  assumes ser_skipped: "ok v \<Longrightarrow> delim rest \<Longrightarrow> skipped (parse_value (ser J v @ rest)) rest"

section \<open>Strings\<close>

lemma parse_string_plain:
  "byte c < 128 \<Longrightarrow> c \<noteq> DQ \<Longrightarrow> c \<noteq> BSL \<Longrightarrow> parse_string_loop (c # t) = parse_string_loop t"
  by (simp add: parse_symbol_def and_128_ascii)

lemma take_conts_app: "conts k s \<Longrightarrow> take_conts k (take k s @ t) = (True, t)"
proof (induction k arbitrary: s)
  case (Suc k)
  then show ?case by (cases s) (auto simp: conts_def)
qed simp

lemma lead3_bits:
  assumes "and n 240 = (224::nat)"
  shows "and n 224 = 224"
  using and_mask_mono [OF assms, of 224] by simp

lemma parse_symbol_two:
  assumes "and (byte c) 128 \<noteq> 0" "and (byte c) 224 = 192" "conts 1 s"
  shows "parse_symbol (c # take 1 s @ t) = Inr t"
  using assms take_conts_app [OF assms(3), of t] by (simp add: parse_symbol_def)

lemma parse_symbol_three:
  assumes "and (byte c) 128 \<noteq> 0" "and (byte c) 240 = 224" "conts 2 s"
  shows "parse_symbol (c # take 2 s @ t) = Inr t"
  using assms lead3_bits [OF assms(2)] take_conts_app [OF assms(3), of t]
  by (simp add: parse_symbol_def)

locale parsed_escape = string_escape esc
  for esc +
  assumes esc_parsed: "byte c < 128 \<Longrightarrow> c \<noteq> NUL \<Longrightarrow>
      parse_string_loop (esc c @ t) = parse_string_loop t"
begin

lemma high_parsed:
  assumes "and (byte c) 128 \<noteq> 0" and "conts k s" and "parse_symbol (c # take k s @
      serialize_chars esc (drop k s) @ t) = Inr (serialize_chars esc (drop k s) @ t)"
  shows "parse_string_loop (serialize_chars esc (c # s) @ t) =
           parse_string_loop (serialize_chars esc (drop k s) @ t)"
proof -
  have c: "128 \<le> byte c" by (rule high_bit [OF assms(1)])
  then have "c \<noteq> NUL" "c \<noteq> DQ" "c \<noteq> BSL" by auto
  with assms(3) serialize_conts [OF assms(2)] esc_high [OF c] show ?thesis by simp
qed

lemma loop_skipped:
  "utf8 s \<Longrightarrow> NUL \<notin> set s \<Longrightarrow>
     skipped (parse_string_loop (serialize_chars esc s @ DQ # rest)) rest"
proof (induction s rule: utf8.induct)
  case (2 c s)
  have nul: "NUL \<notin> set (drop k s)" for k using 2(6) by (auto dest: in_set_dropD)
  consider (one) "and (byte c) 128 = 0"
    | (two) "and (byte c) 128 \<noteq> 0" "and (byte c) 224 = 192"
    | (three) "and (byte c) 128 \<noteq> 0" "and (byte c) 224 \<noteq> 192" "and (byte c) 240 = 224"
    | (four) "and (byte c) 128 \<noteq> 0" "and (byte c) 224 \<noteq> 192" "and (byte c) 240 \<noteq> 224"
        "and (byte c) 248 = 240"
    using 2(5) by (auto split: if_splits)
  then show ?case
  proof cases
    case one
    then show ?thesis using 2 esc_parsed [of c] by (simp add: and_128_char)
  next
    case two
    then have "conts 1 s" "utf8 (drop 1 s)" using 2(5) by auto
    then show ?thesis
      using high_parsed [OF two(1) _ parse_symbol_two [OF two]] 2(2) [OF two _ nul] by simp
  next
    case three
    then have "conts 2 s" "utf8 (drop 2 s)" using 2(5) by auto
    then show ?thesis
      using high_parsed [OF three(1) _ parse_symbol_three [OF three(1,3)]] 2(3) [OF three _ nul] by simp
  next
    case four
    then have k: "conts 3 s" using 2(5) by auto
    then obtain d1 d2 d3 where t: "take 3 s = [d1, d2, d3]" and d: "cont d1" "cont d2" "cont d3"
      by (auto simp: conts_def numeral_3_eq_3 length_Suc_conv Suc_le_length_iff)
    have c: "128 \<le> byte c" by (rule high_bit [OF four(1)])
    then have "c \<noteq> NUL" by auto
    then have "serialize_chars esc (c # s) = c # d1 # d2 # d3 # serialize_chars esc (drop 3 s)"
      using serialize_conts [OF k] t esc_high [OF c] by simp
    then show ?thesis by (simp only: append_Cons four_byte_refused [OF four(4) d] skipped_simps)
  qed
qed simp

lemma quoted_skipped:
  assumes "text_ok s"
  shows "skipped (parse_string (DQ # serialize_chars esc s @ DQ # rest)) rest"
  using loop_skipped assms by (simp add: parse_string_def text_ok_def)

end

lemma parse_value_string: "parse_value (DQ # s) = parse_string (DQ # s)"
  by (simp add: parse_value_unfold is_bool_def is_number_def is_digit_iff is_string_def)

lemma hex_digit_plain: "j < 16 \<Longrightarrow> byte (hex_digit j) < 128 \<and> hex_digit j \<noteq> DQ \<and> hex_digit j \<noteq> BSL"
proof -
  have "\<forall>j \<in> set [0..<16]. byte (hex_digit j) < 128 \<and> hex_digit j \<noteq> DQ \<and> hex_digit j \<noteq> BSL"
    by code_simp
  then show "j < 16 \<Longrightarrow> byte (hex_digit j) < 128 \<and> hex_digit j \<noteq> DQ \<and> hex_digit j \<noteq> BSL" by auto
qed

lemma parse_hex4: "parse_string_loop (BSL # CHR ''u'' # hex4 k @ t) = parse_string_loop t"
  by (simp add: parse_hex_unchecked hex4_def hex_digit_plain parse_string_plain
      del: parse_string_loop.simps)

lemma parse_escape:
  "is_escape c \<Longrightarrow> c \<noteq> CHR ''u'' \<Longrightarrow> parse_string_loop (BSL # c # t) = parse_string_loop t"
  by simp

lemmas escape_parsing = parse_hex4 parse_escape parse_string_plain is_escape_def

interpretation std_parsed: parsed_escape escape_char
  by unfold_locales (auto simp: escape_char_def escape_parsing simp del: parse_string_loop.simps)

interpretation str_parsed: parsed_escape strvalue_escape
  by unfold_locales (auto simp: strvalue_escape_def escape_parsing simp del: parse_string_loop.simps)

interpretation str_text: json_text string_codec text_ok "[]"
  by unfold_locales
     (simp add: string_codec_def serialize_string_def parse_value_string std_parsed.quoted_skipped)

interpretation strv_text: json_text strvalue_codec text_ok "[]"
  by unfold_locales
     (simp add: strvalue_codec_def strvalue_serialize_def parse_value_string str_parsed.quoted_skipped)

interpretation raw_text: json_text raw_codec raw_ok "[]"
  by unfold_locales (auto simp: raw_codec_def raw_ok_def)

section \<open>Numbers and truth values\<close>

lemma parse_digit_app:
  "list_all is_digit ds \<Longrightarrow> rest = [] \<or> \<not> is_digit (hd rest) \<Longrightarrow> fst (parse_digit (ds @ rest) p) = rest"
proof (induction ds arbitrary: p)
  case Nil
  then show ?case by (cases rest) auto
qed simp

lemma delim_ends_number:
  assumes "delim rest"
  shows "rest = [] \<or> \<not> is_digit (hd rest)" and "parse_frac (rest, p) = Inr (rest, p)"
    and "parse_exp (rest, p) = Inr (rest, p)"
  using assms delim_not_digit [of "hd rest" "tl rest"]
  by (cases rest; auto simp: delim_def is_space_def parse_frac_def parse_exp_def)+

lemma decimal_digits:
  obtains (zero) "v = 0" "decimal v = ''0''"
    | (digits) c ds where "is_digit c" "c \<noteq> CHR ''0''" "list_all is_digit ds"
        "decimal v = (if v < 0 then CHR ''-'' # c # ds else c # ds)"
proof (cases "v = 0")
  case False
  then have "0 < \<bar>v\<bar>" by simp
  from rev_put_digits [OF this] obtain c ds where "rev (put_digits 1 \<bar>v\<bar>) = c # ds" "is_digit c"
    "c \<noteq> CHR ''0''" "list_all is_digit ds" by auto
  with False show ?thesis by (intro digits [of c ds]) (auto simp: decimal_def abs_if split: if_splits)
qed (auto intro: zero simp: decimal_def)

lemma parse_number_digits:
  assumes "is_digit c" "c \<noteq> CHR ''0''" "list_all is_digit ds" "delim rest"
  shows "parse_int_part (c # ds @ rest, p) = Inr (rest, snd (parse_digit (c # ds @ rest) p))"
proof -
  have "fst (parse_digit ((c # ds) @ rest) p) = rest"
    by (rule parse_digit_app) (use assms delim_ends_number(1) [OF assms(4)] in auto)
  then have "parse_digit (c # ds @ rest) p = (rest, snd (parse_digit (c # ds @ rest) p))"
    by (simp add: prod_eq_iff)
  with assms show ?thesis by (simp add: parse_int_part_def del: parse_digit.simps)
qed

lemma parse_number_decimal:
  assumes "delim rest"
  shows "parse_number (decimal v @ rest) = Inr rest"
proof (cases v rule: decimal_digits)
  case zero
  then show ?thesis
    using delim_ends_number [OF assms] by (simp add: parse_number_def parse_sign_def parse_int_part_def)
next
  case (digits c ds)
  moreover have "c \<noteq> CHR ''-''" using digits(1) by (auto simp: is_digit_iff)
  ultimately show ?thesis
    using delim_ends_number [OF assms] parse_number_digits [OF digits(1-3) assms]
    by (auto simp: parse_number_def parse_sign_def)
qed

lemma parse_value_decimal:
  assumes "delim rest"
  shows "parse_value (decimal v @ rest) = Inr rest"
proof -
  obtain c s where d: "decimal v = c # s" "c = CHR ''-'' \<or> is_digit c" using decimal_starts by blast
  then have "\<not> is_null (decimal v @ rest)" "\<not> is_bool (decimal v @ rest)" "is_number (decimal v @ rest)"
    by (auto simp: is_null_def is_bool_def is_number_def is_digit_iff)
  then show ?thesis by (simp add: parse_value_unfold parse_number_decimal [OF assms])
qed

lemma integer_text: "0 < sizeof t \<Longrightarrow> json_text (integer_codec t) (fits t) i"
  by (intro json_text.intro integer_codec_contract json_text_axioms.intro)
     (simp_all add: integer_codec_def serialize_integer_decimal parse_value_decimal)

interpretation int_text: json_text "integer_codec c_int" "fits c_int" 0
  by (rule integer_text) simp

interpretation ll_text: json_text "integer_codec c_long_long" "fits c_long_long" 0
  by (rule integer_text) simp

interpretation bool_text: json_text bool_codec "\<lambda>_. True" False
  by unfold_locales (simp add: bool_codec_def parse_value_unfold is_null_def is_bool_def)

section \<open>Arrays\<close>

lemma parse_value_array: "parse_value (CHR ''['' # s) = array_loop s"
  by (simp add: parse_value_unfold is_null_def is_bool_def is_number_def is_digit_iff is_string_def
      is_object_def is_array_def parse_array_def)

lemma parse_value_object: "parse_value (CHR ''{'' # s) = object_loop s"
  by (simp add: parse_value_unfold is_null_def is_bool_def is_number_def is_digit_iff is_string_def
      is_object_def is_array_def parse_object_def)

text \<open>One round of the loops, over the text of an element and what follows it.\<close>

lemma array_round:
  assumes "v \<noteq> []" and "starts_value (hd v)" and "skipped (parse_value (v @ c # t)) (c # t)"
    and "c = CHR '','' \<and> skipped (array_loop t) rest \<or> c = CHR '']'' \<and> t = rest"
  shows "skipped (array_loop (v @ c # t)) rest"
proof -
  have "hd (v @ c # t) \<noteq> CHR '']''" using assms(1,2) by (auto simp: starts_value_def)
  moreover have "parse_space (c # t) = c # t" using assms(4) by (auto simp: is_space_def)
  moreover have "array_loop (CHR '']'' # t) = Inr t" by (subst array_loop_unfold) simp
  ultimately show ?thesis
    using assms by (subst array_loop_unfold) (auto intro!: skipped_bind [OF assms(3)])
qed

lemma object_round:
  assumes "v \<noteq> []" and "starts_value (hd v)" and "skipped (parse_member (v @ c # t)) (c # t)"
    and "c = CHR '','' \<and> skipped (object_loop t) rest \<or> c = CHR ''}'' \<and> t = rest"
  shows "skipped (object_loop (v @ c # t)) rest"
proof -
  have "hd (v @ c # t) \<noteq> CHR ''}''" using assms(1,2) by (auto simp: starts_value_def)
  moreover have "parse_space (c # t) = c # t" using assms(4) by (auto simp: is_space_def)
  moreover have "object_loop (CHR ''}'' # t) = Inr t" by (subst object_loop_unfold) simp
  ultimately show ?thesis
    using assms by (subst object_loop_unfold) (auto intro!: skipped_bind [OF assms(3)])
qed

context json_text
begin

lemma elements_skipped:
  "list_all ok xs \<Longrightarrow> skipped (array_loop (join (map (ser J) xs) @ CHR '']'' # rest)) rest"
proof (induction xs rule: induct_list012)
  case 1
  show ?case by (subst array_loop_unfold) simp
next
  case (2 x)
  then show ?case using ser_start [of x] by (simp add: array_round ser_skipped)
next
  case (3 x y zs)
  then show ?case using ser_start [of x] by (simp add: array_round ser_skipped)
qed

lemma vector_text: "json_text (vector_codec J init) (list_all ok) []"
  by (intro json_text.intro vector_contract json_text_axioms.intro)
     (simp add: vector_codec_def array_codec_def write_elements_def parse_value_array elements_skipped)

end

section \<open>Objects\<close>

lemma member_skipped:
  assumes "skipped (parse_string (k @ CHR '':'' # v @ rest)) (CHR '':'' # v @ rest)" and "is_string k"
    and "v \<noteq> []" and "starts_value (hd v)" and "skipped (parse_value (v @ rest)) rest"
  shows "skipped (parse_member (k @ CHR '':'' # v @ rest)) rest"
proof -
  have "is_string (k @ CHR '':'' # v @ rest)" using assms(2) by (auto simp: is_string_def)
  with assms show ?thesis
    by (subst parse_member_unfold) (auto intro!: skipped_bind [OF assms(1)])
qed

text \<open>An object whose keys are strings: a list of pairs or a map.\<close>

locale text_pairs = json_text V okv v0
  for V :: "'v codec" and okv v0
begin

lemma entry_skipped:
  "text_ok (fst e) \<Longrightarrow> okv (snd e) \<Longrightarrow> delim rest \<Longrightarrow>
     skipped (parse_member (ser (pair_codec string_codec V) e @ rest)) rest"
  using ser_start [of "snd e"] std_parsed.quoted_skipped [of "fst e"]
  by (auto simp: pair_codec_def case_prod_beta string_codec_def serialize_string_def is_string_def
      intro!: member_skipped [of "DQ # _ @ [DQ]", simplified] ser_skipped)

abbreviation entries_ok :: "(string \<times> 'v) list \<Rightarrow> bool" where
  "entries_ok es \<equiv> list_all (\<lambda>e. text_ok (fst e) \<and> okv (snd e)) es"

lemma entry_start:
  "ser (pair_codec string_codec V) e \<noteq> [] \<and> starts_value (hd (ser (pair_codec string_codec V) e))"
  by (simp add: pair_codec_def case_prod_beta string_codec_def serialize_string_def)

lemma entries_skipped:
  "entries_ok es \<Longrightarrow>
     skipped (object_loop (join (map (ser (pair_codec string_codec V)) es) @ CHR ''}'' # rest)) rest"
proof (induction es rule: induct_list012)
  case 1
  show ?case by (subst object_loop_unfold) simp
next
  case (2 x)
  then show ?case using entry_start [of x] by (simp add: object_round entry_skipped)
next
  case (3 x y zs)
  then show ?case using entry_start [of x] by (simp add: object_round entry_skipped)
qed

lemma pairs_skipped:
  "entries_ok es \<Longrightarrow> skipped (parse_value
     (write_elements (pair_codec string_codec V) (CHR ''{'') (CHR ''}'') es @ rest)) rest"
  using entries_skipped by (simp add: write_elements_def parse_value_object)

end

text \<open>A structure: the names of the members are plain ASCII.\<close>

definition plain_member :: "string \<Rightarrow> bool" where
  "plain_member name \<longleftrightarrow> plain_name name \<and> ascii name \<and> BSL \<notin> set name"

lemma plain_string:
  "plain_member name \<Longrightarrow> parse_string (DQ # name @ DQ # t) = Inr t"
proof -
  have "plain_member name \<Longrightarrow> parse_string_loop (name @ DQ # t) = Inr t"
    by (induction name)
       (auto simp: plain_member_def plain_name_def parse_string_plain simp del: parse_string_loop.simps(2)
         simp: parse_string_loop.simps(2) [of DQ])
  then show "plain_member name \<Longrightarrow> parse_string (DQ # name @ DQ # t) = Inr t"
    by (simp add: parse_string_def)
qed

lemma struct_member_skipped:
  assumes "plain_member (m_name M)" and "m_ser M t \<noteq> []" and "starts_value (hd (m_ser M t))"
    and "skipped (parse_value (m_ser M t @ rest)) rest"
  shows "skipped (parse_member (serialize_member t M @ rest)) rest"
proof -
  have "plain_name (m_name M)" using assms(1) by (simp add: plain_member_def)
  then show ?thesis
    using member_skipped [of "DQ # m_name M @ [DQ]" "m_ser M t" rest] assms
    by (simp add: serialize_member_def takeWhile_plain plain_string is_string_def)
qed

locale text_object = json_object L t0 okt partial
  for L :: "'t json_member list" and t0 okt partial +
  assumes plain_members: "M \<in> set L \<Longrightarrow> plain_member (m_name M)"
    and member_text: "okt t \<Longrightarrow> M \<in> set L \<Longrightarrow> delim rest \<Longrightarrow>
      skipped (parse_value (m_ser M t @ rest)) rest"
begin

lemma one_skipped:
  "okt t \<Longrightarrow> M \<in> set L \<Longrightarrow> delim rest \<Longrightarrow> skipped (parse_member (serialize_member t M @ rest)) rest"
  using member_start by (simp add: struct_member_skipped plain_members member_text)

lemma serialize_member_start:
  "serialize_member t M \<noteq> [] \<and> starts_value (hd (serialize_member t M))"
  by (simp add: serialize_member_def)

lemma members_skipped:
  "okt t \<Longrightarrow> set ms \<subseteq> set L \<Longrightarrow>
     skipped (object_loop (serialize_members t ms @ CHR ''}'' # rest)) rest"
proof (induction ms rule: induct_list012)
  case 1
  show ?case by (subst object_loop_unfold) simp
next
  case (2 M)
  then show ?case using serialize_member_start [of t M] by (simp add: object_round one_skipped)
next
  case (3 M N ms)
  then show ?case using serialize_member_start [of t M] by (simp add: object_round one_skipped)
qed

lemma object_text: "json_text (object_codec L t0) okt t0"
  by (intro json_text.intro object_contract json_text_axioms.intro)
     (simp add: object_codec_def parse_value_object members_skipped)

end

section \<open>The parameters of the daemon's requests\<close>

interpretation raw_pairs: text_pairs raw_codec raw_ok "[]" ..
interpretation str_pairs: text_pairs strvalue_codec text_ok "[]" ..
interpretation ll_pairs: text_pairs "integer_codec c_long_long" "fits c_long_long" 0 ..
interpretation bool_pairs: text_pairs bool_codec "\<lambda>_. True" False ..

lemmas pair_codec_defs = paired_codec_def paired_base_def array_codec_def map_codec_def

interpretation raws_text: json_text valmap2raw_json "list_all (\<lambda>e. text_ok (fst e) \<and> raw_ok (snd e))" "[]"
  by unfold_locales (simp add: valmap2raw_json_def pair_codec_defs raw_pairs.pairs_skipped)

interpretation strs_text: json_text valmap2str_json strs_ok "[]"
  by unfold_locales (simp add: valmap2str_json_def pair_codec_defs strs_ok_def str_pairs.pairs_skipped)

interpretation ints_text: json_text valmap2int_json ints_ok "[]"
  by unfold_locales (simp add: valmap2int_json_def pair_codec_defs ints_ok_def ll_pairs.pairs_skipped)

interpretation bools_text: json_text valmap2bool_json "list_all (\<lambda>e. text_ok (fst e) \<and> True)" "[]"
  by unfold_locales (simp add: valmap2bool_json_def pair_codec_defs bool_pairs.pairs_skipped)

interpretation keys_text: json_text vallist_json "list_all text_ok" "[]"
  unfolding vallist_json_def by (rule str_text.vector_text)

interpretation str_map_text: json_text "valmap2str_map_json iter"
    "\<lambda>m. iter m = m \<and> distinct (map fst m) \<and> strs_ok m" "[]" for iter
  by unfold_locales (simp add: valmap2str_map_json_def pair_codec_defs strs_ok_def str_pairs.pairs_skipped)

interpretation int_map_text: json_text "valmap2int_map_json iter"
    "\<lambda>m. iter m = m \<and> distinct (map fst m) \<and> ints_ok m" "[]" for iter
  by unfold_locales (simp add: valmap2int_map_json_def pair_codec_defs ints_ok_def ll_pairs.pairs_skipped)

lemmas field_texts = str_text.ser_skipped int_text.ser_skipped ll_text.ser_skipped
  ints_text.ser_skipped strs_text.ser_skipped str_map_text.ser_skipped int_map_text.ser_skipped

interpretation rep_setstate_text: text_object rep_setstate_members rep_setstate_init
    rep_setstate_ok rep_setstate_partial
  by unfold_locales (auto simp: rep_setstate_members_def rep_setstate_ok_def plain_member_def
      plain_name_def field_texts)

interpretation get_range_text: text_object get_range_members get_range_init get_range_ok get_range_partial
  by unfold_locales (auto simp: get_range_members_def get_range_ok_def plain_member_def
      plain_name_def field_texts)

interpretation inc_add_text: text_object "inc_add_members iteri" inc_add_init
    "inc_add_ok iteri" inc_add_partial for iteri
  by unfold_locales (auto simp: inc_add_members_def inc_add_ok_def plain_member_def
      plain_name_def field_texts)

interpretation update_packed_text: text_object "update_packed_members iter" update_packed_init
    "update_packed_ok iter" update_packed_partial for iter
  by unfold_locales (auto simp: update_packed_members_def update_packed_ok_def plain_member_def
      plain_name_def field_texts)

text \<open>
  What the serializers write, the parser reads as one value: it runs over the text of the
  parameters of an \<open>update_packed\<close> request, the deepest structure of the protocol, to the
  character behind it, or throws (which it does at four-byte UTF-8 sequences); it never
  stops inside.
\<close>

lemma written_text_parses:
  assumes "update_packed_ok iter t" and "delim rest"
  shows "case parse_value (ser (update_packed_json iter) t @ rest) of
           Inr r \<Rightarrow> r = rest | Inl e \<Rightarrow> \<exists>k n. e = Json k n"
  using json_text.ser_skipped [OF update_packed_text.object_text assms]
  by (auto simp: update_packed_json_def skipped_def)

end
