(* ===== verification/Rpc_Laws.thy ===== *)
theory Rpc_Laws
  imports Rpc Json_Text
begin

text \<open>
  What JSON-RPC does with the messages it writes itself: the text a \<open>caller\<close> sends is
  recognised by the \<open>ad_invoke\<close> of the other side as a request for the same method, and
  the handler gets the same parameters; the answer finds its way back to the caller.
\<close>

section \<open>The message objects\<close>

definition request_ok :: "('p \<Rightarrow> bool) \<Rightarrow> 'p request_object \<Rightarrow> bool" where
  "request_ok ok t \<longleftrightarrow> cells_ok 8 (rq_jsonrpc t) \<and> cells_ok 64 (rq_method t) \<and>
     fits c_int (rq_id t) \<and> ok (rq_params t)"

definition request_partial :: "'p \<Rightarrow> 'p request_object \<Rightarrow> nat \<Rightarrow> 'p request_object" where
  "request_partial p0 t i =
     \<lparr>rq_jsonrpc = (if i < 1 then cells 8 ''2.0'' else rq_jsonrpc t),
      rq_method = (if i < 2 then cells 64 [] else rq_method t),
      rq_id = (if i < 3 then -1 else rq_id t),
      rq_params = (if i < 4 then p0 else rq_params t)\<rparr>"

definition response_ok :: "('r \<Rightarrow> bool) \<Rightarrow> 'r response_object \<Rightarrow> bool" where
  "response_ok ok t \<longleftrightarrow> cells_ok 8 (rp_jsonrpc t) \<and> fits c_int (rp_id t) \<and> ok (rp_result t)"

definition response_partial :: "'r \<Rightarrow> 'r response_object \<Rightarrow> nat \<Rightarrow> 'r response_object" where
  "response_partial r0 t i =
     \<lparr>rp_jsonrpc = (if i < 1 then cells 8 ''2.0'' else rp_jsonrpc t),
      rp_id = (if i < 2 then -1 else rp_id t),
      rp_result = (if i < 3 then r0 else rp_result t)\<rparr>"

text \<open>An array of characters is overwritten whole.\<close>

lemma char_array_any:
  "unser (char_array_codec N) v s = unser (char_array_codec N) w s"
  by (simp add: char_array_codec_def)

lemma cells_roundtrip:
  "cells_ok N v \<Longrightarrow> unser (char_array_codec N) w (ser (char_array_codec N) v @ rest) = Inr (v, rest)"
proof -
  assume v: "cells_ok N v"
  let ?t = "takeWhile (\<lambda>c. c \<noteq> NUL) v"
  have len: "int (length ?t) \<le> int N" and t: "text_ok ?t"
    using v length_takeWhile_le [of "\<lambda>c. c \<noteq> NUL" v] by (auto simp: cells_ok_def)
  have "serialize_string (take N v) = serialize_string ?t"
    using v by (simp add: serialize_string_def serialize_chars_stop cells_ok_def)
  with len t v show ?thesis
    by (simp add: char_array_codec_def serialize_string_def text_ok_def
        std_escape.quoted_roundtrip cells_ok_def)
qed

lemmas cells_readers =
  char_array_contract [THEN json_codec.axioms(1), THEN json_reader.unser_suffix]
  char_array_contract [THEN json_codec.axioms(1), THEN json_reader.unser_total]

lemma cells_start: "ser (char_array_codec N) v \<noteq> [] \<and> starts_value (hd (ser (char_array_codec N) v))"
  by (simp add: char_array_codec_def serialize_string_def)

lemma int_any_roundtrip:
  "fits c_int v \<Longrightarrow> delim rest \<Longrightarrow>
     unser (integer_codec c_int) w (ser (integer_codec c_int) v @ rest) = Inr (v, rest)"
  by (rule json_codec.roundtrip [OF integer_codec_contract]) simp_all

lemma cells_skipped:
  "cells_ok N v \<Longrightarrow> skipped (parse_value (ser (char_array_codec N) v @ rest)) rest"
proof -
  assume v: "cells_ok N v"
  then have "ser (char_array_codec N) v = DQ # serialize_chars escape_char (takeWhile (\<lambda>c. c \<noteq> NUL) v) @ [DQ]"
    by (simp add: char_array_codec_def serialize_string_def serialize_chars_stop cells_ok_def)
  with v show ?thesis
    by (simp add: parse_value_string std_parsed.quoted_skipped cells_ok_def)
qed

lemmas cells_facts = cells_roundtrip cells_readers(2) cells_start cells_skipped

context json_text
begin

lemma request_text:
  "text_object (request_members J) (request_init [] init) (request_ok ok) (request_partial init)"
proof
  fix t :: "'a request_object" and i rest
  assume "request_ok ok t" "i < length (request_members J)" "delim rest"
  moreover from this have "i = 0 \<or> i = 1 \<or> i = 2 \<or> i = 3" by (auto simp: request_members_def)
  ultimately show "m_unser (request_members J ! i) (request_partial init t i)
      (m_ser (request_members J ! i) t @ rest) = Inr (request_partial init t (Suc i), rest)"
    by (auto simp: request_members_def request_partial_def request_ok_def cells_roundtrip
        int_any_roundtrip roundtrip)
next
  fix t :: "'a request_object" and M rest
  assume "request_ok ok t" "M \<in> set (request_members J)" "delim rest"
  then show "skipped (parse_value (m_ser M t @ rest)) rest"
    by (auto simp: request_members_def request_ok_def cells_skipped int_text.ser_skipped ser_skipped)
qed (auto simp: request_members_def request_partial_def request_ok_def request_init_def plain_name_def
    plain_member_def bindE_Inl_iff cells_facts c_int.ser_start ser_start c_int.unser_total unser_total
    dest: c_int.unser_suffix unser_suffix cells_readers(1))

lemma response_text:
  "text_object (response_members J) (response_init init) (response_ok ok) (response_partial init)"
proof
  fix t :: "'a response_object" and i rest
  assume "response_ok ok t" "i < length (response_members J)" "delim rest"
  moreover from this have "i = 0 \<or> i = 1 \<or> i = 2" by (auto simp: response_members_def)
  ultimately show "m_unser (response_members J ! i) (response_partial init t i)
      (m_ser (response_members J ! i) t @ rest) = Inr (response_partial init t (Suc i), rest)"
    by (auto simp: response_members_def response_partial_def response_ok_def cells_roundtrip
        int_any_roundtrip roundtrip)
next
  fix t :: "'a response_object" and M rest
  assume "response_ok ok t" "M \<in> set (response_members J)" "delim rest"
  then show "skipped (parse_value (m_ser M t @ rest)) rest"
    by (auto simp: response_members_def response_ok_def cells_skipped int_text.ser_skipped ser_skipped)
qed (auto simp: response_members_def response_partial_def response_ok_def response_init_def
    plain_name_def plain_member_def bindE_Inl_iff cells_facts c_int.ser_start ser_start
    c_int.unser_total unser_total dest: c_int.unser_suffix unser_suffix cells_readers(1))

end

section \<open>Reading numbers and names\<close>

lemma wrap_c_int_fits: "fits c_int (wrap c_int x)"
  using signed_take_bit_int_greater_eq_minus_exp [of 31 x] signed_take_bit_int_less_exp [of 31 x]
  by (simp add: fits_def wrap_def c_int_def bits_of_def)

lemma atoi_digits:
  assumes "list_all is_digit ds" and "\<not> is_digit c"
  shows "digits_loop c_int 0 (ds @ c # rest) = (wrap c_int (dval 0 ds), c # rest)"
proof -
  have "wrap c_int 0 = 0" by (simp add: wrap_def)
  with digits_loop_app [of c_int ds "c # rest" 0] assms
  show ?thesis by simp
qed

lemma atoi_decimal:
  assumes "fits c_int v" and "\<not> is_digit c"
  shows "atoi (decimal v @ c # rest) = Inr v"
proof -
  have d: "dropWhile atoi_space (x # s) = x # s" if "x = CHR ''-'' \<or> is_digit x" for x s
    using that by (auto simp: atoi_space_def is_digit_iff)
  consider "v = 0" | "0 < v" | "v < 0" by linarith
  then show ?thesis
  proof cases
    case 1
    with atoi_digits [OF _ assms(2), of "''0''"] d [of "CHR ''0''"] show ?thesis
      by (simp add: atoi_def decimal_def dval_def digit_val_def schar_def is_digit_iff wrap_def)
  next
    case 2
    from rev_put_digits [OF 2] obtain x s where x: "rev (put_digits 1 v) = x # s" "is_digit x"
      "list_all is_digit (x # s)" "dval 0 (x # s) = v" by auto
    have "x \<noteq> CHR ''-''" "x \<noteq> CHR ''+''" using x(2) by (auto simp: is_digit_iff)
    with 2 x atoi_digits [OF x(3) assms(2)] d [of x] show ?thesis
      by (simp add: atoi_def decimal_def wrap_fits assms(1) del: digits_loop.simps)
  next
    case 3
    then have "0 < - v" by simp
    from rev_put_digits [OF this] obtain x s where x: "rev (put_digits 1 (- v)) = x # s"
      "list_all is_digit (x # s)" "dval 0 (x # s) = - v" by auto
    have "wrap c_int (- wrap c_int (- v)) = v"
      using wrap_minus [of c_int "- v"] wrap_fits [OF _ assms(1)] by simp
    with 3 x atoi_digits [OF x(2) assms(2)] d [of "CHR ''-''"] show ?thesis
      by (simp add: atoi_def decimal_def del: digits_loop.simps)
  qed
qed

lemma raw_equal_name:
  "plain_name n \<Longrightarrow> plain_name name \<Longrightarrow> raw_equal n (name @ DQ # t) = Inr (n = name)"
proof (induction n arbitrary: name)
  case Nil
  then show ?case by (cases name) (auto simp: plain_name_def)
next
  case (Cons c n)
  then show ?case by (cases name) (auto simp: plain_name_def)
qed

text \<open>Names that are written without escapes and fit their array.\<close>

definition wire_char :: "char \<Rightarrow> bool" where
  "wire_char c \<longleftrightarrow> 32 \<le> byte c \<and> byte c < 128 \<and> c \<noteq> DQ \<and> c \<noteq> BSL \<and> c \<noteq> CHR ''/''"

definition wire_name :: "string \<Rightarrow> bool" where
  "wire_name name \<longleftrightarrow> length name \<le> 64 \<and> list_all wire_char name"

lemma wire_char_facts:
  assumes "wire_char c"
  shows "c \<noteq> NUL" "c \<noteq> DQ" "byte c < 128" "escape_char c = [c]"
  using assms by (auto simp: wire_char_def escape_char_def schar_ascii)

lemma wire_chars:
  assumes "list_all wire_char s"
  shows "plain_name s" "ascii s" "serialize_chars escape_char s = s" "takeWhile (\<lambda>c. c \<noteq> NUL) s = s"
  using assms by (induction s) (simp_all add: plain_name_def wire_char_facts wire_char_facts(1,2) [symmetric])

lemma wire_plain: "wire_name name \<Longrightarrow> plain_name name"
  by (simp add: wire_name_def wire_chars)

lemma ascii_utf8: "ascii s \<Longrightarrow> utf8 s"
  by (induction s) (auto simp: and_128_ascii)

lemma takeWhile_fill: "NUL \<notin> set s \<Longrightarrow> takeWhile (\<lambda>c. c \<noteq> NUL) (fill N s) = s"
proof (induction s arbitrary: N)
  case (Cons a s)
  have "fill N (a # s) = a # fill (N - 1) s" by (simp add: fill_def)
  with Cons.prems Cons.IH [of "N - 1"] show ?case by auto
qed (simp add: fill_def takeWhile_replicate)

lemma cells_wire:
  assumes "wire_name name"
  shows "cells_ok 64 (cells 64 name)" and "ser (char_array_codec 64) (cells 64 name) = DQ # name @ [DQ]"
proof -
  have n: "length name \<le> 64" "list_all wire_char name" using assms by (simp_all add: wire_name_def)
  have c: "cells 64 name = fill 64 name" using n by (simp add: cells_def wire_chars(4))
  have t: "takeWhile (\<lambda>c. c \<noteq> NUL) (fill 64 name) = name" "NUL \<notin> set name"
    using wire_chars(1) [OF n(2)] by (simp_all add: takeWhile_fill plain_name_def)
  have "text_ok name" using t(2) wire_chars(2) [OF n(2)] by (simp add: text_ok_def ascii_utf8)
  then show "cells_ok 64 (cells 64 name)"
    using n(1) unfolding cells_ok_def c t(1) by (simp add: fill_def)
  have "serialize_chars escape_char (fill 64 name) = name"
    using serialize_chars_stop [of escape_char "fill 64 name"] wire_chars(3) [OF n(2)] t(1) by simp
  moreover have "take 64 (fill 64 name) = fill 64 name" using n(1) by (simp add: fill_def)
  ultimately show "ser (char_array_codec 64) (cells 64 name) = DQ # name @ [DQ]"
    by (simp add: c char_array_codec_def serialize_string_def)
qed

lemma cells_version:
  "cells_ok 8 (cells 8 ''2.0'')" "ser (char_array_codec 8) (cells 8 ''2.0'') = DQ # ''2.0'' @ [DQ]"
  by code_simp+

section \<open>Finding the parts of a message\<close>

text \<open>One round over a member that is followed by another, and over the last one.\<close>

lemma search_round:
  assumes "note_member (v @ CHR '','' # DQ # t) f = Inr f'"
    and "parse_member (v @ CHR '','' # DQ # t) = Inr (CHR '','' # DQ # t)"
  shows "search_loop (v @ CHR '','' # DQ # t) f = search_loop (DQ # t) f'"
  using assms by (subst search_loop.simps) (simp add: is_space_def)

lemma search_last:
  assumes "note_member (v @ CHR ''}'' # t) f = Inr f'"
    and "skipped (parse_member (v @ CHR ''}'' # t)) (CHR ''}'' # t)"
  shows "search_loop (v @ CHR ''}'' # t) f = Inr f'"
  using assms by (subst search_loop.simps) (auto simp: skipped_def is_space_def)

definition member_text_of :: "string \<Rightarrow> string \<Rightarrow> string" where
  "member_text_of name v = DQ # name @ DQ # CHR '':'' # v"

lemma literal_at_simps:
  "literal_at (x # xs) (y # ys) \<longleftrightarrow> x = y \<and> literal_at xs ys"
  "literal_at [] s \<longleftrightarrow> s = [] \<or> hd s \<noteq> NUL" "\<not> literal_at (x # xs) []"
  by (auto simp: literal_at_def) (auto simp: hd_conv_nth)

lemma literal_method:
  "literal_at s_method (member_text_of ''method'' v)" "\<not> literal_at s_method (member_text_of ''jsonrpc'' v)"
  "\<not> literal_at s_method (member_text_of ''id'' v)" "\<not> literal_at s_method (member_text_of ''params'' v)"
  "\<not> literal_at s_method (member_text_of ''result'' v)"
  by (simp_all add: s_method_def member_text_of_def literal_at_simps)

lemma literal_result:
  "literal_at s_result (member_text_of ''result'' v)" "\<not> literal_at s_result (member_text_of ''jsonrpc'' v)"
  "\<not> literal_at s_result (member_text_of ''id'' v)" "\<not> literal_at s_result (member_text_of ''params'' v)"
  by (simp_all add: s_result_def member_text_of_def literal_at_simps)

lemma literal_id:
  "literal_at s_id (member_text_of ''id'' v)" "\<not> literal_at s_id (member_text_of ''jsonrpc'' v)"
  "\<not> literal_at s_id (member_text_of ''params'' v)"
  by (simp_all add: s_id_def member_text_of_def literal_at_simps)

lemmas literal_names = literal_method literal_result literal_id

lemma member_text_app: "member_text_of name v @ t = member_text_of name (v @ t)"
  by (simp add: member_text_of_def)

lemma drop_name:
  "drop (length s_method) (member_text_of ''method'' v) = CHR '':'' # v"
  "drop (length s_result) (member_text_of ''result'' v) = CHR '':'' # v"
  "drop (length s_id) (member_text_of ''id'' v) = CHR '':'' # v"
  by (simp_all add: s_method_def s_result_def s_id_def member_text_of_def)

lemma note_other:
  "name = ''jsonrpc'' \<or> name = ''params'' \<Longrightarrow> note_member (member_text_of name v @ t) f = Inr f"
  by (auto simp: note_member_def member_text_app literal_names)

lemma skip_low_high: "schar c > 32 \<Longrightarrow> skip_low (c # s) = c # s"
  by (simp add: skip_low_def)

lemma schar_punct [simp]:
  "schar (CHR '':'') = 58" "schar DQ = 34" "schar (CHR ''}'') = 125" "schar (CHR ''-'') = 45"
  "schar (CHR ''{'') = 123"
  by (simp_all add: schar_def)

lemma tovalue_string: "search_tovalue (CHR '':'' # DQ # name @ DQ # t) = Inr (Some (name @ DQ # t))"
  by (simp add: search_tovalue_def skip_low_high)

lemma tovalue_decimal: "search_tovalue (CHR '':'' # decimal v @ c # t) = Inr (Some (decimal v @ c # t))"
proof -
  obtain x s where x: "decimal v = x # s" "x = CHR ''-'' \<or> is_digit x" using decimal_starts by blast
  then have "schar x > 32" "x \<noteq> DQ" by (auto simp: is_digit_iff schar_def)
  with x show ?thesis by (simp add: search_tovalue_def skip_low_high)
qed

lemma tovalue_any: "\<exists>p. search_tovalue (CHR '':'' # v @ CHR ''}'' # t) = Inr (Some p)"
proof -
  let ?q = "skip_low (v @ CHR ''}'' # t)"
  have "?q = skip_low v @ CHR ''}'' # t \<and> skip_low v \<noteq> [] \<or> ?q = CHR ''}'' # t"
    by (induction v) (auto simp: skip_low_def)
  then have "?q \<noteq> []" "hd ?q = DQ \<Longrightarrow> tl ?q \<noteq> []" by auto
  then show ?thesis by (auto simp: search_tovalue_def skip_low_high Let_def)
qed

lemma note_method:
  "note_member (member_text_of ''method'' (DQ # name @ [DQ]) @ t) f = Inr (f\<lparr>f_method := Some (name @ DQ # t)\<rparr>)"
  by (simp add: note_member_def member_text_app literal_names drop_name tovalue_string)

lemma note_id:
  "note_member (member_text_of ''id'' (decimal v) @ c # t) f = Inr (f\<lparr>f_id := Some (decimal v @ c # t)\<rparr>)"
  by (simp add: note_member_def member_text_app literal_names drop_name tovalue_decimal)

lemma note_result:
  "\<exists>p. note_member (member_text_of ''result'' v @ CHR ''}'' # t) f = Inr (f\<lparr>f_result := Some p\<rparr>)"
  using tovalue_any [of v t] by (auto simp: note_member_def member_text_app literal_names drop_name)

lemma note_result_string:
  "note_member (member_text_of ''result'' (DQ # name @ [DQ]) @ t) f = Inr (f\<lparr>f_result := Some (name @ DQ # t)\<rparr>)"
  by (simp add: note_member_def member_text_app literal_names drop_name tovalue_string)

lemma parse_member_text:
  assumes "plain_member n" and "v \<noteq> []" and "starts_value (hd v)"
  shows "parse_member (member_text_of n v @ r) = parse_value (v @ r)"
  using assms by (subst parse_member_unfold) (simp add: member_text_of_def is_string_def plain_string)

lemma plain_members_rpc:
  "plain_member ''jsonrpc''" "plain_member ''method''" "plain_member ''id''" "plain_member ''params''"
  "plain_member ''result''" "plain_member ''2.0''"
  by (simp_all add: plain_member_def plain_name_def)

lemma wire_member: "list_all wire_char name \<Longrightarrow> plain_member name"
  using wire_chars(1,2) [of name] by (auto simp: plain_member_def wire_char_def list_all_iff)

lemma parse_member_string:
  "plain_member n \<Longrightarrow> plain_member s \<Longrightarrow> parse_member (member_text_of n (DQ # s @ [DQ]) @ r) = Inr r"
  by (simp add: parse_member_text parse_value_string plain_string)

lemma parse_member_decimal:
  assumes "plain_member n" and "delim r"
  shows "parse_member (member_text_of n (decimal v) @ r) = Inr r"
proof -
  obtain x s where "decimal v = x # s" "x = CHR ''-'' \<or> is_digit x" using decimal_starts by blast
  then have "decimal v \<noteq> []" "starts_value (hd (decimal v))" by (auto intro: digit_starts_value)
  then show ?thesis using assms by (simp add: parse_member_text parse_value_decimal)
qed

lemma search_brace:
  "search (CHR ''{'' # member_text_of n v @ t) = search_loop (member_text_of n v @ t) nothing_found"
  by (simp add: search_def is_space_def member_text_of_def)

lemma member_text_DQ: "\<exists>w. member_text_of n v @ t = DQ # w"
  by (simp add: member_text_of_def)

text \<open>A member that is followed by another one.\<close>

lemma search_next:
  assumes "note_member (member_text_of n v @ CHR '','' # member_text_of m w @ t) f = Inr f'"
    and "parse_member (member_text_of n v @ CHR '','' # member_text_of m w @ t) =
           Inr (CHR '','' # member_text_of m w @ t)"
  shows "search_loop (member_text_of n v @ CHR '','' # member_text_of m w @ t) f =
           search_loop (member_text_of m w @ t) f'"
  using search_round [of "member_text_of n v"] member_text_DQ [of m w t] assms by auto

lemma serialize_member_text:
  "plain_name (m_name M) \<Longrightarrow> serialize_member t M = member_text_of (m_name M) (m_ser M t)"
  by (simp add: serialize_member_def member_text_of_def takeWhile_plain)

definition version_text :: string where
  "version_text = member_text_of ''jsonrpc'' (DQ # ''2.0'' @ [DQ])"

lemma search_version:
  "search (CHR ''{'' # version_text @ CHR '','' # member_text_of m w @ t) =
     search_loop (member_text_of m w @ t) nothing_found"
  unfolding version_text_def search_brace
  by (rule search_next [OF note_other parse_member_string]) (simp_all add: plain_members_rpc)

lemma search_id:
  "search_loop (member_text_of ''id'' (decimal i) @ CHR '','' # member_text_of m w @ t) f =
     search_loop (member_text_of m w @ t) (f\<lparr>f_id := Some (decimal i @ CHR '','' # member_text_of m w @ t)\<rparr>)"
  by (rule search_next [OF note_id parse_member_decimal]) (simp_all add: plain_members_rpc)

section \<open>Requests\<close>

abbreviation request_msg :: "string \<Rightarrow> 'p \<Rightarrow> int \<Rightarrow> 'p \<Rightarrow> 'p request_object" where
  "request_msg name p0 i p \<equiv> (request_init name p0)\<lparr>rq_params := p, rq_id := i\<rparr>"

abbreviation response_msg :: "'r \<Rightarrow> int \<Rightarrow> 'r \<Rightarrow> 'r response_object" where
  "response_msg r0 i r \<equiv> (response_init r0)\<lparr>rp_result := r, rp_id := i\<rparr>"

lemma ser_decimal: "fits c_int i \<Longrightarrow> ser (integer_codec c_int) i = decimal i"
  by (simp add: integer_codec_def serialize_integer_decimal)

lemma request_bytes:
  assumes "wire_name name" and "fits c_int i"
  shows "ser (request_rpc J p0) (request_msg name p0 i p) =
    CHR ''{'' # version_text @ CHR '','' # member_text_of ''method'' (DQ # name @ [DQ]) @ CHR '','' #
      member_text_of ''id'' (decimal i) @ CHR '','' # member_text_of ''params'' (ser J p) @ ''}''"
  using assms
  by (simp add: request_rpc_def object_codec_def request_members_def serialize_member_text
      plain_name_def request_init_def cells_wire cells_version ser_decimal version_text_def)

lemma response_bytes:
  assumes "fits c_int i"
  shows "ser (response_rpc R r0) (response_msg r0 i r) =
    CHR ''{'' # version_text @ CHR '','' # member_text_of ''id'' (decimal i) @ CHR '','' #
      member_text_of ''result'' (ser R r) @ ''}''"
  using assms
  by (simp add: response_rpc_def object_codec_def response_members_def serialize_member_text
      plain_name_def response_init_def cells_version ser_decimal version_text_def)

context json_text
begin

lemma last_member_skipped:
  "ok v \<Longrightarrow> plain_member n \<Longrightarrow> skipped (parse_member (member_text_of n (ser J v) @ CHR ''}'' # t)) (CHR ''}'' # t)"
  using ser_start [of v] by (simp add: parse_member_text ser_skipped)

lemma search_request:
  assumes "wire_name name" and "fits c_int i" and "ok p"
  shows "\<exists>t u. search (ser (request_rpc J init) (request_msg name init i p) @ rest) =
    Inr \<lparr>f_method = Some (name @ DQ # t), f_result = None, f_id = Some (decimal i @ CHR '','' # u)\<rparr>"
proof -
  let ?params = "member_text_of ''params'' (ser J p) @ CHR ''}'' # rest"
  let ?id = "member_text_of ''id'' (decimal i) @ CHR '','' # ?params"
  have "search_loop (member_text_of ''method'' (DQ # name @ [DQ]) @ CHR '','' # ?id) nothing_found =
      search_loop ?id (nothing_found\<lparr>f_method := Some (name @ DQ # CHR '','' # ?id)\<rparr>)"
    by (rule search_next [OF note_method parse_member_string])
       (use assms(1) in \<open>simp_all add: plain_members_rpc wire_member wire_name_def\<close>)
  moreover have "search_loop ?params f = Inr f" for f
    by (rule search_last [OF note_other last_member_skipped]) (simp_all add: assms(3) plain_members_rpc)
  ultimately show ?thesis
    unfolding request_bytes [OF assms(1,2)]
    by (simp add: search_version search_id nothing_found_def)
qed

lemma search_response:
  assumes "fits c_int i" and "ok r"
  shows "\<exists>t u. search (ser (response_rpc J init) (response_msg init i r) @ rest) =
    Inr \<lparr>f_method = None, f_result = Some t, f_id = Some (decimal i @ CHR '','' # u)\<rparr>"
proof -
  let ?result = "member_text_of ''result'' (ser J r) @ CHR ''}'' # rest"
  have "\<exists>t. search_loop ?result f = Inr (f\<lparr>f_result := Some t\<rparr>)" for f
  proof -
    obtain t where "note_member ?result f = Inr (f\<lparr>f_result := Some t\<rparr>)" using note_result by blast
    then have "search_loop ?result f = Inr (f\<lparr>f_result := Some t\<rparr>)"
      by (rule search_last) (simp add: last_member_skipped assms(2) plain_members_rpc)
    then show ?thesis by blast
  qed
  then obtain t where "search_loop ?result (nothing_found\<lparr>f_id := Some (decimal i @ CHR '','' # ?result)\<rparr>) =
      Inr \<lparr>f_method = None, f_result = Some t, f_id = Some (decimal i @ CHR '','' # ?result)\<rparr>"
    by (metis (no_types, lifting) found.update_convs(2,3) nothing_found_def)
  then show ?thesis
    unfolding response_bytes [OF assms(1)] by (auto simp: search_version search_id)
qed

end

section \<open>Dispatch\<close>

lemma invoke_by_name:
  assumes "list_all (\<lambda>m. plain_name (mt_name m)) ms" and "plain_name name"
  shows "invoke ms (name @ DQ # t) d (-1) c =
    (case find (\<lambda>m. mt_name m = name) ms of
       Some m \<Rightarrow> mt_request m d c
     | None \<Rightarrow> Inr (None, event (Unknown_method_event d) c))"
  using assms(1) by (induction ms) (simp_all add: raw_equal_name assms(2))

lemma invoke_by_id:
  assumes "0 < i"
  shows "invoke ms p d i c =
    (case find (\<lambda>m. has_id c m i) ms of
       Some m \<Rightarrow> mt_response m d c
     | None \<Rightarrow> Inr (None, event (Lost_result_event d) c))"
  using assms by (induction ms) simp_all

text \<open>The state after a handler with a result has been answered.\<close>

definition answer :: "'r codec \<Rightarrow> 'r \<Rightarrow> int \<Rightarrow> (bool \<times> 'r) \<times> 'w rpc \<Rightarrow> 'w rpc" where
  "answer R r0 i = (\<lambda>((ok, res), c).
     if ok then respond i (ser (response_rpc R r0) (response_msg r0 i res)) c else c)"

context json_text
begin

lemma request_object_roundtrip:
  assumes "wire_name name" and "fits c_int i" and "ok p"
  shows "unser (request_rpc J init) (request_init [] init)
    (ser (request_rpc J init) (request_msg name init i p) @ rest) = Inr (request_msg name init i p, rest)"
  unfolding request_rpc_def
  by (rule json_object.object_roundtrip [OF text_object.axioms(1) [OF request_text]])
     (simp add: request_ok_def request_init_def cells_wire cells_version assms)

lemma response_object_roundtrip:
  assumes "fits c_int i" and "ok r"
  shows "unser (response_rpc J init) (response_init init)
    (ser (response_rpc J init) (response_msg init i r) @ rest) = Inr (response_msg init i r, rest)"
  unfolding response_rpc_def
  by (rule json_object.object_roundtrip [OF text_object.axioms(1) [OF response_text]])
     (simp add: response_ok_def response_init_def cells_version assms)

lemma invoker_runs:
  assumes "wire_name name" and "fits c_int i" and "ok p"
  shows "invoker_request J init R r0 f (ser (request_rpc J init) (request_msg name init i p) @ rest) c =
    bindE (f p i c) (\<lambda>x. Inr (Some rest, answer R r0 i x))"
proof -
  have "ser (request_rpc J init) t \<noteq> []" "ser (response_rpc R r0) u \<noteq> []" for t u
    by (simp_all add: request_rpc_def response_rpc_def object_codec_def)
  then show ?thesis
    using request_object_roundtrip [OF assms, of rest]
    by (auto simp: invoker_request_def answer_def bindE_def split: sum.splits prod.splits)
qed

lemma invoke_1_request:
  assumes "wire_name name" and "fits c_int i" and "ok p"
    and "list_all (\<lambda>m. plain_name (mt_name m)) ms"
  shows "invoke_1 ms (ser (request_rpc J init) (request_msg name init i p) @ rest) c =
    (let d = ser (request_rpc J init) (request_msg name init i p) @ rest;
         c = c\<lparr>in_ids := i # in_ids c\<rparr>
     in case find (\<lambda>m. mt_name m = name) ms of
          Some m \<Rightarrow> mt_request m d c
        | None \<Rightarrow> Inr (None, event (Unknown_method_event d) c))"
proof -
  obtain t u where "search (ser (request_rpc J init) (request_msg name init i p) @ rest) =
    Inr \<lparr>f_method = Some (name @ DQ # t), f_result = None, f_id = Some (decimal i @ CHR '','' # u)\<rparr>"
    using search_request [OF assms(1-3)] by blast
  then show ?thesis
    by (simp add: invoke_1_def Let_def atoi_decimal is_digit_iff assms(2) invoke_by_name [OF assms(4) wire_plain [OF assms(1)]])
qed

lemma invoke_1_response:
  assumes "fits c_int i" and "0 < i" and "ok r"
  shows "invoke_1 ms (ser (response_rpc J init) (response_msg init i r) @ rest) c =
    (let d = ser (response_rpc J init) (response_msg init i r) @ rest
     in case find (\<lambda>m. has_id c m i) ms of
          Some m \<Rightarrow> mt_response m d c
        | None \<Rightarrow> Inr (None, event (Lost_result_event d) c))"
proof -
  obtain t u where "search (ser (response_rpc J init) (response_msg init i r) @ rest) =
    Inr \<lparr>f_method = None, f_result = Some t, f_id = Some (decimal i @ CHR '','' # u)\<rparr>"
    using search_response [OF assms(1,3)] by blast
  then show ?thesis
    by (simp add: invoke_1_def Let_def atoi_decimal is_digit_iff assms(1) invoke_by_id [OF assms(2)])
qed

end

lemma bind_answer:
  "bindE x (\<lambda>((ok, res), c).
     Inr (r, if ok then respond i (ser (response_rpc R r0) (response_msg r0 i res)) c else c)) =
   bindE x (\<lambda>x. Inr (r, answer R r0 i x))"
  by (cases x) (auto simp: answer_def)

lemma fits_created: "caller_request J p0 tag name p a = (i, a') \<Longrightarrow> fits c_int i"
  by (auto simp: caller_request_def create_id_def wrap_c_int_fits Let_def)

lemma sent_request:
  "caller_request J p0 tag name p a = (i, a') \<Longrightarrow>
     sent a' = sent a @ [ser (request_rpc J p0) (request_msg name p0 i p)]"
  by (auto simp: caller_request_def create_id_def Let_def invoke_write_def writer_def request_rpc_def
      object_codec_def)

text \<open>
  C5. A remote call runs its handler: one side calls the method \<open>name\<close> with parameters \<open>p\<close>; when
  the text it sends arrives at a side that has a method of this name, the handler of that
  method is executed once, with exactly the parameters and the id of the call, whatever
  the parameters are; if it has a result, the answer carries the same id.
\<close>

theorem remote_call_runs_handler:
  assumes "json_text J okp p0" and "okp p" and "wire_name name"
    and "list_all (\<lambda>m. plain_name (mt_name m)) ms"
    and "find (\<lambda>m. mt_name m = name) ms = Some m" and "mt_request m = invoker_request J p0 R r0 f"
    and "caller_request J p0 tag name p a = (i, a')"
  shows "\<exists>d. sent a' = sent a @ [d] \<and>
    invoke_1 ms d c =
      bindE (f p i (c\<lparr>in_ids := i # in_ids c\<rparr>)) (\<lambda>((ok, res), c).
        Inr (Some [], if ok then respond i (ser (response_rpc R r0) (response_msg r0 i res)) c else c))"
proof -
  note fit = fits_created [OF assms(7)]
  show ?thesis
    unfolding bind_answer
    using json_text.invoke_1_request [OF assms(1,3) fit assms(2,4), of "[]" c]
      json_text.invoker_runs [OF assms(1,3) fit assms(2), of R r0 f "[]"] sent_request [OF assms(7)]
    by (auto simp: Let_def assms(5,6))
qed

text \<open>A connection whose only method is \<open>set\<close>, with a handler that keeps what it is given.\<close>

definition keep_params :: "(valmap2str, valmap2bool, valmap2str) handler" where
  "keep_params p i c = Inr ((True, [(''done'', True)]), c\<lparr>rworld := p\<rparr>)"

definition set_method :: "valmap2str meth" where
  "set_method = \<lparr>mt_name = ''set'', mt_tag = ''set'',
     mt_request = invoker_request valmap2str_json [] valmap2bool_json [] keep_params,
     mt_notify = no_part,
     mt_response = caller_response valmap2bool_json [] ''set'' (\<lambda>r i c. Inr (True, c))\<rparr>"

definition idle_rpc :: "valmap2str rpc" where
  "idle_rpc = \<lparr>rworld = [], in_ids = [], id_count = 0, out_ids = (\<lambda>_. []), sent = [], events = []\<rparr>"

theorem remote_call_runs_handler_witness:
  "\<exists>d. sent (snd (caller_request valmap2str_json [] ''set'' ''set'' [(''k'', ''v'')] idle_rpc)) = [d] \<and>
     (\<exists>c. invoke_1 [set_method] d idle_rpc = Inr (Some [], c) \<and> rworld c = [(''k'', ''v'')])"
proof -
  let ?a = "caller_request valmap2str_json [] ''set'' ''set'' [(''k'', ''v'')] idle_rpc"
  have "strs_ok [(''k'', ''v'')]" "wire_name ''set''" by code_simp+
  moreover have "list_all (\<lambda>m. plain_name (mt_name m)) [set_method]"
    by (simp add: set_method_def plain_name_def)
  ultimately have "\<exists>d. sent (snd ?a) = sent idle_rpc @ [d] \<and>
    invoke_1 [set_method] d idle_rpc =
      bindE (keep_params [(''k'', ''v'')] (fst ?a) (idle_rpc\<lparr>in_ids := fst ?a # in_ids idle_rpc\<rparr>)) (\<lambda>((ok, res), c).
        Inr (Some [], if ok then respond (fst ?a) (ser (response_rpc valmap2bool_json []) (response_msg [] (fst ?a) res)) c else c))"
    by (intro remote_call_runs_handler [OF strs_text.json_text_axioms, where m = set_method])
       (simp_all add: set_method_def)
  then obtain d where d: "sent (snd ?a) = [d]" "\<exists>c. invoke_1 [set_method] d idle_rpc = Inr (Some [], c) \<and>
      rworld c = [(''k'', ''v'')]"
    by (auto simp: keep_params_def respond_def writer_def idle_rpc_def)
  then show ?thesis by (intro exI [of _ d] conjI)
qed

text \<open>
  C6. An answer reaches its caller: the text of a response with the id of a call under way is
  handed to the method that made the call, its handler gets exactly the result, and the id
  is forgotten afterwards.
\<close>

theorem response_reaches_caller:
  assumes "json_text R okr r0" and "okr r" and "fits c_int i" and "0 < i"
    and "find (\<lambda>m. has_id c m i) ms = Some m" and "mt_response m = caller_response R r0 (mt_tag m) g"
  shows "invoke_1 ms (ser (response_rpc R r0) (response_msg r0 i r)) c =
    bindE (g r i c) (\<lambda>(_, c).
      Inr (Some [], c\<lparr>out_ids := (out_ids c)(mt_tag m := remove1 i (out_ids c (mt_tag m)))\<rparr>))"
proof -
  have "has_id c m i" using find_Some_iff [of "\<lambda>m. has_id c m i" ms m] assms(5) by auto
  then have "i \<in> set (out_ids c (mt_tag m))" by (simp add: has_id_def)
  moreover have "ser (response_rpc R r0) t \<noteq> []" for t by (simp add: response_rpc_def object_codec_def)
  ultimately show ?thesis
    using json_text.invoke_1_response [OF assms(1,3,4,2), of ms "[]" c]
      json_text.response_object_roundtrip [OF assms(1,3,2), of "[]"]
    by (auto simp: Let_def assms(5,6) caller_response_def)
qed

theorem response_reaches_caller_witness:
  "invoke_1 [set_method] (ser (response_rpc valmap2bool_json []) (response_msg [] 7 [(''k'', True)]))
     (idle_rpc\<lparr>out_ids := (\<lambda>_. [])(''set'' := [7])\<rparr>) =
   Inr (Some [], idle_rpc\<lparr>out_ids := (\<lambda>_. [])(''set'' := [])\<rparr>)"
proof -
  have "fits c_int 7" "list_all (\<lambda>e. text_ok (fst e) \<and> True) [(''k'', True)]" by code_simp+
  then show ?thesis
    using response_reaches_caller [OF bools_text.json_text_axioms, where ms = "[set_method]" and m = set_method
        and i = 7 and r = "[(''k'', True)]" and c = "idle_rpc\<lparr>out_ids := (\<lambda>_. [])(''set'' := [7])\<rparr>"
        and g = "\<lambda>r i c. Inr (True, c)"]
    by (simp add: set_method_def has_id_def)
qed

text \<open>
  A response is taken for a request when its id is -1, the id an answer has by default: it
  is executed by the method that has the name its result happens to be.
\<close>

lemma response_taken_for_request:
  assumes "list_all wire_char name" and "list_all (\<lambda>m. plain_name (mt_name m)) ms"
    and "find (\<lambda>m. mt_name m = name) ms = Some m"
  shows "let d = ser (response_rpc string_codec []) (response_msg [] (-1) name)
         in invoke_1 ms d c = mt_request m d c"
proof -
  let ?result = "member_text_of ''result'' (DQ # name @ [DQ]) @ ''}''"
  have f: "fits c_int (-1)" by (simp add: fits_def c_int_def bits_of_def)
  have d: "ser (response_rpc string_codec []) (response_msg [] (-1) name) =
      CHR ''{'' # version_text @ CHR '','' # member_text_of ''id'' (decimal (-1)) @ CHR '','' # ?result"
    by (simp add: response_bytes [OF f] string_codec_def serialize_string_def wire_chars(3) [OF assms(1)])
  have r: "search_loop ?result f = Inr (f\<lparr>f_result := Some (name @ DQ # ''}'')\<rparr>)" for f
    by (rule search_last [OF note_result_string])
       (use assms(1) in \<open>simp add: parse_member_string plain_members_rpc wire_member\<close>)
  have "plain_name name" by (rule wire_chars(1) [OF assms(1)])
  then show ?thesis
    using atoi_decimal [OF f, of "CHR '',''"]
    by (simp add: d invoke_1_def search_version search_id r nothing_found_def is_digit_iff
        invoke_by_name [OF assms(2)] assms(3))
qed

section \<open>Batches\<close>

text \<open>What a sequence of requests for one method should do: one call after the other.\<close>

fun run_calls ::
  "('p, 'r, 'w) handler \<Rightarrow> 'r codec \<Rightarrow> 'r \<Rightarrow> (int \<times> 'p) list \<Rightarrow> 'w rpc \<Rightarrow> (unit, 'w) rpc_result" where
  "run_calls f R r0 [] c = Inr ((), c)"
| "run_calls f R r0 ((i, p) # calls) c =
     bindE (f p i (c\<lparr>in_ids := i # in_ids c\<rparr>)) (\<lambda>x. run_calls f R r0 calls (answer R r0 i x))"

definition batch_text :: "'p codec \<Rightarrow> 'p \<Rightarrow> string \<Rightarrow> (int \<times> 'p) list \<Rightarrow> string" where
  "batch_text J p0 name calls =
     concat (map (\<lambda>(i, p). ser (request_rpc J p0) (request_msg name p0 i p)) calls)"

lemma request_rpc_brace: "\<exists>s. ser (request_rpc J p0) t = CHR ''{'' # s"
  by (simp add: request_rpc_def object_codec_def)

lemma batch_text_start: "calls \<noteq> [] \<Longrightarrow> \<exists>s. batch_text J p0 name calls = CHR ''{'' # s"
  by (cases calls) (auto simp: batch_text_def request_rpc_def object_codec_def)

context json_text
begin

lemma invoke_batch_runs:
  assumes "wire_name name" and "list_all (\<lambda>m. plain_name (mt_name m)) ms"
    and "find (\<lambda>m. mt_name m = name) ms = Some m" and "mt_request m = invoker_request J init R r0 f"
  shows "list_all (\<lambda>(i, p). fits c_int i \<and> ok p) calls \<Longrightarrow> calls \<noteq> [] \<Longrightarrow>
    invoke_batch n ms (batch_text J init name calls) c = run_calls f R r0 (take n calls) c"
proof (induction n arbitrary: calls c)
  case (Suc n)
  obtain i p rest where calls: "calls = (i, p) # rest" using Suc.prems(2) by (cases calls) auto
  let ?t = "batch_text J init name rest"
  have ip: "fits c_int i" "ok p" using Suc.prems(1) calls by auto
  have bytes: "batch_text J init name calls = ser (request_rpc J init) (request_msg name init i p) @ ?t"
    by (simp add: batch_text_def calls)
  have one: "invoke_1 ms (batch_text J init name calls) c =
      bindE (f p i (c\<lparr>in_ids := i # in_ids c\<rparr>)) (\<lambda>x. Inr (Some ?t, answer R r0 i x))"
    unfolding bytes invoke_1_request [OF assms(1) ip assms(2)]
    by (simp add: Let_def assms(3,4) invoker_runs [OF assms(1) ip])
  have "?t \<noteq> batch_text J init name calls"
    unfolding bytes using request_rpc_brace by (metis append_self_conv2 list.distinct(1))
  moreover have "skip_low ?t = ?t"
    using batch_text_start [of rest J init name] by (cases "rest = []") (auto simp: skip_low_high batch_text_def skip_low_def)
  moreover have "?t = [] \<longleftrightarrow> rest = []"
    using batch_text_start [of rest J init name] by (cases "rest = []") (auto simp: batch_text_def [of _ _ _ "[]"])
  moreover have "invoke_batch n ms ?t c = run_calls f R r0 (take n rest) c" if "rest \<noteq> []" for c
    using Suc.IH [of rest c] Suc.prems(1) calls that by simp
  ultimately show ?case
    by (cases "f p i (c\<lparr>in_ids := i # in_ids c\<rparr>)") (auto simp: one [unfolded calls] Let_def calls)
qed simp

end

text \<open>
  Requests that arrive together are executed one after the other, in their order, each
  answered before the next one runs; from the eleventh on they are dropped without an
  answer or an error.
\<close>

lemma batch_runs_first_ten:
  assumes "json_text J okp p0" and "list_all (\<lambda>(i, p). fits c_int i \<and> okp p) calls" and "calls \<noteq> []"
    and "wire_name name" and "list_all (\<lambda>m. plain_name (mt_name m)) ms"
    and "find (\<lambda>m. mt_name m = name) ms = Some m" and "mt_request m = invoker_request J p0 R r0 f"
  shows "ad_invoke ms (batch_text J p0 name calls) c =
    bindE (run_calls f R r0 (take 10 calls) (event Begin_invoke c)) (\<lambda>(_, c). Inr ((), event End_invoke c))"
  using json_text.invoke_batch_runs [OF assms(1,4-7,2,3), of 10] batch_text_start [OF assms(3), of J p0 name]
  by (auto simp: ad_invoke_def)

lemma keep_nothing:
  "rworld c = [] \<Longrightarrow> \<exists>c'. run_calls keep_params R r0 (replicate n (i, [])) c = Inr ((), c') \<and> rworld c' = []"
  by (induction n arbitrary: c) (simp_all add: keep_params_def answer_def respond_def writer_def)

end
