(* ===== verification/Framing.thy ===== *)
theory Framing
  imports Prelude
begin

text \<open>
  Messages on a TCP connection end with \<open>\r\n\<close>. The writer is \<open>ad_rn_writer\<close> of
  \<open>common/aspect/rn_json_aspect.hpp\<close>; the reader is \<open>ad_binary_splitter\<close> with
  \<open>sep<'\r', '\n'>\<close> of \<open>fas/adv/io/ad_binary_splitter.hpp\<close>, which gets the stream in blocks of
  any size and hands every message to the next advice, the separator included.

  The next advice is a function \<open>f\<close> on the program state \<open>'s\<close>; it says whether \<open>clear\<close> was
  called while it ran (because the connection was closed). The offset -1 is \<open>None\<close>. Reserving
  and shrinking memory is left out.
\<close>

section \<open>Writing\<close>

definition rn_write :: "string \<Rightarrow> string" where
  "rn_write d = d @ [CR, LF]"

section \<open>Splitting\<close>

type_synonym 's receiver = "string \<Rightarrow> 's \<Rightarrow> 's \<times> bool"

definition size_sep :: nat where "size_sep = 2"

definition sep_at :: "string \<Rightarrow> nat \<Rightarrow> bool" where
  "sep_at b i \<longleftrightarrow> b ! i = CR \<and> b ! (i + 1) = LF"

function split_loop ::
  "'s receiver \<Rightarrow> string \<Rightarrow> nat \<Rightarrow> nat \<Rightarrow> bool \<Rightarrow> 's \<Rightarrow> nat option \<times> 's \<times> bool" where
  "split_loop f b i offset flag st =
     (if i < length b - size_sep + 1
      then if sep_at b i
           then let (st, clear_flag) = f (take (i + size_sep - offset) (drop offset b)) st
                in if clear_flag then (Some 0, st, True)
                   else split_loop f b (i + 1) (i + size_sep) True st
           else split_loop f b (i + 1) offset flag st
      else (if flag then Some offset else None, st, False))"
  by pat_completeness auto
termination
  by (relation "measure (\<lambda>(f, b, i, _). length b - size_sep + 1 - i)") auto

declare split_loop.simps [simp del]

definition split_parse ::
  "'s receiver \<Rightarrow> string \<Rightarrow> nat \<Rightarrow> nat \<Rightarrow> 's \<Rightarrow> nat option \<times> 's \<times> bool" where
  "split_parse f b offset offset_start st =
     (if length b < size_sep then (None, st, False)
      else split_loop f b offset_start offset False st)"

text \<open>\<open>clear()\<close> empties the buffer, so when the flag is set the buffer is empty.\<close>

definition splitter :: "'s receiver \<Rightarrow> string \<Rightarrow> string \<Rightarrow> 's \<Rightarrow> string \<times> 's" where
  "splitter f buf d st =
     (if buf = []
      then case split_parse f d 0 0 st of (offset, st, clear_flag) \<Rightarrow>
             (if clear_flag then []
              else case offset of None \<Rightarrow> d | Some k \<Rightarrow> if k \<noteq> length d then drop k d else buf, st)
      else let b = buf @ d;
               start = (if length buf > size_sep then length buf - size_sep else 0)
           in case split_parse f b 0 start st of (offset, st, clear_flag) \<Rightarrow>
             (if clear_flag then []
              else case offset of None \<Rightarrow> b | Some k \<Rightarrow> if k = length b then [] else drop k b, st))"

text \<open>The blocks of a stream, one after the other.\<close>

fun read_stream :: "'s receiver \<Rightarrow> string \<Rightarrow> string list \<Rightarrow> 's \<Rightarrow> string \<times> 's" where
  "read_stream f buf [] st = (buf, st)"
| "read_stream f buf (d # ds) st = (case splitter f buf d st of (buf, st) \<Rightarrow> read_stream f buf ds st)"

section \<open>The specification\<close>

text \<open>The messages of a stream and what is left behind the last one.\<close>

fun frames :: "string \<Rightarrow> string list \<times> string" where
  "frames [] = ([], [])"
| "frames [c] = ([], [c])"
| "frames (c # e # s) =
     (if c = CR \<and> e = LF then (case frames s of (fs, r) \<Rightarrow> ([CR, LF] # fs, r))
      else case frames (e # s) of
             ([], r) \<Rightarrow> ([], c # r)
           | (m # fs, r) \<Rightarrow> ((c # m) # fs, r))"

text \<open>Handing over the messages until one of them clears the buffer.\<close>

fun run_frames :: "'s receiver \<Rightarrow> string list \<Rightarrow> 's \<Rightarrow> 's \<times> bool" where
  "run_frames f [] st = (st, False)"
| "run_frames f (m # fs) st = (case f m st of (st, clear_flag) \<Rightarrow>
     if clear_flag then (st, True) else run_frames f fs st)"

section \<open>The splitter meets it\<close>

text \<open>Characters in front of the first message.\<close>

definition onto :: "string \<Rightarrow> string list \<times> string \<Rightarrow> string list \<times> string" where
  "onto p x = (case x of ([], r) \<Rightarrow> ([], p @ r) | (m # fs, r) \<Rightarrow> ((p @ m) # fs, r))"

lemma onto_Nil [simp]: "onto [] x = x"
  by (simp add: onto_def split: prod.splits list.splits)

lemma onto_onto [simp]: "onto p (onto q x) = onto (p @ q) x"
  by (simp add: onto_def split: prod.splits list.splits)

lemma frames_step:
  "i + 1 < length b \<Longrightarrow> \<not> sep_at b i \<Longrightarrow> frames (drop i b) = onto [b ! i] (frames (drop (i + 1) b))"
  using Cons_nth_drop_Suc [of i b] Cons_nth_drop_Suc [of "i + 1" b]
  by (auto simp: sep_at_def onto_def split: prod.splits list.splits dest!: sym [of "_ # _"])

lemma frames_sep:
  "i + 1 < length b \<Longrightarrow> sep_at b i \<Longrightarrow>
     frames (drop i b) = ([CR, LF] # fst (frames (drop (i + 2) b)), snd (frames (drop (i + 2) b)))"
  using Cons_nth_drop_Suc [of i b] Cons_nth_drop_Suc [of "i + 1" b]
  by (auto simp: sep_at_def split: prod.splits dest!: sym [of "_ # _"])

lemma frames_short: "length s < 2 \<Longrightarrow> frames s = ([], s)"
  by (cases s rule: frames.cases) auto

lemma frames_Cons2:
  "\<not> (c = CR \<and> e = LF) \<Longrightarrow> frames (c # e # s) = onto [c] (frames (e # s))"
  by (auto simp: onto_def split: prod.splits list.splits)

lemma frames_concat: "frames s = (fs, r) \<Longrightarrow> concat fs @ r = s"
proof (induction s arbitrary: fs r rule: frames.induct)
  case (3 c e s)
  show ?case
  proof (cases "c = CR \<and> e = LF")
    case True
    with 3 show ?thesis by (auto split: prod.splits)
  next
    case False
    obtain gs q where g: "frames (e # s) = (gs, q)" by fastforce
    from 3(2) [OF False g] 3(3) g show ?thesis
      unfolding frames_Cons2 [OF False] by (cases gs) (auto simp: onto_def)
  qed
qed auto

lemma frames_all: "frames s = ([], r) \<Longrightarrow> r = s"
  using frames_concat [of s "[]" r] by simp

lemma frames_rest: "frames s = (fs, r) \<Longrightarrow> frames r = ([], r)"
proof (induction s arbitrary: fs r rule: frames.induct)
  case (3 c e s)
  show ?case
  proof (cases "c = CR \<and> e = LF")
    case True
    with 3 show ?thesis by (auto split: prod.splits)
  next
    case False
    obtain gs q where g: "frames (e # s) = (gs, q)" by fastforce
    show ?thesis
    proof (cases gs)
      case Nil
      with g 3(3) have "r = c # e # s" "fs = []"
        unfolding frames_Cons2 [OF False] by (auto simp: onto_def dest: frames_all)
      with 3(3) show ?thesis by simp
    next
      case (Cons m ms)
      with g 3(3) have "r = q" unfolding frames_Cons2 [OF False] by (auto simp: onto_def)
      with 3(2) [OF False g] show ?thesis by simp
    qed
  qed
qed auto

lemma frames_append:
  "frames s = (fs, r) \<Longrightarrow> frames (s @ d) = (fs @ fst (frames (r @ d)), snd (frames (r @ d)))"
proof (induction s arbitrary: fs r rule: frames.induct)
  case (3 c e s)
  show ?case
  proof (cases "c = CR \<and> e = LF")
    case True
    with 3 show ?thesis by (auto split: prod.splits)
  next
    case False
    obtain gs q where g: "frames (e # s) = (gs, q)" by fastforce
    show ?thesis
    proof (cases gs)
      case Nil
      with g 3(3) have "r = c # e # s" "fs = []"
        unfolding frames_Cons2 [OF False] by (auto simp: onto_def dest: frames_all)
      then show ?thesis by simp
    next
      case (Cons m ms)
      with g 3(3) have "r = q" "fs = (c # m) # ms"
        unfolding frames_Cons2 [OF False] by (auto simp: onto_def)
      with 3(2) [OF False g] Cons show ?thesis
        by (simp only: append_Cons frames_Cons2 [OF False]) (simp add: onto_def)
    qed
  qed
qed auto

lemma frames_none:
  "fst (frames s) = [] \<Longrightarrow> j + 1 < length s \<Longrightarrow> \<not> sep_at s j"
proof (induction s arbitrary: j rule: frames.induct)
  case (3 c e s)
  then show ?case by (cases j) (auto simp: sep_at_def split: if_splits prod.splits list.splits)
qed auto

lemma frames_onto:
  "i + 1 < length b \<or> i = 0 \<Longrightarrow> \<forall>j < i. \<not> sep_at b j \<Longrightarrow> onto (take i b) (frames (drop i b)) = frames b"
proof (induction i)
  case (Suc i)
  then have "frames (drop i b) = onto [b ! i] (frames (drop (Suc i) b))"
    using frames_step [of i b] by simp
  with Suc show ?case by (simp add: take_Suc_conv_app_nth)
qed simp

text \<open>The loop after a separator has been found at \<open>i\<close>: the next position is skipped.\<close>

lemma split_loop_LF:
  assumes "i + 1 < length b" and "sep_at b i"
  shows "split_loop f b (i + 1) k True st = split_loop f b (i + 2) k True st"
proof (cases "i + 2 < length b")
  case True
  moreover have "\<not> sep_at b (i + 1)" using assms(2) by (simp add: sep_at_def)
  ultimately show ?thesis by (subst split_loop.simps) (use True in \<open>auto simp: size_sep_def\<close>)
next
  case False
  with assms(1) have "\<not> i + 1 < length b - size_sep + 1" "\<not> i + 2 < length b - size_sep + 1"
    by (auto simp: size_sep_def)
  then show ?thesis by (simp only: split_loop.simps [of f b "i + 1"] split_loop.simps [of f b "i + 2"]) simp
qed

definition outcome :: "nat \<Rightarrow> bool \<Rightarrow> string list \<times> string \<Rightarrow> 's \<times> bool \<Rightarrow> nat option \<times> 's \<times> bool" where
  "outcome n flag x y = (if snd y then (Some 0, fst y, True)
     else (if flag \<or> fst x \<noteq> [] then Some (n - length (snd x)) else None, fst y, False))"

lemma split_loop_frames:
  assumes "2 \<le> length b"
  shows "k \<le> i \<Longrightarrow> i \<le> length b \<Longrightarrow>
    split_loop f b i k flag st =
      (let x = onto (take (i - k) (drop k b)) (frames (drop i b))
       in outcome (length b) flag x (run_frames f (fst x) st))"
proof (induction "length b - i" arbitrary: i k flag st rule: less_induct)
  case less
  let ?p = "take (i - k) (drop k b)"
  consider (stop) "\<not> i + 1 < length b" | (sep) "i + 1 < length b" "sep_at b i"
    | (other) "i + 1 < length b" "\<not> sep_at b i" by blast
  then show ?case
  proof cases
    case stop
    have "?p @ drop i b = drop k b"
      using less.prems append_take_drop_id [of "i - k" "drop k b"] by simp
    with stop assms less.prems show ?thesis
      by (subst split_loop.simps)
         (auto simp: frames_short onto_def outcome_def size_sep_def)
  next
    case sep
    have m: "take (i + 2 - k) (drop k b) = ?p @ [CR, LF]"
    proof -
      have "drop i b = CR # LF # drop (i + 2) b"
        using sep Cons_nth_drop_Suc [of i b] Cons_nth_drop_Suc [of "i + 1" b] by (simp add: sep_at_def)
      moreover have "i + 2 - k = (i - k) + 2" "drop (i - k) (drop k b) = drop i b" using less.prems by simp_all
      ultimately show ?thesis by (simp only: take_add) simp
    qed
    have IH: "split_loop f b (i + 1) (i + 2) True st' =
        outcome (length b) True (frames (drop (i + 2) b)) (run_frames f (fst (frames (drop (i + 2) b))) st')" for st'
      unfolding split_loop_LF [OF sep]
      using less.hyps [of "i + 2" "i + 2" True st'] sep less.prems by (simp add: Let_def diff_less_mono2)
    show ?thesis
      using sep m IH less.prems
      by (subst split_loop.simps)
         (auto simp: frames_sep onto_def outcome_def size_sep_def Let_def split: prod.splits)
  next
    case other
    have "take (i + 1 - k) (drop k b) = ?p @ [b ! i]"
      using other less.prems take_Suc_conv_app_nth [of "i - k" "drop k b"] by (simp add: Suc_diff_le)
    moreover have "split_loop f b i k flag st = split_loop f b (i + 1) k flag st"
      using other by (subst split_loop.simps) (auto simp: size_sep_def)
    ultimately show ?thesis
      using less.hyps [of "i + 1" k flag st] other less.prems by (simp add: frames_step)
  qed
qed

text \<open>
  The buffer holds no complete message. One block: the messages that are complete now are
  handed over in order; the rest is kept, unless a message closed the connection.
\<close>

lemma split_parse_frames:
  assumes "start = 0 \<or> start + 1 < length b" and "\<forall>j < start. \<not> sep_at b j"
  shows "split_parse f b 0 start st =
    outcome (length b) False (frames b) (run_frames f (fst (frames b)) st)"
proof (cases "length b < 2")
  case True
  then show ?thesis by (simp add: split_parse_def size_sep_def frames_short outcome_def)
next
  case False
  then have "split_loop f b start 0 False st =
      (let x = onto (take start b) (frames (drop start b))
       in outcome (length b) False x (run_frames f (fst x) st))"
    using split_loop_frames [of b 0 start f False st] assms(1) by auto
  moreover have "onto (take start b) (frames (drop start b)) = frames b"
    using frames_onto [of start b] assms by auto
  ultimately show ?thesis using False by (simp add: split_parse_def size_sep_def Let_def)
qed

lemma splitter_block:
  assumes "frames buf = ([], buf)"
  shows "splitter f buf d st =
    (case frames (buf @ d) of (fs, r) \<Rightarrow> case run_frames f fs st of (st, clear_flag) \<Rightarrow>
       (if clear_flag then [] else r, st))"
proof -
  obtain fs r where fr: "frames (buf @ d) = (fs, r)" by fastforce
  have r: "buf @ d = concat fs @ r" using frames_concat [OF fr] by simp
  have none: "fs = [] \<Longrightarrow> r = buf @ d" using fr by (auto dest: frames_all)
  obtain st' cl where run: "run_frames f fs st = (st', cl)" by fastforce
  let ?b = "buf @ d"
  have rest: "drop (length ?b - length r) ?b = r" "length ?b - length r = length ?b \<longleftrightarrow> r = []"
    unfolding r by (cases r; simp)+
  show ?thesis
  proof (cases "buf = []")
    case True
    with split_parse_frames [of 0 d f st] fr run rest none show ?thesis
      by (auto simp: splitter_def outcome_def)
  next
    case False
    let ?start = "if length buf > size_sep then length buf - size_sep else 0"
    have "\<not> sep_at ?b j" if "j < ?start" for j
      using frames_none [of buf j] assms that by (auto simp: sep_at_def nth_append size_sep_def split: if_splits)
    then have "split_parse f ?b 0 ?start st = outcome (length ?b) False (frames ?b) (run_frames f (fst (frames ?b)) st)"
      by (intro split_parse_frames) (auto simp: size_sep_def)
    with False fr run rest none show ?thesis
      by (auto simp: splitter_def Let_def outcome_def)
  qed
qed

lemma read_stream_frames:
  "frames buf = ([], buf) \<Longrightarrow>
     read_stream (\<lambda>m st. (g m st, False)) buf ds st =
       (snd (frames (buf @ concat ds)), fold g (fst (frames (buf @ concat ds))) st)"
proof (induction ds arbitrary: buf st)
  case (Cons d ds)
  obtain fs r where fr: "frames (buf @ d) = (fs, r)" by fastforce
  have run: "run_frames (\<lambda>m st. (g m st, False)) fs st = (fold g fs st, False)"
    by (induction fs arbitrary: st) auto
  from Cons.IH [OF frames_rest [OF fr]] frames_append [OF fr, of "concat ds"] run fr show ?case
    by (simp add: splitter_block [OF Cons.prems])
qed simp

lemma run_frames_append:
  "run_frames f (xs @ ys) st = (case run_frames f xs st of (st, clear_flag) \<Rightarrow>
     if clear_flag then (st, True) else run_frames f ys st)"
  by (induction xs arbitrary: st) (auto split: prod.splits)

text \<open>
  C13. The splitter does not depend on how the network cuts the stream: for every sequence of
  blocks the messages handed over are exactly those of the whole stream, each once and in
  order, and the buffer holds exactly what follows the last one.
\<close>

theorem splitter_stream:
  "read_stream (\<lambda>m st. (g m st, False)) [] blocks st =
     (snd (frames (concat blocks)), fold g (fst (frames (concat blocks))) st)"
  using read_stream_frames [of "[]" g blocks st] by simp

lemma frames_message:
  "fst (frames (m @ [CR])) = [] \<Longrightarrow> frames (rn_write m @ s) = (rn_write m # fst (frames s), snd (frames s))"
proof (induction m rule: frames.induct)
  case (3 c e m)
  then have ne: "\<not> (c = CR \<and> e = LF)" by (auto split: prod.splits)
  then have "frames (c # e # m @ [CR]) = onto [c] (frames (e # m @ [CR]))" by (rule frames_Cons2)
  with 3(3) have "fst (frames ((e # m) @ [CR])) = []" by (auto simp: onto_def split: prod.splits list.splits)
  from 3(2) [OF ne this] show ?case
    unfolding rn_write_def append_Cons frames_Cons2 [OF ne] by (simp add: onto_def)
qed (auto simp: rn_write_def onto_def split: prod.splits if_splits list.splits)

lemma frames_messages:
  "\<forall>m \<in> set ms. fst (frames (m @ [CR])) = [] \<Longrightarrow> frames (concat (map rn_write ms)) = (map rn_write ms, [])"
  by (induction ms) (simp_all add: frames_message)

text \<open>
  Messages survive the trip over the wire: whatever is written with \<open>ad_rn_writer\<close>, message
  by message, and arrives cut into any blocks, is handed over message by message, as long
  as no message contains the separator itself.
\<close>

lemma framing_roundtrip:
  assumes "\<forall>m \<in> set ms. fst (frames (m @ [CR])) = []" and "concat blocks = concat (map rn_write ms)"
  shows "read_stream (\<lambda>m st. (st @ [m], False)) [] blocks [] = ([], map rn_write ms)"
proof -
  have "fold (\<lambda>m st. st @ [m]) xs ys = ys @ xs" for xs ys :: "string list"
    by (induction xs arbitrary: ys) auto
  then show ?thesis
    using read_stream_frames [of "[]" "\<lambda>m st. st @ [m]" blocks "[]"] frames_messages [OF assms(1)]
    by (simp add: assms(2))
qed

end
