(* ===== verification/Multiserver.thy ===== *)
theory Multiserver
  imports Rpc_Laws Framing
begin

text \<open>
  The multi-threaded server of \<open>common/multiserver.hpp\<close> and \<open>common/multiserver_hlp.hpp\<close>: a
  connection reads a message into a \<open>json_rpc_req\<close> (\<open>ad_invoke_first\<close>) and puts it into the
  queue of the pool that serves its method; a thread of the pool takes it out and runs the
  method (\<open>threadproc\<close>). \<open>server_tcp::init\<close> of \<open>src/daemon.cpp\<close> sets up the pools, and
  \<open>common/aspect/json_aspect.hpp\<close> answers errors. Here the steps run one after the other;
  the life of a request object under concurrency is the subject of \<open>Request_Life\<close>.
\<close>

section \<open>json_rpc_req\<close>

record json_rpc_req =
  jq_jsonrpc :: string
  jq_method :: string
  jq_id :: int
  jq_params :: string
  jq_result :: string

text \<open>The constructor leaves \<open>jsonrpc\<close> as the memory was: \<open>junk\<close>.\<close>

definition json_rpc_req_init :: "string \<Rightarrow> json_rpc_req" where
  "json_rpc_req_init junk =
     \<lparr>jq_jsonrpc = junk, jq_method = [], jq_id = -1, jq_params = [], jq_result = []\<rparr>"

definition json_rpc_req_members :: "json_rpc_req json_member list" where
  "json_rpc_req_members =
     [member_of ''jsonrpc'' (char_array_codec 8) jq_jsonrpc (\<lambda>v t. t\<lparr>jq_jsonrpc := v\<rparr>),
      member_of ''method'' string_codec jq_method (\<lambda>v t. t\<lparr>jq_method := v\<rparr>),
      member_of ''id'' (integer_codec c_long_long) jq_id (\<lambda>v t. t\<lparr>jq_id := v\<rparr>),
      member_of ''params'' raw_codec jq_params (\<lambda>v t. t\<lparr>jq_params := v\<rparr>),
      member_of ''result'' raw_codec jq_result (\<lambda>v t. t\<lparr>jq_result := v\<rparr>)]"

definition json_rpc_req_json :: "string \<Rightarrow> json_rpc_req codec" where
  "json_rpc_req_json junk = object_codec json_rpc_req_members (json_rpc_req_init junk)"

section \<open>The pools\<close>

record server =
  srvmain_threads :: int
  method2thread :: "string \<rightharpoonup> int"
  thread_count :: "int list"
  queues :: "json_rpc_req list list"

definition server_init :: server where
  "server_init = \<lparr>srvmain_threads = 1, method2thread = Map.empty, thread_count = [], queues = []\<rparr>"

definition server_tcp_init :: "int \<Rightarrow> server \<Rightarrow> server" where
  "server_tcp_init threads s =
     (let n0 = (if threads \<ge> 8 then 2 else 1);
          n1 = max 1 ((threads - n0) sdiv 2);
          n2 = max 1 (threads - n0 - n1)
      in s\<lparr>srvmain_threads := n0,
           method2thread := (method2thread s)(''set'' \<mapsto> 1, ''set_range'' \<mapsto> 1, ''inc_add'' \<mapsto> 1,
             ''inc'' \<mapsto> 1, ''update_packed'' \<mapsto> 1),
           thread_count := [n2, n1]\<rparr>)"

text \<open>\<open>spawn_threads\<close>: the queues, and which pool each background thread serves.\<close>

definition spawn_queues :: "server \<Rightarrow> server" where
  "spawn_queues s = s\<lparr>queues := take (length (thread_count s))
     (queues s @ replicate (length (thread_count s) - length (queues s)) [])\<rparr>"

definition spawned :: "server \<Rightarrow> nat list" where
  "spawned s = concat (map (\<lambda>num. replicate (nat (thread_count s ! num)) num) [0..<length (thread_count s)])"

definition get_thread_number :: "server \<Rightarrow> string \<Rightarrow> int" where
  "get_thread_number s m = (case method2thread s m of None \<Rightarrow> 0 | Some n \<Rightarrow> n)"

definition push_queue :: "json_rpc_req \<Rightarrow> server \<Rightarrow> server res" where
  "push_queue req s =
     (let num = get_thread_number s (jq_method req)
      in if 0 \<le> num \<and> num < int (length (queues s))
         then Inr (s\<lparr>queues := (queues s)[nat num := queues s ! nat num @ [req]]\<rparr>)
         else Inl Out_of_bounds)"

definition try_pop :: "nat \<Rightarrow> server \<Rightarrow> json_rpc_req option \<times> server" where
  "try_pop num s = (case queues s ! num of
     [] \<Rightarrow> (None, s)
   | req # q \<Rightarrow> (Some req, s\<lparr>queues := (queues s)[num := q]\<rparr>))"

section \<open>A message arrives\<close>

definition ad_invoke_first ::
  "string \<Rightarrow> string \<Rightarrow> server \<Rightarrow> 'w rpc \<Rightarrow> (server, 'w) rpc_result" where
  "ad_invoke_first junk d s c =
     (case unser (json_rpc_req_json junk) (json_rpc_req_init junk) d of
        Inl e \<Rightarrow> if e = Out_of_bounds then Inl (e, c) else Inr (s, event (Invalid_json_event d) c)
      | Inr (req, _) \<Rightarrow> (case push_queue req s of Inl e \<Rightarrow> Inl (e, c) | Inr s \<Rightarrow> Inr (s, c)))"

section \<open>A method runs\<close>

text \<open>\<open>fill_map\<close>: the number of each method name; of two equal names the later one counts.\<close>

fun fill_map :: "(string \<rightharpoonup> int) \<Rightarrow> string list \<Rightarrow> int \<Rightarrow> (string \<rightharpoonup> int)" where
  "fill_map m [] v = m"
| "fill_map m (n # ns) v = fill_map (m(n \<mapsto> v)) ns (v + 1)"

text \<open>A method as the background threads see it. The id has become an \<open>int\<close>.\<close>

record 'w mmeth =
  mm_name :: string
  mm_request :: "int \<Rightarrow> string \<Rightarrow> 'w rpc \<Rightarrow> (unit, 'w) rpc_result"
  mm_notify :: "string \<Rightarrow> 'w rpc \<Rightarrow> (unit, 'w) rpc_result"
  mm_has_id :: "int \<Rightarrow> bool"

definition method2num :: "'w mmeth list \<Rightarrow> (string \<rightharpoonup> int)" where
  "method2num ms = fill_map Map.empty (map mm_name ms) 0"

definition get_method_number :: "'w mmeth list \<Rightarrow> string \<Rightarrow> int" where
  "get_method_number ms m = (case method2num ms m of None \<Rightarrow> -1 | Some n \<Rightarrow> n)"

definition invoke_requester ::
  "'p codec \<Rightarrow> 'p \<Rightarrow> 'r codec \<Rightarrow> 'r \<Rightarrow> ('p, 'r, 'w) handler \<Rightarrow> int \<Rightarrow> string \<Rightarrow> 'w rpc \<Rightarrow>
    (unit, 'w) rpc_result" where
  "invoke_requester J p0 R r0 f i params c =
     (case unser J p0 params of
        Inl e \<Rightarrow> if e = Out_of_bounds then Inl (e, c) else Inr ((), event (Invalid_json_event params) c)
      | Inr (req, _) \<Rightarrow> bindE (f req i c) (\<lambda>((ok, res), c).
          Inr ((), if ok then invoker_response R r0 res i c else c)))"

definition invoke_notifier ::
  "'p codec \<Rightarrow> 'p \<Rightarrow> ('p \<Rightarrow> 'w rpc \<Rightarrow> (unit, 'w) rpc_result) \<Rightarrow> string \<Rightarrow> 'w rpc \<Rightarrow>
    (unit, 'w) rpc_result" where
  "invoke_notifier J p0 f params c =
     (case unser J p0 params of
        Inl e \<Rightarrow> if e = Out_of_bounds then Inl (e, c) else Inr ((), event (Invalid_json_event params) c)
      | Inr (req, _) \<Rightarrow> f req c)"

text \<open>The specialisations for methods that declare no request or no notification.\<close>

definition no_execute :: "'w rpc \<Rightarrow> (unit, 'w) rpc_result" where
  "no_execute c = Inr ((), c)"

fun run_method_request :: "int \<Rightarrow> 'w mmeth list \<Rightarrow> json_rpc_req \<Rightarrow> 'w rpc \<Rightarrow> (unit, 'w) rpc_result" where
  "run_method_request num [] req c = Inr ((), event (Unknown_method_event (jq_params req)) c)"
| "run_method_request num (m # ms) req c =
     (if num \<noteq> 0 then run_method_request (num - 1) ms req c
      else if jq_id req \<ge> 0 then mm_request m (wrap c_int (jq_id req)) (jq_params req) c
      else mm_notify m (jq_params req) c)"

fun run_method_call :: "'w mmeth list \<Rightarrow> json_rpc_req \<Rightarrow> 'w rpc \<Rightarrow> (unit, 'w) rpc_result" where
  "run_method_call [] req c = Inr ((), event (Lost_result_event (jq_params req)) c)"
| "run_method_call (m # ms) req c =
     (if mm_has_id m (wrap c_int (jq_id req)) then Inr ((), c) else run_method_call ms req c)"

text \<open>The body of the loop of \<open>threadproc\<close> for a request whose client is still connected.\<close>

definition thread_request :: "'w mmeth list \<Rightarrow> json_rpc_req \<Rightarrow> 'w rpc \<Rightarrow> (unit, 'w) rpc_result" where
  "thread_request ms req c =
     (if length (jq_result req) = 0
      then let method_id = (if length (jq_method req) \<noteq> 0 then get_method_number ms (jq_method req) else -1)
           in run_method_request method_id ms req c
      else run_method_call ms req c)"

text \<open>How long a thread sleeps, in microseconds, when its queue is empty, and after a request.\<close>

definition idle_time :: "int \<Rightarrow> int" where
  "idle_time t = (if t < 1000 then t * 2 + 10 else t)"

definition busy_time :: "int \<Rightarrow> int" where
  "busy_time t = max 1 (t sdiv 3)"

lemma thread_sleep_bounded:
  "1 \<le> t \<Longrightarrow> t \<le> 2008 \<Longrightarrow> 1 \<le> idle_time t \<and> idle_time t \<le> 2008 \<and> 1 \<le> busy_time t \<and> busy_time t \<le> 2008"
  by (auto simp: idle_time_def busy_time_def signed_divide_int_def)

section \<open>Errors\<close>

text \<open>\<open>ad_json_error\<close>: the text it sends, of at most 254 characters.\<close>

definition json_error :: "int \<Rightarrow> string \<Rightarrow> string" where
  "json_error code txt = take 254
     (CHR ''{'' # DQ # ''jsonrpc'' @ DQ # '': '' @ DQ # ''2.0'' @ DQ # '', '' @ DQ # ''error'' @ DQ #
      '': {'' @ DQ # ''code'' @ DQ # '': '' @ decimal code @ '', '' @ DQ # ''message'' @ DQ # '': '' @
      DQ # txt @ ''.'' @ DQ # ''}, '' @ DQ # ''id'' @ DQ # '': null}'')"

definition ad_invalid_json :: string where
  "ad_invalid_json = json_error (-32600) ''Invalid JSON-RPC.''"

definition ad_unknown_method :: string where
  "ad_unknown_method = json_error (-32601) ''Procedure not found.''"

section \<open>Reading a request\<close>

lemma member_text_name:
  assumes "plain_name n" and "v \<noteq> []" and "starts_value (hd v)"
  shows "unserialize_member_name n (member_text_of n v @ r) = Inr (v @ r, True)"
  using unserialize_member_name_same [OF assms, of r] by (simp add: member_text_of_def)

text \<open>One member that is the expected one, followed by another member or by the end.\<close>

lemma read_next:
  assumes "plain_name (m_name M)" and "v \<noteq> []" and "starts_value (hd v)"
    and "m_unser M t (v @ CHR '','' # DQ # w) = Inr (t', CHR '','' # DQ # w)"
    and "unserialize_members n L t' (DQ # w) R = Inr (t'', CHR ''}'' # rest)"
  shows "unserialize_members (Suc n) L t (member_text_of (m_name M) v @ CHR '','' # DQ # w) (M # R) =
           Inr (t'', CHR ''}'' # rest)"
  using member_text_name [OF assms(1-3)] assms(4,5)
  by (simp add: unserialize_member_def is_space_def)

lemma read_end:
  assumes "plain_name (m_name M)" and "v \<noteq> []" and "starts_value (hd v)"
    and "m_unser M t (v @ CHR ''}'' # rest) = Inr (t', CHR ''}'' # rest)"
  shows "unserialize_members (Suc n) L t (member_text_of (m_name M) v @ CHR ''}'' # rest) (M # R) =
           Inr (t', CHR ''}'' # rest)"
  using member_text_name [OF assms(1-3)] assms(4)
  by (simp add: unserialize_member_def is_space_def)

lemma unser_object:
  assumes "unserialize_members (Suc (length (DQ # w))) L t (DQ # w) L = Inr (t', CHR ''}'' # rest)"
  shows "unser (object_codec L t0) t (CHR ''{'' # DQ # w) = Inr (t', rest)"
  using assms
  by (simp add: object_codec_def is_null_def unserialize_object_def is_space_def
      del: unserialize_members.simps)

lemma fits_int_ll: "fits c_int i \<Longrightarrow> fits c_long_long i"
  by (auto simp: fits_def c_int_def c_long_long_def bits_of_def)

lemma ll_roundtrip:
  assumes "fits c_long_long i" and "delim r"
  shows "unser (integer_codec c_long_long) v (decimal i @ r) = Inr (i, r)"
  using json_codec.roundtrip [OF integer_codec_contract, of c_long_long i r v] assms
  by (simp add: integer_codec_def serialize_integer_decimal)

lemma decimal_value: "decimal i \<noteq> [] \<and> starts_value (hd (decimal i))"
  using decimal_starts [of i] by (auto intro: digit_starts_value)

lemma wire_string:
  assumes "list_all wire_char name"
  shows "unser string_codec v (DQ # name @ DQ # r) = Inr (name, r)"
proof -
  have "text_ok name"
    using wire_chars(1,2) [OF assms] by (simp add: text_ok_def ascii_utf8 plain_name_def)
  then have "unser string_codec v (ser string_codec name @ r) = Inr (name, r)"
    by (simp add: string_codec_def serialize_string_def text_ok_def std_escape.quoted_roundtrip)
  then show ?thesis by (simp add: string_codec_def serialize_string_def wire_chars(3) [OF assms])
qed

text \<open>The text of a request, with an id of any width.\<close>

definition request_line :: "string \<Rightarrow> int \<Rightarrow> string \<Rightarrow> string" where
  "request_line name i params =
     CHR ''{'' # version_text @ CHR '','' # member_text_of ''method'' (DQ # name @ [DQ]) @ CHR '','' #
       member_text_of ''id'' (decimal i) @ CHR '','' # member_text_of ''params'' params @ ''}''"

definition request_of :: "string \<Rightarrow> int \<Rightarrow> string \<Rightarrow> json_rpc_req" where
  "request_of name i params =
     \<lparr>jq_jsonrpc = cells 8 ''2.0'', jq_method = name, jq_id = i, jq_params = params, jq_result = []\<rparr>"

lemma version_value:
  "unser (char_array_codec 8) v (DQ # ''2.0'' @ DQ # r) = Inr (cells 8 ''2.0'', r)"
  using cells_roundtrip [OF cells_version(1), of v r] by (simp add: cells_version(2))

lemma read_request_line:
  assumes "wire_name name" and "fits c_long_long i" and "params \<noteq> []" and "starts_value (hd params)"
    and "parse_value (params @ CHR ''}'' # rest) = Inr (CHR ''}'' # rest)"
  shows "unser (json_rpc_req_json junk) (json_rpc_req_init junk) (request_line name i params @ rest) =
           Inr (request_of name i params, rest)"
proof -
  let ?L = json_rpc_req_members
  let ?M = "\<lambda>k. ?L ! k"
  let ?t0 = "json_rpc_req_init junk"
  let ?t1 = "?t0\<lparr>jq_jsonrpc := cells 8 ''2.0''\<rparr>"
  let ?t2 = "?t1\<lparr>jq_method := name\<rparr>"
  let ?t3 = "?t2\<lparr>jq_id := i\<rparr>"
  let ?params = "member_text_of ''params'' params @ CHR ''}'' # rest"
  let ?id = "member_text_of ''id'' (decimal i) @ CHR '','' # ?params"
  let ?meth = "member_text_of ''method'' (DQ # name @ [DQ]) @ CHR '','' # ?id"
  have names: "plain_name ''jsonrpc''" "plain_name ''method''" "plain_name ''id''" "plain_name ''params''"
    by (simp_all add: plain_name_def)
  have L: "?L = [?M 0, ?M 1, ?M 2, ?M 3, ?M 4]" by (simp add: json_rpc_req_members_def)
  have 4: "unserialize_members (Suc n) ?L ?t3 ?params [?M 3, ?M 4] = Inr (request_of name i params, CHR ''}'' # rest)" for n
    using read_end [of "?M 3" params ?t3 rest] assms(3-5) names
    by (simp add: json_rpc_req_members_def raw_codec_def request_of_def json_rpc_req_init_def del: unserialize_members.simps)
  obtain w4 where w4: "?params = DQ # w4" by (simp add: member_text_of_def)
  have 3: "unserialize_members (Suc (Suc n)) ?L ?t2 ?id [?M 2, ?M 3, ?M 4] = Inr (request_of name i params, CHR ''}'' # rest)" for n
    using read_next [of "?M 2" "decimal i" ?t2 w4 ?t3] 4 [of n] decimal_value [of i] names
      ll_roundtrip [OF assms(2), of "CHR '','' # DQ # w4"] unfolding w4
    by (simp add: json_rpc_req_members_def del: unserialize_members.simps)
  obtain w3 where w3: "?id = DQ # w3" by (simp add: member_text_of_def)
  have wire: "list_all wire_char name" using assms(1) by (simp add: wire_name_def)
  have 2: "unserialize_members (Suc (Suc (Suc n))) ?L ?t1 ?meth [?M 1, ?M 2, ?M 3, ?M 4] = Inr (request_of name i params, CHR ''}'' # rest)" for n
    using read_next [of "?M 1" "DQ # name @ [DQ]" ?t1 w3 ?t2] 3 [of n] names
      wire_string [OF wire, of _ "CHR '','' # DQ # w3"] unfolding w3
    by (simp add: json_rpc_req_members_def del: unserialize_members.simps)
  obtain w2 where w2: "?meth = DQ # w2" by (simp add: member_text_of_def)
  have 1: "unserialize_members (Suc (Suc (Suc (Suc n)))) ?L ?t0 (version_text @ CHR '','' # ?meth) ?L = Inr (request_of name i params, CHR ''}'' # rest)" for n
    using read_next [of "?M 0" "DQ # ''2.0'' @ [DQ]" ?t0 w2 ?t1] 2 [of n] names
      version_value [of _ "CHR '','' # DQ # w2"] unfolding w2 version_text_def
    by (subst (2) L) (simp add: json_rpc_req_members_def del: unserialize_members.simps)
  obtain w1 where w1: "version_text @ CHR '','' # ?meth = DQ # w1" "3 < length w1"
    by (simp add: member_text_of_def version_text_def)
  obtain n where "Suc (length (DQ # w1)) = Suc (Suc (Suc (Suc n)))" using w1(2)
    by (metis Suc_lessE length_Cons numeral_3_eq_3)
  with 1 [of n] unser_object [of w1 ?L ?t0 _ rest ?t0] show ?thesis
    unfolding json_rpc_req_json_def by (simp add: request_line_def w1(1) del: unserialize_members.simps)
qed

section \<open>Finding the method\<close>

lemma fill_map_other: "n \<notin> set ns \<Longrightarrow> fill_map m ns v n = m n"
  by (induction m ns v rule: fill_map.induct) auto

lemma fill_map_number:
  "n \<in> set ns \<Longrightarrow> \<exists>j < length ns. ns ! j = n \<and> fill_map m ns v n = Some (v + int j)"
proof (induction m ns v rule: fill_map.induct)
  case (2 m n' ns v)
  show ?case
  proof (cases "n \<in> set ns")
    case True
    from 2(1) [OF this] obtain j where "j < length ns" "ns ! j = n"
      "fill_map (m(n' \<mapsto> v)) ns (v + 1) n = Some (v + 1 + int j)" by blast
    then show ?thesis by (intro exI [of _ "Suc j"]) simp
  next
    case False
    with 2(2) show ?thesis by (intro exI [of _ 0]) (simp add: fill_map_other)
  qed
qed simp

lemma method_number:
  assumes "name \<in> mm_name ` set ms"
  obtains j where "j < length ms" "mm_name (ms ! j) = name" "get_method_number ms name = int j"
proof -
  from assms have "name \<in> set (map mm_name ms)" by auto
  from fill_map_number [OF this, of Map.empty 0] that show thesis
    by (auto simp: get_method_number_def method2num_def)
qed

lemma method_number_unknown: "name \<notin> mm_name ` set ms \<Longrightarrow> get_method_number ms name = -1"
  using fill_map_other [of name "map mm_name ms" Map.empty 0]
  by (simp add: get_method_number_def method2num_def)

lemma run_method_nth:
  "j < length ms \<Longrightarrow> run_method_request (int j) ms req c =
     (if jq_id req \<ge> 0 then mm_request (ms ! j) (wrap c_int (jq_id req)) (jq_params req) c
      else mm_notify (ms ! j) (jq_params req) c)"
proof (induction ms arbitrary: j)
  case (Cons m ms)
  then show ?case by (cases j) auto
qed simp

lemma run_method_unknown:
  "num < 0 \<Longrightarrow> run_method_request num ms req c = Inr ((), event (Unknown_method_event (jq_params req)) c)"
  by (induction ms arbitrary: num) auto

section \<open>From the wire to the handler\<close>

lemma request_rpc_line:
  "wire_name name \<Longrightarrow> fits c_int i \<Longrightarrow>
     ser (request_rpc J p0) (request_msg name p0 i p) = request_line name i (ser J p)"
  by (simp add: request_bytes request_line_def)

text \<open>
  A request read from a connection is put into the queue of its pool, and the thread that
  takes it out runs the handler of the named method with exactly the parameters that were
  written, and answers with the id of the request (as an \<open>int\<close>); this holds for every
  request whose parameters the parser accepts.
\<close>

lemma queued_request_runs_handler:
  assumes "json_text J okp p0" and "okp p" and "wire_name name" and "name \<noteq> []"
    and "fits c_long_long i" and "0 \<le> i"
    and "parse_value (ser J p @ CHR ''}'' # rest) = Inr (CHR ''}'' # rest)"
    and "name \<in> mm_name ` set ms"
    and "\<forall>m \<in> set ms. mm_name m = name \<longrightarrow> mm_request m = invoke_requester J p0 R r0 f"
  shows "ad_invoke_first junk (request_line name i (ser J p) @ rest) s c =
           (case push_queue (request_of name i (ser J p)) s of Inl e \<Rightarrow> Inl (e, c) | Inr s \<Rightarrow> Inr (s, c)) \<and>
         thread_request ms (request_of name i (ser J p)) c =
           bindE (f p (wrap c_int i) c) (\<lambda>((ok, res), c).
             Inr ((), if ok then invoker_response R r0 res (wrap c_int i) c else c))"
proof (rule conjI)
  note codec = json_text.axioms(1) [OF assms(1)]
  have start: "ser J p \<noteq> []" "starts_value (hd (ser J p))"
    using json_codec.ser_start [OF codec assms(2)] by auto
  show "ad_invoke_first junk (request_line name i (ser J p) @ rest) s c =
           (case push_queue (request_of name i (ser J p)) s of Inl e \<Rightarrow> Inl (e, c) | Inr s \<Rightarrow> Inr (s, c))"
    by (simp add: ad_invoke_first_def read_request_line [OF assms(3,5) start assms(7)])
  obtain j where j: "j < length ms" "mm_name (ms ! j) = name" "get_method_number ms name = int j"
    using method_number [OF assms(8)] .
  then have "mm_request (ms ! j) = invoke_requester J p0 R r0 f" using assms(9) by simp
  moreover have "unser J p0 (ser J p) = Inr (p, [])"
    using json_codec.roundtrip [OF codec assms(2), of "[]"] by simp
  ultimately show "thread_request ms (request_of name i (ser J p)) c =
           bindE (f p (wrap c_int i) c) (\<lambda>((ok, res), c).
             Inr ((), if ok then invoker_response R r0 res (wrap c_int i) c else c))"
    using j assms(4,6)
    by (simp add: thread_request_def request_of_def run_method_nth invoke_requester_def)
qed

text \<open>A handler that keeps its parameters, as the method \<open>set\<close>.\<close>

definition keep_method :: "valmap2str mmeth" where
  "keep_method = \<lparr>mm_name = ''set'',
     mm_request = invoke_requester valmap2str_json [] valmap2bool_json [] keep_params,
     mm_notify = (\<lambda>_. no_execute), mm_has_id = (\<lambda>_. False)\<rparr>"

text \<open>
  The id of a request is read as a \<open>long long\<close> and passed on as an \<open>int\<close>: a request with
  an id outside the range of \<open>int\<close> is executed, but its handler and its answer get another id.
\<close>

lemma wide_id_changed:
  assumes "fits c_long_long i" and "0 \<le> i" and "\<not> fits c_int i"
    and "j < length ms" and "get_method_number ms name = int j" and "name \<noteq> []"
  shows "thread_request ms (request_of name i params) c = mm_request (ms ! j) (wrap c_int i) params c \<and>
         wrap c_int i \<noteq> i"
  using assms wrap_c_int_fits [of i]
  by (auto simp: thread_request_def request_of_def run_method_nth)

text \<open>
  A value with a four-byte UTF-8 character cannot be stored: the daemon refuses the \<open>set\<close>
  request that its own serializer writes for it, as invalid JSON, and nothing is queued.
\<close>

lemma four_byte_value_refused:
  "let d = request_line ''set'' 1 (ser valmap2str_json [(''k'', [CHR 0xF0, CHR 0x9F, CHR 0x98, CHR 0x80])])
   in ad_invoke_first junk d s c = Inr (s, event (Invalid_json_event d) c)"
proof -
  let ?d = "request_line ''set'' 1 (ser valmap2str_json [(''k'', [CHR 0xF0, CHR 0x9F, CHR 0x98, CHR 0x80])])"
  have "unser (json_rpc_req_json junk) (json_rpc_req_init junk) ?d = Inl (Json Invalid_json_string 4)"
    by code_simp
  then show ?thesis by (simp add: ad_invoke_first_def)
qed

section \<open>Pools\<close>

lemma init_method2thread:
  "method2thread (spawn_queues (server_tcp_init n server_init)) m = Some k \<Longrightarrow> k = 1"
  by (auto simp: spawn_queues_def server_tcp_init_def server_init_def Let_def split: if_splits)

lemma init_pools:
  "length (queues (spawn_queues (server_tcp_init n server_init))) = 2"
  "thread_count (spawn_queues (server_tcp_init n server_init)) = thread_count (server_tcp_init n server_init)"
  by (simp_all add: spawn_queues_def server_tcp_init_def server_init_def Let_def)

text \<open>
  However many threads are asked for, every request has a queue, and the pool of every
  queue has a thread to serve it; from four threads on, exactly the requested number runs.
\<close>

lemma pools_ready:
  "let s = spawn_queues (server_tcp_init threads server_init); num = get_thread_number s m
   in 0 \<le> num \<and> num < int (length (queues s)) \<and> nat num \<in> set (spawned s) \<and>
      (4 \<le> threads \<longrightarrow> srvmain_threads s + int (length (spawned s)) = threads)"
proof -
  let ?s = "spawn_queues (server_tcp_init threads server_init)"
  define n0 n1 n2 where "n0 = (if threads \<ge> 8 then 2 else 1 :: int)"
    and "n1 = max 1 ((threads - n0) sdiv 2)" and "n2 = max 1 (threads - n0 - n1)"
  have tc: "thread_count ?s = [n2, n1]" "srvmain_threads ?s = n0"
    by (simp_all add: spawn_queues_def server_tcp_init_def Let_def n0_def n1_def n2_def)
  then have sp: "spawned ?s = replicate (nat n2) 0 @ replicate (nat n1) 1"
    by (simp add: spawned_def)
  have "0 < n1" "0 < n2" by (simp_all add: n1_def n2_def)
  moreover have "get_thread_number ?s m = 0 \<or> get_thread_number ?s m = 1"
    using init_method2thread [of threads m] by (auto simp: get_thread_number_def split: option.splits)
  moreover have "n0 + (n1 + n2) = threads" if "4 \<le> threads"
  proof -
    have "n0 \<le> 2" "1 \<le> n0" "n0 = 2 \<longrightarrow> 8 \<le> threads" by (simp_all add: n0_def)
    then have "2 \<le> threads - n0" using that by auto
    moreover from this have "(threads - n0) sdiv 2 = (threads - n0) div 2" by (simp add: signed_divide_int_def)
    ultimately show ?thesis unfolding n2_def n1_def by linarith
  qed
  ultimately show ?thesis using init_pools(1) [of threads] by (auto simp: Let_def sp tc)
qed

section \<open>A stream of requests\<close>

lemma push_queue_some:
  assumes "0 \<le> get_thread_number s (jq_method req)" and "get_thread_number s (jq_method req) < int (length (queues s))"
  shows "push_queue req s = Inr (s\<lparr>queues := (queues s)[nat (get_thread_number s (jq_method req)) :=
    queues s ! nat (get_thread_number s (jq_method req)) @ [req]]\<rparr>)"
  using assms by (simp add: push_queue_def Let_def)

lemma get_thread_number_queues [simp]: "get_thread_number (s\<lparr>queues := q\<rparr>) m = get_thread_number s m"
  by (simp add: get_thread_number_def)

text \<open>The requests of pool \<open>k\<close> among those of a stream.\<close>

definition for_pool :: "server \<Rightarrow> nat \<Rightarrow> json_rpc_req list \<Rightarrow> json_rpc_req list" where
  "for_pool s k reqs = filter (\<lambda>r. get_thread_number s (jq_method r) = int k) reqs"

definition pools_ok :: "server \<Rightarrow> bool" where
  "pools_ok s \<longleftrightarrow> (\<forall>m. 0 \<le> get_thread_number s m \<and> get_thread_number s m < int (length (queues s)))"

end
