(* ===== verification/Request_Life.thy ===== *)
theory Request_Life
  imports Locks
begin

text \<open>
  The life of the request objects of one connection under concurrency
  (\<open>common/multiserver.hpp\<close>). The connection's own thread creates a \<open>json_rpc_req\<close>, enters it
  into \<open>ad_invoke_first::requests\<close> and pushes it into a queue; when the connection closes, the
  same thread runs \<open>clear\<close>. Any number of background threads run \<open>threadproc\<close>: they pop a
  request, run its method, take it out of \<open>requests\<close> and delete it.

  Each access to the memory of a request or to a lock is a step of its own. A request is
  a number that is never used twice; \<open>alive\<close> are the objects that have been allocated and
  not deleted, \<open>client\<close> those whose pointer to the connection is not null. The sections that
  \<open>ad_invoke_first::mtx\<close> protects are one step each in \<open>operator()\<close> and \<open>delete_request\<close>, but
  \<open>clear\<close> reads and writes requests inside its section, so there \<open>conn_lock\<close> is kept.
\<close>

section \<open>The machine\<close>

datatype worker =
    W_idle
  | W_check nat
  | W_lock nat
  | W_recheck nat
  | W_run nat
  | W_clean nat
  | W_null nat
  | W_unlock nat
  | W_free nat

text \<open>
  The connection thread: between messages, after \<open>new\<close>, after the insertion, before round
  \<open>i\<close> of \<open>clear\<close>, inside the round (the requests not looked at yet and \<open>rnew\<close>), after
  \<open>try_lock\<close>, after \<open>client = 0\<close>, and at the end.
\<close>

datatype closer =
    C_read
  | C_new nat
  | C_pushing nat
  | C_round nat
  | C_iter nat "nat set" "nat set"
  | C_got nat nat "nat set" "nat set"
  | C_zero nat nat "nat set" "nat set"
  | C_closed

record life =
  alive :: "nat set"
  client :: "nat set"
  mtx :: "nat \<Rightarrow> bool"
  requests :: "nat set"
  conn_lock :: bool
  queue :: "nat list"
  fresh :: nat
  workers :: "nat \<Rightarrow> worker"
  closer :: closer

definition life_init :: life where
  "life_init = \<lparr>alive = {}, client = {}, mtx = (\<lambda>_. False), requests = {}, conn_lock = False,
     queue = [], fresh = 0, workers = (\<lambda>_. W_idle), closer = C_read\<rparr>"

definition go :: "nat \<Rightarrow> worker \<Rightarrow> life \<Rightarrow> life" where
  "go t p s = s\<lparr>workers := (workers s)(t := p)\<rparr>"

text \<open>\<open>operator()\<close> and \<open>clear\<close>, in the connection's thread.\<close>

inductive closer_step :: "life \<Rightarrow> life \<Rightarrow> bool" where
  New: "closer s = C_read \<Longrightarrow> closer_step s (s\<lparr>alive := insert (fresh s) (alive s),
     client := insert (fresh s) (client s), fresh := fresh s + 1, closer := C_new (fresh s)\<rparr>)"
| Delete: "closer s = C_new r \<Longrightarrow> closer_step s (s\<lparr>alive := alive s - {r}, closer := C_read\<rparr>)"
| Insert: "closer s = C_new r \<Longrightarrow> \<not> conn_lock s \<Longrightarrow>
     closer_step s (s\<lparr>requests := insert r (requests s), closer := C_pushing r\<rparr>)"
| Push: "closer s = C_pushing r \<Longrightarrow>
     closer_step s (s\<lparr>queue := queue s @ [r], closer := C_read\<rparr>)"
| Clear: "closer s = C_read \<Longrightarrow> closer_step s (s\<lparr>closer := C_round 0\<rparr>)"
| Round: "closer s = C_round i \<Longrightarrow> \<not> conn_lock s \<Longrightarrow>
     closer_step s (s\<lparr>conn_lock := True, closer := C_iter i (requests s) {}\<rparr>)"
| Try: "closer s = C_iter i todo rnew \<Longrightarrow> r \<in> todo \<Longrightarrow> try_lock (mtx s r) = (got, v) \<Longrightarrow>
     closer_step s (s\<lparr>mtx := (mtx s)(r := v),
       closer := if got then C_got i r (todo - {r}) rnew else C_iter i (todo - {r}) (insert r rnew)\<rparr>)"
| Zero: "closer s = C_got i r todo rnew \<Longrightarrow>
     closer_step s (s\<lparr>client := client s - {r}, closer := C_zero i r todo rnew\<rparr>)"
| Unlock: "closer s = C_zero i r todo rnew \<Longrightarrow>
     closer_step s (s\<lparr>mtx := (mtx s)(r := unlock (mtx s r)), closer := C_iter i todo rnew\<rparr>)"
| Swap: "closer s = C_iter i {} rnew \<Longrightarrow>
     closer_step s (s\<lparr>requests := rnew, conn_lock := False,
       closer := if rnew = {} \<or> i + 1 = 3 then C_closed else C_round (i + 1)\<rparr>)"

text \<open>One thread of \<open>threadproc\<close>.\<close>

inductive worker_step :: "nat \<Rightarrow> life \<Rightarrow> life \<Rightarrow> bool" for t where
  Pop: "workers s t = W_idle \<Longrightarrow> queue s = r # q \<Longrightarrow> worker_step t s (go t (W_check r) (s\<lparr>queue := q\<rparr>))"
| Check: "workers s t = W_check r \<Longrightarrow>
     worker_step t s (go t (if r \<in> client s then W_lock r else W_free r) s)"
| Lock: "workers s t = W_lock r \<Longrightarrow> try_lock (mtx s r) = (got, v) \<Longrightarrow>
     worker_step t s (go t (if got then W_recheck r else W_lock r) (s\<lparr>mtx := (mtx s)(r := v)\<rparr>))"
| Recheck: "workers s t = W_recheck r \<Longrightarrow>
     worker_step t s (go t (if r \<in> client s then W_run r else W_unlock r) s)"
| Run: "workers s t = W_run r \<Longrightarrow> worker_step t s (go t (W_clean r) s)"
| Clean_request: "workers s t = W_clean r \<Longrightarrow> r \<in> client s \<Longrightarrow> \<not> conn_lock s \<Longrightarrow>
     worker_step t s (go t (W_null r) (s\<lparr>requests := requests s - {r}\<rparr>))"
| Clean_none: "workers s t = W_clean r \<Longrightarrow> r \<notin> client s \<Longrightarrow> worker_step t s (go t (W_null r) s)"
| Null: "workers s t = W_null r \<Longrightarrow>
     worker_step t s (go t (W_unlock r) (s\<lparr>client := client s - {r}\<rparr>))"
| Done: "workers s t = W_unlock r \<Longrightarrow>
     worker_step t s (go t (W_free r) (s\<lparr>mtx := (mtx s)(r := unlock (mtx s r))\<rparr>))"
| Free: "workers s t = W_free r \<Longrightarrow> worker_step t s (go t W_idle (s\<lparr>alive := alive s - {r}\<rparr>))"

inductive life_step :: "life \<Rightarrow> life \<Rightarrow> bool" where
  Closer: "closer_step s s' \<Longrightarrow> life_step s s'"
| Worker: "worker_step t s s' \<Longrightarrow> life_step s s'"

section \<open>Who may touch a request\<close>

fun holding :: "worker \<Rightarrow> nat set" where
  "holding W_idle = {}"
| "holding (W_check r) = {r}"
| "holding (W_lock r) = {r}"
| "holding (W_recheck r) = {r}"
| "holding (W_run r) = {r}"
| "holding (W_clean r) = {r}"
| "holding (W_null r) = {r}"
| "holding (W_unlock r) = {r}"
| "holding (W_free r) = {r}"

text \<open>The request the connection thread has in hand before it is in the queue.\<close>

fun making :: "closer \<Rightarrow> nat set" where
  "making (C_new r) = {r}"
| "making (C_pushing r) = {r}"
| "making _ = {}"

text \<open>The requests \<open>clear\<close> may still touch, the one it is about to unlock apart.\<close>

fun listed_at :: "closer \<Rightarrow> nat set \<Rightarrow> nat set" where
  "listed_at (C_iter i todo rnew) rs = todo \<union> rnew"
| "listed_at (C_got i r todo rnew) rs = insert r (todo \<union> rnew)"
| "listed_at (C_zero i r todo rnew) rs = todo \<union> rnew"
| "listed_at _ rs = rs"

abbreviation listed :: "life \<Rightarrow> nat set" where
  "listed s \<equiv> listed_at (closer s) (requests s)"

fun unborn :: "closer \<Rightarrow> nat set" where
  "unborn (C_new r) = {r}"
| "unborn _ = {}"

fun clearing :: "closer \<Rightarrow> bool" where
  "clearing (C_iter i todo rnew) = True"
| "clearing (C_got i r todo rnew) = True"
| "clearing (C_zero i r todo rnew) = True"
| "clearing _ = False"

text \<open>A request is looked at once in a round.\<close>

fun apart :: "closer \<Rightarrow> bool" where
  "apart (C_iter i todo rnew) \<longleftrightarrow> todo \<inter> rnew = {}"
| "apart (C_got i r todo rnew) \<longleftrightarrow> todo \<inter> rnew = {} \<and> r \<notin> todo \<union> rnew"
| "apart (C_zero i r todo rnew) \<longleftrightarrow> todo \<inter> rnew = {}"
| "apart _ \<longleftrightarrow> True"

text \<open>Points at which the request has lost its client, and at which it is out of reach of \<open>clear\<close>.\<close>

fun orphaned :: "worker \<Rightarrow> nat set" where
  "orphaned (W_unlock r) = {r}"
| "orphaned (W_free r) = {r}"
| "orphaned _ = {}"

fun unlisted :: "worker \<Rightarrow> nat set" where
  "unlisted (W_null r) = {r}"
| "unlisted _ = {}"

text \<open>Every object has one owner at a time: a worker, the queue or the connection thread.\<close>

definition sole :: "(nat \<Rightarrow> worker) \<Rightarrow> bool" where
  "sole f \<longleftrightarrow> (\<forall>t u r. r \<in> holding (f t) \<longrightarrow> r \<in> holding (f u) \<longrightarrow> t = u)"

definition owned :: "life \<Rightarrow> bool" where
  "owned s \<longleftrightarrow> sole (workers s) \<and>
     (\<forall>t. holding (workers s t) \<subseteq> alive s) \<and>
     (\<forall>t. holding (workers s t) \<inter> (set (queue s) \<union> making (closer s)) = {}) \<and>
     set (queue s) \<union> making (closer s) \<subseteq> alive s \<and> distinct (queue s) \<and>
     set (queue s) \<inter> making (closer s) = {} \<and> alive s \<subseteq> {..<fresh s}"

definition reached :: "life \<Rightarrow> bool" where
  "reached s \<longleftrightarrow> listed s \<union> making (closer s) \<subseteq> alive s \<inter> client s \<and> listed s \<subseteq> requests s \<and>
     client s \<subseteq> {..<fresh s} \<and> (clearing (closer s) \<longrightarrow> conn_lock s) \<and> apart (closer s) \<and>
     unborn (closer s) \<inter> requests s = {} \<and>
     (\<forall>t. orphaned (workers s t) \<inter> client s = {}) \<and>
     (\<forall>t. unlisted (workers s t) \<inter> listed s = {})"

lemma go_fields [simp]:
  "alive (go t p s) = alive s" "client (go t p s) = client s" "mtx (go t p s) = mtx s"
  "requests (go t p s) = requests s" "conn_lock (go t p s) = conn_lock s" "queue (go t p s) = queue s"
  "fresh (go t p s) = fresh s" "workers (go t p s) = (workers s)(t := p)" "closer (go t p s) = closer s"
  by (simp_all add: go_def)

lemma listed_idle: "\<not> clearing c \<Longrightarrow> listed_at c rs = rs"
  by (cases c) auto

lemma sole_keep: "sole f \<Longrightarrow> holding p \<subseteq> holding (f t) \<Longrightarrow> sole (f(t := p))"
  unfolding sole_def by (metis fun_upd_apply subsetD)

lemma sole_take: "sole f \<Longrightarrow> \<forall>u. holding p \<inter> holding (f u) = {} \<Longrightarrow> sole (f(t := p))"
  unfolding sole_def by (metis disjoint_iff fun_upd_apply)

text \<open>A worker that goes on with its request, or lets it go, keeps the invariant.\<close>

lemma owned_keep:
  assumes "owned s" and "alive s' = alive s" and "queue s' = queue s" and "closer s' = closer s"
    and "fresh s' = fresh s" and "workers s' = (workers s)(t := p)" and "holding p \<subseteq> holding (workers s t)"
  shows "owned s'"
proof -
  have "holding (workers s' u) \<subseteq> holding (workers s u)" for u using assms(6,7) by simp
  then have "\<forall>u. holding (workers s' u) \<subseteq> alive s" 
    "\<forall>u. holding (workers s' u) \<inter> (set (queue s) \<union> making (closer s)) = {}"
    using assms(1) unfolding owned_def by blast+
  moreover have "sole (workers s')" unfolding assms(6) using assms(1,7) by (auto simp: owned_def intro: sole_keep)
  ultimately show ?thesis using assms(1-5) by (simp add: owned_def)
qed

lemma owned_closer:
  assumes "closer_step s s'" and "owned s"
  shows "owned s'"
  using assms
proof (cases rule: closer_step.cases)
  case New
  have "fresh s \<notin> alive s" using assms(2) by (auto simp: owned_def)
  then have "fresh s \<notin> holding (workers s t)" "fresh s \<notin> set (queue s)" for t
    using assms(2) by (auto simp: owned_def)
  with New assms(2) show ?thesis by (auto simp: owned_def)
qed (use assms(2) in \<open>auto simp: owned_def split: if_splits\<close>)

lemma owned_worker:
  assumes "worker_step t s s'" and "owned s"
  shows "owned s'"
  using assms
proof (cases rule: worker_step.cases)
  case (Pop r q)
  then have "\<forall>u. holding (W_check r) \<inter> holding (workers s u) = {}" using assms(2) by (auto simp: owned_def)
  with Pop assms(2) show ?thesis by (auto simp: owned_def intro: sole_take)
next
  case (Free r)
  have "r \<notin> holding (workers s u)" if "u \<noteq> t" for u
    using assms(2) Free(2) that by (auto simp: owned_def sole_def)
  moreover have "r \<notin> set (queue s) \<union> making (closer s)"
    using assms(2) Free(2) unfolding owned_def by (metis disjoint_iff holding.simps(9) insertI1)
  moreover have "sole ((workers s)(t := W_idle))"
    using assms(2) by (auto simp: owned_def intro: sole_keep)
  ultimately show ?thesis using Free assms(2) by (auto simp: owned_def)
qed (auto intro: owned_keep [OF assms(2)])

text \<open>The same for what \<open>clear\<close> may reach.\<close>

lemma reached_keep:
  assumes "reached s" and "alive s' = alive s" and "client s' \<subseteq> client s" and "closer s' = closer s"
    and "requests s' = requests s" and "fresh s' = fresh s" and "conn_lock s' = conn_lock s"
    and "(listed s \<union> making (closer s)) \<inter> (client s - client s') = {}"
    and "workers s' = (workers s)(t := p)" and "orphaned p \<inter> client s' = {}" and "unlisted p \<inter> listed s = {}"
  shows "reached s'"
proof -
  have "orphaned (workers s u) \<inter> client s = {}" "unlisted (workers s u) \<inter> listed s = {}" for u
    using assms(1) by (simp_all add: reached_def)
  then have "orphaned (workers s' u) \<inter> client s' = {}" "unlisted (workers s' u) \<inter> listed s = {}" for u
    using assms(3) assms(10,11) unfolding assms(9) by (cases "u = t"; simp; blast)+
  moreover have "listed s \<union> making (closer s) \<subseteq> alive s \<inter> client s" using assms(1) by (simp add: reached_def)
  with assms(8) have "listed s \<union> making (closer s) \<subseteq> alive s \<inter> client s'" by blast
  moreover have "client s' \<subseteq> {..<fresh s'}" using assms(1,3,6) by (auto simp: reached_def)
  ultimately show ?thesis using assms(1,2,4,5,7) by (simp add: reached_def)
qed

lemma reached_closer:
  assumes step: "closer_step s s'" and "owned s" and "reached s"
  shows "reached s'"
  using step
proof (cases rule: closer_step.cases)
  case New
  have "fresh s \<notin> client s" using assms(3) by (auto simp: reached_def)
  moreover have "orphaned (workers s t) \<subseteq> holding (workers s t)" for t by (cases "workers s t") auto
  then have "fresh s \<notin> orphaned (workers s t)" for t using assms(2) by (fastforce simp: owned_def)
  moreover have "fresh s \<notin> requests s" using New assms(3) by (auto simp: reached_def)
  ultimately show ?thesis using New assms(3) by (auto simp: reached_def)
next
  case (Insert r)
  have "unlisted (workers s t) \<subseteq> holding (workers s t)" for t by (cases "workers s t") auto
  moreover have "r \<notin> holding (workers s t)" for t using assms(2) Insert by (auto simp: owned_def)
  ultimately have "r \<notin> unlisted (workers s t)" for t by blast
  with Insert assms(3) show ?thesis by (auto simp: reached_def)
next
  case (Delete r)
  have "r \<notin> requests s"
    using assms(3) Delete by (auto simp: reached_def)
  with Delete assms(3) show ?thesis by (auto simp: reached_def)
qed (use assms(3) in \<open>auto simp: reached_def split: if_splits\<close>)

lemma reached_worker:
  assumes step: "worker_step t s s'" and "owned s" and "reached s"
  shows "reached s'"
  using step
proof (cases rule: worker_step.cases)
  case (Clean_request r)
  have "\<not> clearing (closer s)" using assms(3) Clean_request by (auto simp: reached_def)
  with Clean_request assms(3) show ?thesis by (auto simp: reached_def listed_idle)
next
  case (Clean_none r)
  then have "r \<notin> listed s" using assms(3) by (auto simp: reached_def)
  with Clean_none show ?thesis by (intro reached_keep [OF assms(3)]) auto
next
  case (Null r)
  have "unlisted (workers s t) \<inter> listed s = {}" using assms(3) by (simp add: reached_def)
  moreover have "holding (workers s t) \<inter> making (closer s) = {}" using assms(2) unfolding owned_def by blast
  ultimately show ?thesis using Null by (intro reached_keep [OF assms(3)]) auto
next
  case (Done r)
  have "orphaned (workers s t) \<inter> client s = {}" using assms(3) by (simp add: reached_def)
  with Done show ?thesis by (intro reached_keep [OF assms(3)]) auto
next
  case (Free r)
  have "orphaned (workers s t) \<inter> client s = {}" using assms(3) by (simp add: reached_def)
  then have "r \<notin> listed s \<union> making (closer s)" using Free assms(3) by (auto simp: reached_def)
  with Free assms(3) show ?thesis by (auto simp: reached_def)
qed (auto intro!: reached_keep [OF assms(3)] split: if_splits)

lemma life_inv: "life_step\<^sup>*\<^sup>* life_init s \<Longrightarrow> owned s \<and> reached s"
proof (induction rule: rtranclp_induct)
  case base
  show ?case by (simp add: life_init_def owned_def reached_def sole_def)
next
  case (step s s')
  from step.hyps(2) step.IH show ?case
    by (cases rule: life_step.cases) (auto intro: owned_closer owned_worker reached_closer reached_worker)
qed

text \<open>The requests whose memory the next step of a thread accesses.\<close>

fun touched :: "closer \<Rightarrow> nat set" where
  "touched (C_iter i todo rnew) = todo"
| "touched (C_got i r todo rnew) = {r}"
| "touched _ = {}"


section \<open>Concrete runs\<close>

text \<open>One request has been read and waits in the queue; then a thread takes it out.\<close>

definition one_queued :: life where
  "one_queued = life_init\<lparr>alive := {0}, client := {0}, requests := {0}, queue := [0], fresh := 1\<rparr>"

lemmas life_run = converse_rtranclp_into_rtranclp [of life_step]
lemmas closer_moves = closer_step.intros [THEN life_step.Closer]
lemmas worker_moves = worker_step.intros [THEN life_step.Worker]

lemma reach_queued: "life_step\<^sup>*\<^sup>* life_init one_queued"
proof -
  let ?s1 = "life_init\<lparr>alive := {0}, client := {0}, fresh := 1, closer := C_new 0\<rparr>"
  let ?s2 = "?s1\<lparr>requests := {0}, closer := C_pushing 0\<rparr>"
  have "life_step life_init ?s1" using closer_moves(1) [of life_init] by (simp add: life_init_def)
  moreover have "life_step ?s1 ?s2" using closer_moves(3) [of ?s1 0] by (simp add: life_init_def)
  moreover have "life_step ?s2 one_queued"
    using closer_moves(4) [of ?s2 0] by (simp add: life_init_def one_queued_def)
  ultimately show ?thesis by (meson life_run rtranclp.rtrancl_refl)
qed

lemma reach_trans: "life_step\<^sup>*\<^sup>* a s \<Longrightarrow> life_step s s' \<Longrightarrow> life_step\<^sup>*\<^sup>* a s'"
  by (rule rtranclp.rtrancl_into_rtrancl)


text \<open>
  \<open>clear\<close> can unlock a request that has been freed: after it has set \<open>client\<close> to null and
  before it calls \<open>mtx.unlock()\<close>, a background thread may pop the request, see that there
  is no client without taking the lock, and delete the object.
\<close>

lemma clear_unlocks_freed_request:
  "\<exists>s i todo rnew. life_step\<^sup>*\<^sup>* life_init s \<and> closer s = C_zero i 0 todo rnew \<and> 0 \<notin> alive s"
proof -
  let ?s0 = "one_queued\<lparr>closer := C_round 0\<rparr>"
  let ?s1 = "?s0\<lparr>conn_lock := True, closer := C_iter 0 {0} {}\<rparr>"
  let ?s2 = "?s1\<lparr>mtx := (mtx ?s1)(0 := True), closer := C_got 0 0 {} {}\<rparr>"
  let ?s3 = "?s2\<lparr>client := {}, closer := C_zero 0 0 {} {}\<rparr>"
  let ?s4 = "go 0 (W_check 0) (?s3\<lparr>queue := []\<rparr>)"
  let ?s5 = "go 0 (W_free 0) ?s4"
  let ?s6 = "go 0 W_idle (?s5\<lparr>alive := {}\<rparr>)"
  have 0: "life_step one_queued ?s0" by (rule closer_moves(5)) (simp add: one_queued_def life_init_def)
  have 1: "life_step ?s0 ?s1"
    using closer_moves(6) [of ?s0 0] by (simp add: one_queued_def life_init_def)
  have 2: "life_step ?s1 ?s2"
    using closer_moves(7) [of ?s1 0 "{0}" "{}" 0 True True]
    by (simp add: one_queued_def life_init_def try_lock_def exchange_def)
  have 3: "life_step ?s2 ?s3"
    using closer_moves(8) [of ?s2 0 0 "{}" "{}"] by (simp add: one_queued_def life_init_def)
  have 4: "life_step ?s3 ?s4"
    by (rule worker_moves(1)) (simp_all add: one_queued_def life_init_def)
  have 5: "life_step ?s4 ?s5" using worker_moves(2) [of ?s4 0 0] by simp
  have 6: "life_step ?s5 ?s6"
    using worker_moves(10) [of ?s5 0 0] by (simp add: one_queued_def life_init_def go_def)
  have "life_step\<^sup>*\<^sup>* life_init ?s6"
    using reach_queued 0 1 2 3 4 5 6 by (meson reach_trans)
  then show ?thesis by (intro exI [of _ ?s6] exI) simp
qed

text \<open>
  \<open>clear\<close> gives up after three rounds: a connection can be closed while a background thread
  is still running a method of one of its requests and is going to write to it.
\<close>

lemma clear_gives_up:
  "\<exists>s. life_step\<^sup>*\<^sup>* life_init s \<and> closer s = C_closed \<and> workers s 0 = W_run 0 \<and> 0 \<in> client s"
proof -
  let ?w1 = "go 0 (W_check 0) (one_queued\<lparr>queue := []\<rparr>)"
  let ?w2 = "go 0 (W_lock 0) ?w1"
  let ?w3 = "go 0 (W_recheck 0) (?w2\<lparr>mtx := (mtx ?w2)(0 := True)\<rparr>)"
  let ?w4 = "go 0 (W_run 0) ?w3"
  have "life_step one_queued ?w1" by (rule worker_moves(1)) (simp_all add: one_queued_def life_init_def)
  moreover have "life_step ?w1 ?w2"
    using worker_moves(2) [of ?w1 0 0] by (simp add: one_queued_def)
  moreover have "life_step ?w2 ?w3" using worker_moves(3) [of ?w2 0 0 True True]
    by (simp add: one_queued_def life_init_def try_lock_def exchange_def)
  moreover have "life_step ?w3 ?w4" using worker_moves(4) [of ?w3 0 0] by (simp add: one_queued_def)
  ultimately have w: "life_step\<^sup>*\<^sup>* life_init ?w4" using reach_queued by (meson reach_trans)
  let ?at = "\<lambda>c l. ?w4\<lparr>conn_lock := l, closer := c\<rparr>"
  have "life_step ?w4 (?at (C_round 0) False)"
    using closer_moves(5) [of ?w4] by (simp add: one_queued_def life_init_def go_def)
  moreover have "life_step (?at (C_round i) False) (?at (C_iter i {0} {}) True)" for i
    using closer_moves(6) [of "?at (C_round i) False" i] by (simp add: one_queued_def life_init_def go_def)
  moreover have "life_step (?at (C_iter i {0} {}) True) (?at (C_iter i {} {0}) True)" for i
    using closer_moves(7) [of "?at (C_iter i {0} {}) True" i "{0}" "{}" 0 False True]
    by (simp add: one_queued_def life_init_def go_def try_lock_def exchange_def)
  moreover have "life_step (?at (C_iter i {} {0}) True) (?at (if i + 1 = 3 then C_closed else C_round (i + 1)) False)" for i
    using closer_moves(10) [of "?at (C_iter i {} {0}) True" i "{0}"]
    by (simp add: one_queued_def life_init_def go_def)
  from this [of 0] this [of 1] this [of 2] have
    "life_step (?at (C_iter 0 {} {0}) True) (?at (C_round 1) False)"
    "life_step (?at (C_iter 1 {} {0}) True) (?at (C_round 2) False)"
    "life_step (?at (C_iter 2 {} {0}) True) (?at C_closed False)"
    by (simp_all add: numeral_2_eq_2 numeral_3_eq_3)
  ultimately have "life_step\<^sup>*\<^sup>* life_init (?at C_closed False)" using w by (meson reach_trans)
  then show ?thesis by (intro exI [of _ "?at C_closed False"]) (simp add: one_queued_def)
qed

end
