(* ===== verification/Stream_Io.thy ===== *)
theory Stream_Io
  imports Prelude
begin

text \<open>
  The bottom of a connection: the system calls (\<open>fas/system/system.hpp\<close>), the advices that hold
  a descriptor and call them (\<open>fas/adv/io/desc_holder.hpp\<close>, \<open>ad_file.hpp\<close>), and the buffers in
  front of them (\<open>ad_binary_read.hpp\<close>, \<open>ad_binary_write.hpp\<close>).

  Code that changes the state and may throw is a function from the state to a result and the
  state it leaves behind, so that the state at a \<open>throw\<close> is not lost. What the kernel answers to
  a \<open>write\<close> of \<open>s\<close> bytes is a parameter \<open>net s\<close>; the named hypothesis \<open>write_law\<close> is the
  documented one, that it never takes more than \<open>s\<close>. What a \<open>read\<close> answers is a parameter as
  well. The advices \<open>_on_writing_\<close>, \<open>_on_write_\<close>, \<open>_on_wclosed_\<close>, \<open>_on_werror_\<close>,
  \<open>_on_rclosed_\<close> and \<open>_on_rerror_\<close> are stubs in the daemon; \<open>_on_read_\<close> is a parameter.
  The reserving and shrinking of memory is left out.
\<close>

section \<open>State and exceptions\<close>

type_synonym ('s, 'a) op = "'s \<Rightarrow> 'a res \<times> 's"

definition ret :: "'a \<Rightarrow> ('s, 'a) op" where
  "ret x s = (Inr x, s)"

definition raise :: "exn \<Rightarrow> ('s, 'a) op" where
  "raise e s = (Inl e, s)"

definition upd :: "('s \<Rightarrow> 's) \<Rightarrow> ('s, unit) op" where
  "upd f s = (Inr (), f s)"

definition bindS :: "('s, 'a) op \<Rightarrow> ('a \<Rightarrow> ('s, 'b) op) \<Rightarrow> ('s, 'b) op" where
  "bindS m f s = (case m s of (Inl e, s') \<Rightarrow> (Inl e, s') | (Inr x, s') \<Rightarrow> f x s')"

abbreviation seqS :: "('s, 'a) op \<Rightarrow> ('s, 'b) op \<Rightarrow> ('s, 'b) op" where
  "seqS m n \<equiv> bindS m (\<lambda>_. n)"

text \<open>\<open>catch(...)\<close>: the handler runs in the state at the \<open>throw\<close>.\<close>

definition catchS :: "('s, 'a) op \<Rightarrow> (exn \<Rightarrow> ('s, 'a) op) \<Rightarrow> ('s, 'a) op" where
  "catchS m h s = (case m s of (Inl e, s') \<Rightarrow> h e s' | (Inr x, s') \<Rightarrow> (Inr x, s'))"

lemmas op_defs = ret_def raise_def upd_def bindS_def catchS_def

section \<open>System calls\<close>

datatype errno =
  EWOULDBLOCK | EAGAIN | EINTR | EBADF | EFAULT | EINVAL | ENOMEM | ENOTCONN | ENOTSOCK | Eother nat

text \<open>What \<open>::write\<close> returns: a count, or -1 and \<open>errno\<close>.\<close>

datatype sysret = Ret nat | Fail errno

text \<open>What \<open>::read\<close> returns: the bytes it stored, none at the end of the stream, or -1 and \<open>errno\<close>.\<close>

datatype sysread = Data string | Rfail errno

text \<open>The text of an exception is the part before \<open>strerror\<close>.\<close>

definition failed :: "string \<Rightarrow> errno \<Rightarrow> int res" where
  "failed msg err =
     (if err = EWOULDBLOCK \<or> err = EAGAIN \<or> err = EINTR then Inr (- 1)
      else if err = EBADF \<or> err = EFAULT \<or> err = EINVAL \<or> err = ENOMEM \<or> err = ENOTCONN
        \<or> err = ENOTSOCK then Inl (Runtime_error msg)
      else Inr 0)"

definition system_read :: "sysread \<Rightarrow> int res" where
  "system_read r = (case r of Data d \<Rightarrow> Inr (int (length d))
     | Rfail err \<Rightarrow> failed ''fas::system::read/_read: '' err)"

definition system_write :: "sysret \<Rightarrow> int res" where
  "system_write r = (case r of Ret n \<Rightarrow> Inr (int n)
     | Fail err \<Rightarrow> failed ''fas::system::_write/write: '' err)"

definition write_law :: "(nat \<Rightarrow> sysret) \<Rightarrow> bool" where
  "write_law net \<longleftrightarrow> (\<forall>s n. net s = Ret n \<longrightarrow> n \<le> s)"

section \<open>The filter\<close>

text \<open>
  The descriptors with their status (\<open>desc_holder\<close>, one for each direction), the read buffer
  with its lock, the write buffer. \<open>c_sent\<close> belongs to the kernel: the bytes it has taken.
\<close>

record filter =
  c_rd :: nat
  c_rstatus :: bool
  c_wd :: nat
  c_wstatus :: bool
  c_rbuf :: string
  c_rlock :: bool
  c_rclear :: bool
  c_wbuf :: string
  c_sent :: string

definition set_rd :: "nat \<Rightarrow> 'a filter_scheme \<Rightarrow> 'a filter_scheme" where
  "set_rd d s = s\<lparr>c_rd := d, c_rstatus := True\<rparr>"

definition set_wd :: "nat \<Rightarrow> 'a filter_scheme \<Rightarrow> 'a filter_scheme" where
  "set_wd d s = s\<lparr>c_wd := d, c_wstatus := True\<rparr>"

definition ad_file_read :: "sysread \<Rightarrow> ('a filter_scheme, int) op" where
  "ad_file_read r s = (case system_read r of Inl e \<Rightarrow> (Inl e, s)
     | Inr rt \<Rightarrow> (Inr rt, if rt = 0 then s\<lparr>c_rstatus := False\<rparr> else s))"

definition ad_file_write :: "(nat \<Rightarrow> sysret) \<Rightarrow> string \<Rightarrow> ('a filter_scheme, int) op" where
  "ad_file_write net d s = (case system_write (net (length d)) of Inl e \<Rightarrow> (Inl e, s)
     | Inr rt \<Rightarrow> (Inr rt, if rt = 0 then s\<lparr>c_wstatus := False\<rparr> else s\<lparr>c_sent := c_sent s @ take (nat rt) d\<rparr>))"

section \<open>Writing\<close>

text \<open>\<open>ad_binary_write\<close>: the advices behind \<open>N\<close>, \<open>C\<close> and \<open>E\<close> are stubs.\<close>

definition binary_write :: "(nat \<Rightarrow> sysret) \<Rightarrow> string \<Rightarrow> ('a filter_scheme, int) op" where
  "binary_write net d = ad_file_write net d"

definition wclear :: "'a filter_scheme \<Rightarrow> 'a filter_scheme" where
  "wclear s = s\<lparr>c_wbuf := []\<rparr>"

definition wready :: "'a filter_scheme \<Rightarrow> bool" where
  "wready s \<longleftrightarrow> c_wbuf s \<noteq> []"

text \<open>\<open>ad_buf_binary_write\<close> with data, for its default \<open>S = 0\<close>.\<close>

definition buf_write :: "(nat \<Rightarrow> sysret) \<Rightarrow> string \<Rightarrow> ('a filter_scheme, int) op" where
  "buf_write net d s0 =
     (let s = (if c_wbuf s0 \<noteq> [] \<or> length d \<le> 0 then s0\<lparr>c_wbuf := c_wbuf s0 @ d\<rparr> else s0)
      in if c_wbuf s = []
         then bindS (binary_write net d) (\<lambda>rt.
                seqS (upd (\<lambda>s. if rt > 0 \<and> rt < int (length d) then s\<lparr>c_wbuf := drop (nat rt) d\<rparr>
                               else if rt < 0 then s\<lparr>c_wbuf := d\<rparr> else s)) (ret rt)) s
         else if length (c_wbuf s) > 0
         then bindS (binary_write net (c_wbuf s)) (\<lambda>rt.
                seqS (upd (\<lambda>s. if rt = int (length (c_wbuf s)) then s\<lparr>c_wbuf := []\<rparr>
                               else if rt > 0 then s\<lparr>c_wbuf := drop (nat rt) (c_wbuf s)\<rparr>
                               else if rt = 0 then s\<lparr>c_wbuf := []\<rparr> else s)) (ret rt)) s
         else ret 0 s)"

text \<open>\<open>ad_buf_binary_write\<close> without data: what is left in the buffer.\<close>

definition buf_flush :: "(nat \<Rightarrow> sysret) \<Rightarrow> ('a filter_scheme, int) op" where
  "buf_flush net s =
     (if c_wbuf s = [] then ret (- 1) s
      else bindS (binary_write net (c_wbuf s)) (\<lambda>rt.
             seqS (upd (\<lambda>s. if rt = int (length (c_wbuf s)) then s\<lparr>c_wbuf := []\<rparr>
                            else if rt > 0 then s\<lparr>c_wbuf := drop (nat rt) (c_wbuf s)\<rparr> else s)) (ret rt)) s)"

section \<open>Reading\<close>

definition rclear :: "'a filter_scheme \<Rightarrow> 'a filter_scheme" where
  "rclear s = (if \<not> c_rlock s then s\<lparr>c_rbuf := [], c_rclear := False\<rparr> else s\<lparr>c_rclear := True\<rparr>)"

definition lock_buffer :: "'a filter_scheme \<Rightarrow> 'a filter_scheme" where
  "lock_buffer s = s\<lparr>c_rlock := True\<rparr>"

definition unlock_buffer :: "'a filter_scheme \<Rightarrow> 'a filter_scheme" where
  "unlock_buffer s =
     (if c_rlock s \<and> c_rclear s then s\<lparr>c_rbuf := []\<rparr> else s)\<lparr>c_rlock := False, c_rclear := False\<rparr>"

text \<open>\<open>std::vector::resize\<close>.\<close>

definition resize :: "nat \<Rightarrow> string \<Rightarrow> string" where
  "resize n b = take n b @ replicate (n - length b) NUL"

definition read_size :: nat where "read_size = 4096"

text \<open>\<open>ad_binary_read\<close>: the bytes are stored at the beginning of the buffer.\<close>

definition binary_read ::
  "(string \<Rightarrow> ('a filter_scheme, unit) op) \<Rightarrow> sysread \<Rightarrow> ('a filter_scheme, int) op" where
  "binary_read on_read r = bindS (ad_file_read r) (\<lambda>rs.
     if rs > 0
     then (case r of Data d \<Rightarrow>
             seqS (upd (\<lambda>s. s\<lparr>c_rbuf := d @ drop (length d) (c_rbuf s)\<rparr>))
               (seqS (on_read d) (ret rs))
           | Rfail _ \<Rightarrow> ret rs)
     else ret rs)"

text \<open>\<open>ad_buf_binary_read\<close> without a user buffer.\<close>

definition buf_read ::
  "(string \<Rightarrow> ('a filter_scheme, unit) op) \<Rightarrow> sysread \<Rightarrow> ('a filter_scheme, int) op" where
  "buf_read on_read r =
     seqS (upd (\<lambda>s. lock_buffer (s\<lparr>c_rbuf := resize read_size (c_rbuf s)\<rparr>)))
       (bindS (catchS (binary_read on_read r) (\<lambda>e. seqS (upd unlock_buffer) (raise e)))
         (\<lambda>rt. seqS (upd unlock_buffer) (ret rt)))"

section \<open>The output is a stream\<close>

text \<open>
  What a write does to the pair of the bytes the kernel has taken and the bytes that wait: it
  appends the data to the one that waits, and moves some of the bytes over. Nothing is lost,
  nothing is sent twice, the order is kept.
\<close>

definition pending :: "'a filter_scheme \<Rightarrow> string" where
  "pending s = c_sent s @ c_wbuf s"

lemma system_write_cases:
  assumes "write_law net"
  obtains e where "system_write (net n) = Inl e"
    | "system_write (net n) = Inr (- 1)" | "system_write (net n) = Inr 0"
    | k where "system_write (net n) = Inr (int k)" "0 < k" "k \<le> n"
proof (cases "net n")
  case (Ret k)
  then show ?thesis
    using assms that(3) that(4) [of k] by (cases k) (auto simp: system_write_def write_law_def)
next
  case (Fail e)
  then show ?thesis
    using that(1-3) by (cases e) (simp_all add: system_write_def failed_def)
qed

text \<open>A write that returns -1 or a positive count keeps the stream.\<close>

lemma buf_write_stream:
  assumes "write_law net" and "buf_write net d s = (Inr rt, s')"
  shows "rt \<noteq> 0 \<Longrightarrow> pending s' = pending s @ d \<and> prefix (c_sent s) (c_sent s') \<and> c_wstatus s' = c_wstatus s"
    and "rt = 0 \<Longrightarrow> c_wbuf s' = [] \<and> c_sent s' = c_sent s \<and> \<not> c_wstatus s'"
proof -
  have *: "(rt \<noteq> 0 \<longrightarrow> pending s' = pending s @ d \<and> prefix (c_sent s) (c_sent s') \<and> c_wstatus s' = c_wstatus s)
    \<and> (rt = 0 \<longrightarrow> c_wbuf s' = [] \<and> c_sent s' = c_sent s \<and> \<not> c_wstatus s')"
    using assms(2)
    by (rule_tac n = "length (c_wbuf s @ d)" in system_write_cases [OF assms(1)])
      (auto simp: buf_write_def binary_write_def ad_file_write_def op_defs pending_def Let_def
        simp del: take_append drop_append split: if_splits)
  show "rt \<noteq> 0 \<Longrightarrow> pending s' = pending s @ d \<and> prefix (c_sent s) (c_sent s') \<and> c_wstatus s' = c_wstatus s"
    and "rt = 0 \<Longrightarrow> c_wbuf s' = [] \<and> c_sent s' = c_sent s \<and> \<not> c_wstatus s'"
    using * by auto
qed

lemma buf_flush_stream:
  assumes "write_law net" and "buf_flush net s = (Inr rt, s')" and "c_wbuf s \<noteq> []"
  shows "pending s' = pending s \<and> prefix (c_sent s) (c_sent s')"
    and "c_wstatus s' = (c_wstatus s \<and> rt \<noteq> 0)"
    and "rt > 0 \<Longrightarrow> length (c_wbuf s') < length (c_wbuf s)"
proof -
  have *: "(pending s' = pending s \<and> prefix (c_sent s) (c_sent s'))
    \<and> c_wstatus s' = (c_wstatus s \<and> rt \<noteq> 0)
    \<and> (rt > 0 \<longrightarrow> length (c_wbuf s') < length (c_wbuf s))"
    using assms(2,3)
    by (rule_tac n = "length (c_wbuf s)" in system_write_cases [OF assms(1)])
      (auto simp: buf_flush_def binary_write_def ad_file_write_def op_defs pending_def
        split: if_splits)
  show "pending s' = pending s \<and> prefix (c_sent s) (c_sent s')"
    and "c_wstatus s' = (c_wstatus s \<and> rt \<noteq> 0)"
    and "rt > 0 \<Longrightarrow> length (c_wbuf s') < length (c_wbuf s)"
    using * by auto
qed

end
