(* ===== verification/Mux.thy ===== *)
theory Mux
  imports Stream_Io
begin

unbundle bit_operations_syntax

text \<open>
  The multiplexers of \<open>fas/mux\<close>. The interface \<open>imux\<close> (\<open>imux.hpp\<close>) is the record \<open>imux\<close> of
  its operations, and the locale \<open>imux_laws\<close> states what its users rely on. \<open>epoller\<close>
  (\<open>epoller.hpp\<close>) and \<open>selector\<close> (\<open>selector.hpp\<close>) implement it; each is shown to keep the laws.

  An observer (\<open>imux_observer\<close>) is known by its address, a number. The kernel's side of epoll is
  a parameter \<open>ctl\<close>, which is \<open>epoll_ctl\<close>; the locale \<open>epoll_kernel\<close> holds its documented laws.
  The text of an exception is the part before \<open>strerror\<close>.
\<close>

section \<open>The interface\<close>

datatype mux_event = Ev_read | Ev_write | Ev_urgent

text \<open>\<open>mx_close\<close> is what closing a descriptor does to the kernel's side of the multiplexer.\<close>

record 'm imux =
  mx_set :: "mux_event \<Rightarrow> nat \<Rightarrow> nat \<Rightarrow> ('m, nat option) op"
  mx_reset :: "mux_event \<Rightarrow> nat \<Rightarrow> ('m, nat option) op"
  mx_close :: "nat \<Rightarrow> 'm \<Rightarrow> 'm"

text \<open>
  \<open>wants m e d\<close> is the observer that is told of the event \<open>e\<close> on the descriptor \<open>d\<close>;
  \<open>fits d\<close> says that the multiplexer can watch \<open>d\<close>. One descriptor has one observer.
\<close>

locale imux_laws =
  fixes M :: "'m imux"
    and ok :: "'m \<Rightarrow> bool"
    and wants :: "'m \<Rightarrow> mux_event \<Rightarrow> nat \<Rightarrow> nat option"
    and fits :: "nat \<Rightarrow> bool"
  assumes set_law: "\<lbrakk>ok m; fits d; \<And>e'. wants m e' d \<in> {None, Some h}\<rbrakk> \<Longrightarrow>
      \<exists>old m'. mx_set M e d h m = (Inr old, m') \<and> ok m'
        \<and> wants m' = (wants m)(e := (wants m e)(d := Some h))"
    and reset_law: "\<lbrakk>ok m; fits d; wants m e d = Some h\<rbrakk> \<Longrightarrow>
      \<exists>old m'. mx_reset M e d m = (Inr old, m') \<and> ok m'
        \<and> wants m' = (wants m)(e := (wants m e)(d := None))"
    and close_law: "\<lbrakk>ok m; fits d; \<And>e. wants m e d = None\<rbrakk> \<Longrightarrow>
      ok (mx_close M d m) \<and> wants (mx_close M d m) = wants m"
begin

lemma setE:
  assumes "ok m" "fits d" "\<And>e'. wants m e' d = None \<or> wants m e' d = Some h"
  obtains old m' where "mx_set M e d h m = (Inr old, m')" "ok m'"
    "wants m' = (wants m)(e := (wants m e)(d := Some h))"
  using set_law [of m d h e] assms by auto

lemma resetE:
  assumes "ok m" "fits d" "wants m e d = Some h"
  obtains old m' where "mx_reset M e d m = (Inr old, m')" "ok m'"
    "wants m' = (wants m)(e := (wants m e)(d := None))"
  using reset_law [of m d e h] assms by auto

end

section \<open>epoller\<close>

definition EPOLLIN :: "32 word" where "EPOLLIN = 0x001"
definition EPOLLPRI :: "32 word" where "EPOLLPRI = 0x002"
definition EPOLLOUT :: "32 word" where "EPOLLOUT = 0x004"
definition EPOLLERR :: "32 word" where "EPOLLERR = 0x008"
definition EPOLLHUP :: "32 word" where "EPOLLHUP = 0x010"

lemmas epoll_flags = EPOLLIN_def EPOLLPRI_def EPOLLOUT_def EPOLLERR_def EPOLLHUP_def

datatype ctl_op = Ctl_add | Ctl_mod | Ctl_del

text \<open>\<open>epoll_ctl\<close>: the kernel object afterwards, or \<open>None\<close> for -1.\<close>

type_synonym 'k epoll_ctl = "ctl_op \<Rightarrow> nat \<Rightarrow> 32 word \<Rightarrow> 'k \<Rightarrow> 'k option"

record event_handler =
  eh_events :: "32 word"
  eh_fd :: nat
  eh_second :: nat
  eh_ready :: bool

definition blank :: event_handler where
  "blank = \<lparr>eh_events = 0, eh_fd = 0, eh_second = 0, eh_ready = False\<rparr>"

record 'k epoller =
  ep_handlers :: "event_handler list"
  ep_kern :: 'k

definition ep_put :: "nat \<Rightarrow> event_handler \<Rightarrow> 'k epoller \<Rightarrow> 'k epoller" where
  "ep_put d h m = m\<lparr>ep_handlers := (ep_handlers m)[d := h]\<rparr>"

text \<open>A call of \<open>epoll_ctl\<close> that throws when it fails.\<close>

definition ep_ctl :: "'k epoll_ctl \<Rightarrow> ctl_op \<Rightarrow> nat \<Rightarrow> 32 word \<Rightarrow> exn \<Rightarrow> ('k epoller, unit) op" where
  "ep_ctl ctl cop d ev e m = (case ctl cop d ev (ep_kern m) of
     None \<Rightarrow> (Inl e, m) | Some k \<Rightarrow> (Inr (), m\<lparr>ep_kern := k\<rparr>))"

definition set_error :: "32 word \<Rightarrow> exn" where
  "set_error e =
     (if e AND EPOLLIN \<noteq> 0 then Runtime_error ''epoller::_set_handle, error flag EPOLLIN, ''
      else if e AND EPOLLOUT \<noteq> 0 then Runtime_error ''epoller::_set_handle, error flag EPOLLOUT, ''
      else if e AND EPOLLPRI \<noteq> 0 then Runtime_error ''epoller::_set_handle, error flag EPOLLPRI, ''
      else if e AND EPOLLERR \<noteq> 0 then Runtime_error ''epoller::_set_handle, error flag EPOLLERR, ''
      else Logic_error ''epoller::_set_handle: '')"

definition ep_set_handler ::
  "'k epoll_ctl \<Rightarrow> nat \<Rightarrow> nat \<Rightarrow> 32 word \<Rightarrow> ('k epoller, nat option) op" where
  "ep_set_handler ctl d sh flag m0 =
     (let m = (if length (ep_handlers m0) \<le> d
               then m0\<lparr>ep_handlers := ep_handlers m0 @ replicate (d + 1 - length (ep_handlers m0)) blank\<rparr>
               else m0);
          h = ep_handlers m ! d
      in if \<not> eh_ready h
         then seqS (upd (ep_put d \<lparr>eh_events = flag, eh_fd = d, eh_second = sh, eh_ready = True\<rparr>))
                (seqS (ep_ctl ctl Ctl_add d flag (Runtime_error ''epoller::_set_handle1: '')) (ret None)) m
         else let mode = (if eh_events h \<noteq> 0 then Ctl_mod else Ctl_add);
                  ev = eh_events h OR flag
              in seqS (upd (ep_put d (h\<lparr>eh_second := sh, eh_events := ev\<rparr>)))
                   (seqS (ep_ctl ctl mode d ev (set_error (ev AND NOT flag))) (ret (Some (eh_second h)))) m)"

definition ep_mask :: "32 word" where "ep_mask = EPOLLIN OR EPOLLOUT OR EPOLLPRI"

definition ep_reset_handler :: "'k epoll_ctl \<Rightarrow> nat \<Rightarrow> 32 word \<Rightarrow> ('k epoller, nat option) op" where
  "ep_reset_handler ctl d flag m =
     (if d \<ge> length (ep_handlers m) \<or> \<not> eh_ready (ep_handlers m ! d)
      then raise (Runtime_error ''epoller::_reset_handle: descriptor not found'') m
      else let h = ep_handlers m ! d in
        if eh_events h AND ep_mask \<noteq> 0
        then let ev = eh_events h AND NOT flag; h' = h\<lparr>eh_events := ev, eh_fd := d\<rparr> in
          seqS (upd (ep_put d h'))
            (seqS (if ev AND ep_mask = 0
                   then seqS (ep_ctl ctl Ctl_del d ev (Runtime_error ''epoller::_reset_handle: ''))
                          (upd (ep_put d (h'\<lparr>eh_ready := False\<rparr>)))
                   else ep_ctl ctl Ctl_mod d ev (Runtime_error ''epoller::_reset_handle: ''))
              (ret (Some (eh_second h)))) m
        else ret None m)"

definition flag_of :: "mux_event \<Rightarrow> 32 word" where
  "flag_of e = (case e of Ev_read \<Rightarrow> EPOLLIN | Ev_write \<Rightarrow> EPOLLOUT | Ev_urgent \<Rightarrow> EPOLLPRI)"

definition epoller_mux :: "'k epoll_ctl \<Rightarrow> (nat \<Rightarrow> 'k \<Rightarrow> 'k) \<Rightarrow> 'k epoller imux" where
  "epoller_mux ctl kclose =
     \<lparr>mx_set = (\<lambda>e d sh. ep_set_handler ctl d sh (flag_of e)),
      mx_reset = (\<lambda>e d. ep_reset_handler ctl d (flag_of e)),
      mx_close = (\<lambda>d m. m\<lparr>ep_kern := kclose d (ep_kern m)\<rparr>)\<rparr>"

text \<open>
  \<open>select\<close>: what \<open>epoll_wait\<close> returned is an argument. The observers are called with the world as
  state, from which \<open>get\<close> reads the multiplexer, because a call may change the handlers of the
  events that follow.
\<close>

datatype mux_call = Ready_read | Ready_write | Ready_urgent | Ready_error

definition ep_notify ::
  "('s \<Rightarrow> 'k epoller) \<Rightarrow> (mux_call \<Rightarrow> nat \<Rightarrow> nat \<Rightarrow> ('s, unit) op) \<Rightarrow> mux_call \<Rightarrow> nat \<Rightarrow> ('s, unit) op" where
  "ep_notify get ready c d s =
     (if d < length (ep_handlers (get s)) then ready c (eh_second (ep_handlers (get s) ! d)) d s
      else raise Out_of_bounds s)"

definition ep_event ::
  "('s \<Rightarrow> 'k epoller) \<Rightarrow> (mux_call \<Rightarrow> nat \<Rightarrow> nat \<Rightarrow> ('s, unit) op) \<Rightarrow> nat \<times> 32 word \<Rightarrow> ('s, unit) op" where
  "ep_event get ready ev s =
     (case ev of (d, events) \<Rightarrow>
        let flags_set = (if d < length (ep_handlers (get s)) then eh_events (ep_handlers (get s) ! d) else 0);
            on = (\<lambda>flag c. if events AND flag AND flags_set \<noteq> 0 then ep_notify get ready c d else ret ())
        in if events AND (EPOLLERR OR EPOLLHUP) \<noteq> 0 then ep_notify get ready Ready_error d s
           else seqS (on EPOLLIN Ready_read) (seqS (on EPOLLOUT Ready_write) (on EPOLLPRI Ready_urgent)) s)"

fun ep_events ::
  "('s \<Rightarrow> 'k epoller) \<Rightarrow> (mux_call \<Rightarrow> nat \<Rightarrow> nat \<Rightarrow> ('s, unit) op) \<Rightarrow> (nat \<times> 32 word) list \<Rightarrow> ('s, unit) op" where
  "ep_events get ready [] = ret ()"
| "ep_events get ready (ev # evs) = seqS (ep_event get ready ev) (ep_events get ready evs)"

definition ep_select ::
  "('s \<Rightarrow> 'k epoller) \<Rightarrow> (mux_call \<Rightarrow> nat \<Rightarrow> nat \<Rightarrow> ('s, unit) op) \<Rightarrow> errno + (nat \<times> 32 word) list
     \<Rightarrow> ('s, bool) op" where
  "ep_select get ready waited =
     (case waited of
        Inl err \<Rightarrow> if err \<noteq> EINTR then raise (Runtime_error ''epoller::select calling epoll_wait:  '')
                   else ret False
      | Inr evs \<Rightarrow> seqS (ep_events get ready evs) (ret True))"


section \<open>selector\<close>

text \<open>
  One vector of observers and one \<open>fd_set\<close> for each event (the source repeats the code three
  times). A descriptor beyond \<open>FD_SETSIZE\<close> is undefined behaviour in \<open>FD_SET\<close>.
\<close>

definition FD_SETSIZE :: nat where "FD_SETSIZE = 1024"

record selector =
  sl_handlers :: "mux_event \<Rightarrow> nat option list"
  sl_sets :: "mux_event \<Rightarrow> nat set"
  sl_fd_size :: nat

definition selector_new :: selector where
  "selector_new = \<lparr>sl_handlers = (\<lambda>_. []), sl_sets = (\<lambda>_. {}), sl_fd_size = 0\<rparr>"

text \<open>The loop of \<open>_set_fd_size\<close>.\<close>

primrec shrink_fd :: "(mux_event \<Rightarrow> nat set) \<Rightarrow> nat \<Rightarrow> nat" where
  "shrink_fd fs 0 = 0"
| "shrink_fd fs (Suc n) =
     (if n \<notin> fs Ev_read \<and> n \<notin> fs Ev_write \<and> n \<notin> fs Ev_urgent then shrink_fd fs n else Suc n)"

definition set_fd_size :: "nat \<Rightarrow> bool \<Rightarrow> selector \<Rightarrow> selector" where
  "set_fd_size d on m =
     (if on then if d + 1 > sl_fd_size m then m\<lparr>sl_fd_size := d + 1\<rparr> else m
      else if d + 1 = sl_fd_size m then m\<lparr>sl_fd_size := shrink_fd (sl_sets m) (sl_fd_size m)\<rparr> else m)"

definition sl_set :: "mux_event \<Rightarrow> nat \<Rightarrow> nat option \<Rightarrow> (selector, nat option) op" where
  "sl_set e d mh m =
     (let hs = (if length (sl_handlers m e) < d + 1
                then sl_handlers m e @ replicate (d + 1 - length (sl_handlers m e)) None
                else sl_handlers m e);
          m' = m\<lparr>sl_handlers := (sl_handlers m)(e := hs[d := mh])\<rparr>
      in if d \<ge> FD_SETSIZE then raise Out_of_bounds m'
         else ret (hs ! d) (set_fd_size d (mh \<noteq> None)
           (m'\<lparr>sl_sets := (sl_sets m)(e := (if mh = None then sl_sets m e - {d} else insert d (sl_sets m e)))\<rparr>)))"

definition selector_mux :: "selector imux" where
  "selector_mux = \<lparr>mx_set = (\<lambda>e d sh. sl_set e d (Some sh)), mx_reset = (\<lambda>e d. sl_set e d None),
     mx_close = (\<lambda>d m. m)\<rparr>"

text \<open>
  \<open>select\<close>: \<open>out e\<close> is the set that \<open>::select\<close> left for the event \<open>e\<close>. The loop reads the handlers
  and \<open>_fd_size\<close> again in every round, because the observers it calls may change them.
\<close>

definition sl_notify ::
  "('s \<Rightarrow> selector) \<Rightarrow> (mux_call \<Rightarrow> nat \<Rightarrow> nat \<Rightarrow> ('s, unit) op) \<Rightarrow> (mux_event \<Rightarrow> nat set) \<Rightarrow> nat
     \<Rightarrow> mux_event \<Rightarrow> mux_call \<Rightarrow> ('s, unit) op" where
  "sl_notify get ready out i e c s =
     (let hs = sl_handlers (get s) e in
      if i < length hs \<and> i \<in> out e
      then (case hs ! i of None \<Rightarrow> ret () s | Some h \<Rightarrow> ready c h i s) else ret () s)"

definition sl_round ::
  "('s \<Rightarrow> selector) \<Rightarrow> (mux_call \<Rightarrow> nat \<Rightarrow> nat \<Rightarrow> ('s, unit) op) \<Rightarrow> (mux_event \<Rightarrow> nat set) \<Rightarrow> nat
     \<Rightarrow> ('s, unit) op" where
  "sl_round get ready out i =
     seqS (sl_notify get ready out i Ev_read Ready_read)
       (seqS (sl_notify get ready out i Ev_write Ready_write)
         (sl_notify get ready out i Ev_urgent Ready_urgent))"

function sl_rounds ::
  "('s \<Rightarrow> selector) \<Rightarrow> (mux_call \<Rightarrow> nat \<Rightarrow> nat \<Rightarrow> ('s, unit) op) \<Rightarrow> (mux_event \<Rightarrow> nat set) \<Rightarrow> nat
     \<Rightarrow> ('s, unit) op" where
  "sl_rounds get ready out i s =
     (if i < sl_fd_size (get s)
      then if i \<ge> FD_SETSIZE then raise Out_of_bounds s
           else seqS (sl_round get ready out i) (sl_rounds get ready out (i + 1)) s
      else ret () s)"
  by pat_completeness auto
termination
  by (relation "measure (\<lambda>(_, _, _, i, _). FD_SETSIZE - i)") auto

declare sl_rounds.simps [simp del]

definition sl_select ::
  "('s \<Rightarrow> selector) \<Rightarrow> (mux_call \<Rightarrow> nat \<Rightarrow> nat \<Rightarrow> ('s, unit) op) \<Rightarrow> errno + nat
     \<Rightarrow> (mux_event \<Rightarrow> nat set) \<Rightarrow> ('s, bool) op" where
  "sl_select get ready waited out =
     (case waited of
        Inl err \<Rightarrow> if err = EINTR then ret False else raise (Runtime_error ''fas::selector::select: '')
      | Inr sr \<Rightarrow> if sr = 0 then ret False else seqS (sl_rounds get ready out 0) (ret True))"


section \<open>epoller keeps the laws\<close>

text \<open>
  The documented behaviour of \<open>epoll_ctl\<close> and of \<open>close\<close>: the kernel keeps the set of events it
  watches for each descriptor (\<open>interest\<close>); to add a descriptor it must not be watched, to change
  or delete it it must be; closing a descriptor forgets it.
\<close>

locale epoll_kernel =
  fixes ctl :: "'k epoll_ctl"
    and interest :: "'k \<Rightarrow> nat \<Rightarrow> 32 word option"
    and kclose :: "nat \<Rightarrow> 'k \<Rightarrow> 'k"
  assumes ctl_add: "interest k d = None \<Longrightarrow>
      \<exists>k'. ctl Ctl_add d ev k = Some k' \<and> interest k' = (interest k)(d := Some ev)"
    and ctl_mod: "interest k d \<noteq> None \<Longrightarrow>
      \<exists>k'. ctl Ctl_mod d ev k = Some k' \<and> interest k' = (interest k)(d := Some ev)"
    and ctl_del: "interest k d \<noteq> None \<Longrightarrow>
      \<exists>k'. ctl Ctl_del d ev k = Some k' \<and> interest k' = (interest k)(d := None)"
    and interest_close: "interest (kclose d k) = (interest k)(d := None)"

definition ep_entry :: "'k epoller \<Rightarrow> nat \<Rightarrow> event_handler option" where
  "ep_entry m d = (if d < length (ep_handlers m) \<and> eh_ready (ep_handlers m ! d)
     then Some (ep_handlers m ! d) else None)"

definition ep_wants :: "'k epoller \<Rightarrow> mux_event \<Rightarrow> nat \<Rightarrow> nat option" where
  "ep_wants m e d = (case ep_entry m d of None \<Rightarrow> None
     | Some h \<Rightarrow> if eh_events h AND flag_of e \<noteq> 0 then Some (eh_second h) else None)"

text \<open>A handler that is not in use has no events: what is reported late for it is not passed on.\<close>

definition ep_quiet :: "'k epoller \<Rightarrow> bool" where
  "ep_quiet m \<longleftrightarrow> (\<forall>h \<in> set (ep_handlers m). \<not> eh_ready h \<longrightarrow> eh_events h AND ep_mask = 0)"

text \<open>The table and the kernel agree, and every entry watches something.\<close>

definition ep_ok :: "('k \<Rightarrow> nat \<Rightarrow> 32 word option) \<Rightarrow> 'k epoller \<Rightarrow> bool" where
  "ep_ok interest m \<longleftrightarrow> (\<forall>d. interest (ep_kern m) d = map_option eh_events (ep_entry m d)
     \<and> (\<forall>h. ep_entry m d = Some h \<longrightarrow> eh_events h AND ep_mask \<noteq> 0)) \<and> ep_quiet m"

definition ev_pos :: "mux_event \<Rightarrow> nat" where
  "ev_pos e = (case e of Ev_read \<Rightarrow> 0 | Ev_write \<Rightarrow> 2 | Ev_urgent \<Rightarrow> 1)"

lemma ev_pos_inj [simp]: "ev_pos e = ev_pos e' \<longleftrightarrow> e = e'"
  by (cases e; cases e') (simp_all add: ev_pos_def)

lemma ev_pos_less [simp]: "ev_pos e < 32"
  by (cases e) (simp_all add: ev_pos_def)

lemma flag_of_exp: "flag_of e = 2 ^ ev_pos e"
  by (cases e) (simp_all add: flag_of_def ev_pos_def epoll_flags)

lemma and_flag [simp]: "w AND flag_of e \<noteq> 0 \<longleftrightarrow> bit w (ev_pos e)"
  by (simp add: flag_of_exp and_exp_eq_0_iff_not_bit)

lemma and_mask: "w AND ep_mask \<noteq> 0 \<longleftrightarrow> (\<exists>e. bit w (ev_pos e))"
proof -
  have *: "ep_mask = flag_of Ev_read OR flag_of Ev_write OR flag_of Ev_urgent"
    by (simp add: ep_mask_def flag_of_def)
  have "w AND ep_mask \<noteq> 0 \<longleftrightarrow>
    bit w (ev_pos Ev_read) \<or> bit w (ev_pos Ev_write) \<or> bit w (ev_pos Ev_urgent)"
    unfolding * by (simp add: bit.conj_disj_distrib or_eq_0_iff flip: and_flag)
  then show ?thesis
    by (metis mux_event.exhaust)
qed

lemma bit_or_flag [simp]: "bit (w OR flag_of e) (ev_pos e') \<longleftrightarrow> bit w (ev_pos e') \<or> e = e'"
  by (auto simp: bit_or_iff flag_of_exp bit_exp_iff)

lemma bit_and_not_flag [simp]: "bit (w AND NOT (flag_of e)) (ev_pos e') \<longleftrightarrow> bit w (ev_pos e') \<and> e \<noteq> e'"
  by (auto simp: bit_and_iff bit_not_iff flag_of_exp bit_exp_iff)

lemma flag_of_nonzero [simp]: "flag_of e \<noteq> 0"
  by (cases e) (simp_all add: flag_of_def epoll_flags)

lemma bit_flag [simp]: "bit (flag_of e) (ev_pos e') \<longleftrightarrow> e = e'"
  by (auto simp: flag_of_exp bit_exp_iff)

lemma ep_wants_iff:
  "ep_wants m e d = Some h \<longleftrightarrow> (\<exists>x. ep_entry m d = Some x \<and> bit (eh_events x) (ev_pos e) \<and> eh_second x = h)"
  by (auto simp: ep_wants_def split: option.splits)

lemma ep_ok_ready: "ep_ok interest m \<Longrightarrow> ep_entry m d = Some x \<Longrightarrow> \<exists>e. bit (eh_events x) (ev_pos e)"
  by (auto simp: ep_ok_def and_mask)


lemma ep_unwatched: "ep_ok interest m \<Longrightarrow> (\<And>e. ep_wants m e d = None) \<Longrightarrow> ep_entry m d = None"
  by (metis ep_ok_ready ep_wants_iff option.distinct(1) option.exhaust)

text \<open>What an update of one entry does to the view.\<close>

lemma ep_entry_put:
  "d < length (ep_handlers m) \<Longrightarrow>
     ep_entry (ep_put d h m) d' = (if d' = d then (if eh_ready h then Some h else None) else ep_entry m d')"
  by (auto simp: ep_entry_def ep_put_def nth_list_update)

lemma ep_entry_kern [simp]: "ep_entry (m\<lparr>ep_kern := k\<rparr>) = ep_entry m"
  by (simp add: ep_entry_def fun_eq_iff)

lemma ep_wants_kern [simp]: "ep_wants (m\<lparr>ep_kern := k\<rparr>) = ep_wants m"
  by (simp add: ep_wants_def fun_eq_iff)

lemma ep_kern_put [simp]: "ep_kern (ep_put d h m) = ep_kern m"
  by (simp add: ep_put_def)

lemma ep_entry_grow:
  "ep_entry (m\<lparr>ep_handlers := ep_handlers m @ replicate n blank\<rparr>) = ep_entry m"
  by (auto simp: ep_entry_def fun_eq_iff nth_append blank_def)

definition ep_grow :: "nat \<Rightarrow> 'k epoller \<Rightarrow> 'k epoller" where
  "ep_grow d m = (if length (ep_handlers m) \<le> d
     then m\<lparr>ep_handlers := ep_handlers m @ replicate (d + 1 - length (ep_handlers m)) blank\<rparr> else m)"

lemma ep_grow_simps [simp]:
  "d < length (ep_handlers (ep_grow d m))" "ep_entry (ep_grow d m) = ep_entry m"
  "ep_kern (ep_grow d m) = ep_kern m"
  by (auto simp: ep_grow_def ep_entry_grow)

lemma ep_entry_ready:
  "d < length (ep_handlers m) \<Longrightarrow> ep_entry m d = (if eh_ready (ep_handlers m ! d) then Some (ep_handlers m ! d) else None)"
  by (simp add: ep_entry_def)

lemma ep_quiet_put: "ep_quiet m \<Longrightarrow> eh_ready h \<or> eh_events h AND ep_mask = 0 \<Longrightarrow> ep_quiet (ep_put d h m)"
  unfolding ep_quiet_def ep_put_def by (auto dest: set_update_subset_insert [THEN subsetD])

lemma ep_quiet_kern [simp]: "ep_quiet (m\<lparr>ep_kern := k\<rparr>) = ep_quiet m"
  by (simp add: ep_quiet_def)

lemma ep_quiet_grow: "ep_quiet m \<Longrightarrow> ep_quiet (ep_grow d m)"
  by (auto simp: ep_quiet_def ep_grow_def blank_def)

context epoll_kernel
begin

lemma ep_set_ok:
  assumes "ep_ok interest m" and "\<And>e'. ep_wants m e' d \<in> {None, Some h}"
  shows "\<exists>old m'. ep_set_handler ctl d h (flag_of e) m = (Inr old, m') \<and> ep_ok interest m'
    \<and> ep_wants m' = (ep_wants m)(e := (ep_wants m e)(d := Some h))"
proof (cases "ep_entry m d")
  case None
  define g where "g = ep_grow d m"
  have g: "\<not> eh_ready (ep_handlers g ! d)"
    using None ep_entry_ready [of d g] by (auto simp: g_def split: if_splits)
  have "interest (ep_kern g) d = None"
    using assms(1) None by (simp add: g_def ep_ok_def)
  then obtain k where k: "ctl Ctl_add d (flag_of e) (ep_kern g) = Some k"
    "interest k = (interest (ep_kern g))(d := Some (flag_of e))"
    using ctl_add by blast
  let ?h = "\<lparr>eh_events = flag_of e, eh_fd = d, eh_second = h, eh_ready = True\<rparr>"
  have "ep_set_handler ctl d h (flag_of e) m = (Inr None, (ep_put d ?h g)\<lparr>ep_kern := k\<rparr>)"
    using g k by (simp add: ep_set_handler_def ep_grow_def [symmetric] g_def [symmetric] op_defs ep_ctl_def Let_def)
  moreover have "ep_ok interest ((ep_put d ?h g)\<lparr>ep_kern := k\<rparr>)"
    using assms(1) k by (auto simp: ep_ok_def ep_entry_put g_def and_mask ep_quiet_put ep_quiet_grow)
  moreover have "ep_wants ((ep_put d ?h g)\<lparr>ep_kern := k\<rparr>) = (ep_wants m)(e := (ep_wants m e)(d := Some h))"
    using None by (auto simp: ep_wants_def ep_entry_put g_def fun_eq_iff)
  ultimately show ?thesis by blast
next
  case (Some x)
  have x: "d < length (ep_handlers m)" "eh_ready x" "ep_handlers m ! d = x"
    using Some by (auto simp: ep_entry_def split: if_splits)
  obtain e0 where e0: "bit (eh_events x) (ev_pos e0)"
    using ep_ok_ready [OF assms(1) Some] by blast
  then have h: "eh_second x = h"
    using assms(2) [of e0] Some by (simp add: ep_wants_def)
  let ?ev = "eh_events x OR flag_of e"
  let ?h = "x\<lparr>eh_second := h, eh_events := ?ev\<rparr>"
  have "interest (ep_kern m) d \<noteq> None"
    using assms(1) Some by (simp add: ep_ok_def)
  then obtain k where k: "ctl Ctl_mod d ?ev (ep_kern m) = Some k"
    "interest k = (interest (ep_kern m))(d := Some ?ev)"
    using ctl_mod by blast
  have "eh_events x \<noteq> 0"
    using e0 by auto
  then have "ep_set_handler ctl d h (flag_of e) m = (Inr (Some (eh_second x)), (ep_put d ?h m)\<lparr>ep_kern := k\<rparr>)"
    using x k by (simp add: ep_set_handler_def op_defs ep_ctl_def Let_def)
  moreover have "ep_ok interest ((ep_put d ?h m)\<lparr>ep_kern := k\<rparr>)"
    using assms(1) k x by (auto simp: ep_ok_def ep_entry_put and_mask ep_quiet_put)
  moreover have "ep_wants ((ep_put d ?h m)\<lparr>ep_kern := k\<rparr>) = (ep_wants m)(e := (ep_wants m e)(d := Some h))"
    using Some x h by (auto simp: ep_wants_def ep_entry_put fun_eq_iff)
  ultimately show ?thesis by blast
qed

lemma ep_reset_ok:
  assumes "ep_ok interest m" and "ep_wants m e d = Some h"
  shows "\<exists>old m'. ep_reset_handler ctl d (flag_of e) m = (Inr old, m') \<and> ep_ok interest m'
    \<and> ep_wants m' = (ep_wants m)(e := (ep_wants m e)(d := None))"
proof -
  obtain x where Some: "ep_entry m d = Some x" and bx: "bit (eh_events x) (ev_pos e)"
    using assms(2) by (auto simp: ep_wants_iff)
  have x: "d < length (ep_handlers m)" "eh_ready x" "ep_handlers m ! d = x"
    using Some by (auto simp: ep_entry_def split: if_splits)
  have mask: "eh_events x AND ep_mask \<noteq> 0"
    using bx by (auto simp: and_mask)
  have int: "interest (ep_kern m) d \<noteq> None"
    using assms(1) Some by (simp add: ep_ok_def)
  let ?ev = "eh_events x AND NOT (flag_of e)"
  let ?h = "x\<lparr>eh_events := ?ev, eh_fd := d\<rparr>"
  show ?thesis
  proof (cases "?ev AND ep_mask = 0")
    case True
    then have none: "\<not> bit ?ev (ev_pos e')" for e'
      using and_mask by blast
    obtain k where k: "ctl Ctl_del d ?ev (ep_kern m) = Some k" "interest k = (interest (ep_kern m))(d := None)"
      using ctl_del [OF int] by blast
    let ?m = "ep_put d (?h\<lparr>eh_ready := False\<rparr>) ((ep_put d ?h m)\<lparr>ep_kern := k\<rparr>)"
    have "ep_reset_handler ctl d (flag_of e) m = (Inr (Some (eh_second x)), ?m)"
      using x k mask True by (simp add: ep_reset_handler_def op_defs ep_ctl_def Let_def)
    moreover have ent: "ep_entry ?m = (ep_entry m)(d := None)"
      using x by (simp add: fun_eq_iff ep_entry_put ep_put_def ep_entry_def nth_list_update)
    moreover have "ep_quiet ?m"
      using assms(1) True x(2) by (simp add: ep_ok_def ep_quiet_put)
    then have "ep_ok interest ?m"
      using assms(1) k unfolding ep_ok_def ent by auto
    moreover have "ep_wants ?m = (ep_wants m)(e := (ep_wants m e)(d := None))"
      using none Some by (auto simp: ep_wants_def ent fun_eq_iff split: option.splits)
    ultimately show ?thesis by blast
  next
    case False
    obtain k where k: "ctl Ctl_mod d ?ev (ep_kern m) = Some k" "interest k = (interest (ep_kern m))(d := Some ?ev)"
      using ctl_mod [OF int] by blast
    let ?m = "(ep_put d ?h m)\<lparr>ep_kern := k\<rparr>"
    have "ep_reset_handler ctl d (flag_of e) m = (Inr (Some (eh_second x)), ?m)"
      using x k mask False by (simp add: ep_reset_handler_def op_defs ep_ctl_def Let_def)
    moreover have "ep_ok interest ?m"
      using assms(1) k x False by (auto simp: ep_ok_def ep_entry_put ep_quiet_put)
    moreover have "ep_wants ?m = (ep_wants m)(e := (ep_wants m e)(d := None))"
      using Some x by (auto simp: ep_wants_def ep_entry_put fun_eq_iff)
    ultimately show ?thesis by blast
  qed
qed

end

sublocale epoll_kernel \<subseteq> ep: imux_laws "epoller_mux ctl kclose" "ep_ok interest" ep_wants "\<lambda>_. True"
proof
  fix m d h e
  show "\<exists>old m'. mx_set (epoller_mux ctl kclose) e d h m = (Inr old, m') \<and> ep_ok interest m'
      \<and> ep_wants m' = (ep_wants m)(e := (ep_wants m e)(d := Some h))"
    if "ep_ok interest m" "\<And>e'. ep_wants m e' d \<in> {None, Some h}"
    using ep_set_ok [OF that] by (simp add: epoller_mux_def)
  show "\<exists>old m'. mx_reset (epoller_mux ctl kclose) e d m = (Inr old, m') \<and> ep_ok interest m'
      \<and> ep_wants m' = (ep_wants m)(e := (ep_wants m e)(d := None))"
    if "ep_ok interest m" "ep_wants m e d = Some h"
    using ep_reset_ok [OF that] by (simp add: epoller_mux_def)
  show "ep_ok interest (mx_close (epoller_mux ctl kclose) d m)
      \<and> ep_wants (mx_close (epoller_mux ctl kclose) d m) = ep_wants m"
    if "ep_ok interest m" "\<And>e. ep_wants m e d = None"
  proof -
    have "ep_entry m d = None"
      using ep_unwatched [OF that] .
    then show ?thesis
      using that(1) interest_close by (auto simp: ep_ok_def epoller_mux_def)
  qed
qed


context epoll_kernel
begin

lemma epoller_laws: "imux_laws (epoller_mux ctl kclose) (ep_ok interest) ep_wants (\<lambda>_. True)"
  by unfold_locales

end

text \<open>A kernel that keeps the laws: the table of the descriptors it watches.\<close>

definition table_ctl :: "(nat \<Rightarrow> 32 word option) epoll_ctl" where
  "table_ctl cop d ev k =
     (case cop of
        Ctl_add \<Rightarrow> if k d = None then Some (k(d := Some ev)) else None
      | Ctl_mod \<Rightarrow> if k d = None then None else Some (k(d := Some ev))
      | Ctl_del \<Rightarrow> if k d = None then None else Some (k(d := None)))"

interpretation tab: epoll_kernel table_ctl "\<lambda>k. k" "\<lambda>d k. k(d := None)"
  by unfold_locales (auto simp: table_ctl_def)

section \<open>selector keeps the laws\<close>

definition sl_wants :: "selector \<Rightarrow> mux_event \<Rightarrow> nat \<Rightarrow> nat option" where
  "sl_wants m e d = (if d < length (sl_handlers m e) then sl_handlers m e ! d else None)"

text \<open>
  The sets hold the descriptors that have an observer, and \<open>_fd_size\<close> is one more than the
  greatest of them.
\<close>

definition sl_ok :: "selector \<Rightarrow> bool" where
  "sl_ok m \<longleftrightarrow> (\<forall>e d. (d \<in> sl_sets m e \<longleftrightarrow> sl_wants m e d \<noteq> None) \<and> (d \<in> sl_sets m e \<longrightarrow> d < sl_fd_size m))
     \<and> (\<forall>n. sl_fd_size m = Suc n \<longrightarrow> (\<exists>e. n \<in> sl_sets m e))"

lemma ex_mux_event: "(\<exists>e. P e) \<longleftrightarrow> P Ev_read \<or> P Ev_write \<or> P Ev_urgent"
  by (metis mux_event.exhaust)

lemma shrink_fd_top: "shrink_fd fs n = Suc k \<Longrightarrow> \<exists>e. k \<in> fs e"
  by (induction n) (auto simp: ex_mux_event split: if_splits)

lemma shrink_fd_keeps: "d \<in> fs e \<Longrightarrow> d < n \<Longrightarrow> d < shrink_fd fs n"
  by (induction n) (auto simp: less_Suc_eq, (cases e; simp)+)

lemma sl_wants_set:
  assumes "d < FD_SETSIZE" and "sl_set e d mh m = (r, m')"
  shows "sl_wants m' = (sl_wants m)(e := (sl_wants m e)(d := mh))"
  using assms
  by (auto simp: sl_set_def op_defs Let_def set_fd_size_def sl_wants_def fun_eq_iff nth_list_update
      nth_append split: if_splits)

lemma sl_sets_set:
  assumes "d < FD_SETSIZE" and "sl_set e d mh m = (r, m')"
  shows "sl_sets m' = (sl_sets m)(e := (if mh = None then sl_sets m e - {d} else insert d (sl_sets m e)))"
  using assms by (auto simp: sl_set_def op_defs Let_def set_fd_size_def split: if_splits)

lemma sl_size_set:
  assumes "d < FD_SETSIZE" and "sl_set e d mh m = (r, m')"
  shows "sl_fd_size m' = (if mh \<noteq> None then max (d + 1) (sl_fd_size m)
     else if d + 1 = sl_fd_size m then shrink_fd (sl_sets m') (sl_fd_size m) else sl_fd_size m)"
  using assms by (auto simp: sl_set_def op_defs Let_def set_fd_size_def split: if_splits)

lemma sl_set_returns: "d < FD_SETSIZE \<Longrightarrow> \<exists>old m'. sl_set e d mh m = (Inr old, m')"
  by (simp add: sl_set_def op_defs Let_def)

lemma sl_ok_set:
  assumes "d < FD_SETSIZE" and "sl_ok m" and "sl_set e d mh m = (r, m')"
  shows "sl_ok m'"
proof -
  note [simp] = sl_wants_set [OF assms(1,3)] sl_sets_set [OF assms(1,3)] sl_size_set [OF assms(1,3)]
  have sets: "d' \<in> sl_sets m' e' \<longleftrightarrow> sl_wants m' e' d' \<noteq> None" for e' d'
    using assms(2) by (auto simp: sl_ok_def)
  have bound: "d' < sl_fd_size m'" if "d' \<in> sl_sets m' e'" for e' d'
  proof -
    have "d' = d \<and> mh \<noteq> None \<or> d' < sl_fd_size m"
      using that assms(2) by (auto simp: sl_ok_def split: if_splits)
    then show ?thesis
      using shrink_fd_keeps [of d' "sl_sets m'" e' "sl_fd_size m"] that by (auto split: if_splits)
  qed
  have top: "\<exists>e'. n \<in> sl_sets m' e'" if n: "sl_fd_size m' = Suc n" for n
  proof (cases "mh = None \<and> d + 1 = sl_fd_size m")
    case True
    then show ?thesis
      using n shrink_fd_top [of "sl_sets m'" "sl_fd_size m" n] by (simp del: fun_upd_apply shrink_fd.simps)
  next
    case False
    then consider "n = d" "mh \<noteq> None" | "sl_fd_size m = Suc n" "n = d \<longrightarrow> mh \<noteq> None"
      using n by (auto simp: max_def split: if_splits)
    then show ?thesis
    proof cases
      case 1
      then show ?thesis by (intro exI [of _ e]) simp
    next
      case 2
      then obtain e0 where "n \<in> sl_sets m e0"
        using assms(2) by (auto simp: sl_ok_def)
      with 2 show ?thesis by (intro exI [of _ e0]) auto
    qed
  qed
  show ?thesis
    using sets bound top unfolding sl_ok_def by blast
qed

interpretation sel: imux_laws selector_mux sl_ok sl_wants "\<lambda>d. d < FD_SETSIZE"
proof
  fix m d h e
  show "\<exists>old m'. mx_set selector_mux e d h m = (Inr old, m') \<and> sl_ok m'
      \<and> sl_wants m' = (sl_wants m)(e := (sl_wants m e)(d := Some h))" if "sl_ok m" "d < FD_SETSIZE"
    using sl_set_returns [of d e "Some h" m] sl_ok_set sl_wants_set that by (fastforce simp: selector_mux_def)
  show "\<exists>old m'. mx_reset selector_mux e d m = (Inr old, m') \<and> sl_ok m'
      \<and> sl_wants m' = (sl_wants m)(e := (sl_wants m e)(d := None))" if "sl_ok m" "d < FD_SETSIZE"
    using sl_set_returns [of d e None m] sl_ok_set sl_wants_set that by (fastforce simp: selector_mux_def)
qed (simp_all add: selector_mux_def)

section \<open>Who is told\<close>

text \<open>
  The calls that a list of events should lead to: the observer registered for the descriptor is told
  of an error, or of each of the events that it asked for, in the order read, write, urgent.
\<close>

definition call_of :: "mux_event \<Rightarrow> mux_call" where
  "call_of e = (case e of Ev_read \<Rightarrow> Ready_read | Ev_write \<Rightarrow> Ready_write | Ev_urgent \<Rightarrow> Ready_urgent)"

definition told :: "'k epoller \<Rightarrow> nat \<times> 32 word \<Rightarrow> (mux_call \<times> nat \<times> nat) list" where
  "told m ev = (case ev of (d, events) \<Rightarrow>
     if events AND (EPOLLERR OR EPOLLHUP) \<noteq> 0 then [(Ready_error, eh_second (ep_handlers m ! d), d)]
     else concat (map (\<lambda>e. if events AND flag_of e \<noteq> 0
       then (case ep_wants m e d of None \<Rightarrow> [] | Some h \<Rightarrow> [(call_of e, h, d)]) else [])
         [Ev_read, Ev_write, Ev_urgent]))"

text \<open>Observers that only note that they were called.\<close>

definition note_call ::
  "mux_call \<Rightarrow> nat \<Rightarrow> nat \<Rightarrow> ('k epoller \<times> (mux_call \<times> nat \<times> nat) list, unit) op" where
  "note_call c h d = upd (\<lambda>(m, log). (m, log @ [(c, h, d)]))"

lemma ep_wants_handlers:
  assumes "ep_ok interest m" and "d < length (ep_handlers m)"
  shows "ep_wants m e d = (if bit (eh_events (ep_handlers m ! d)) (ev_pos e) then Some (eh_second (ep_handlers m ! d)) else None)"
proof -
  have "eh_ready (ep_handlers m ! d)" if "bit (eh_events (ep_handlers m ! d)) (ev_pos e)"
    using assms that and_mask nth_mem [OF assms(2)] by (fastforce simp: ep_ok_def ep_quiet_def)
  then show ?thesis
    using assms(2) by (auto simp: ep_wants_def ep_entry_def)
qed

lemma ep_event_told:
  assumes "ep_ok interest m" and "fst ev < length (ep_handlers m)"
  shows "ep_event fst note_call ev (m, log) = (Inr (), (m, log @ told m ev))"
proof -
  obtain d events where ev: "ev = (d, events)" by force
  have flag: "events AND f AND w \<noteq> 0 \<longleftrightarrow> bit events (ev_pos e) \<and> bit w (ev_pos e)" if "f = flag_of e" for f w e
    using and_flag [of "events AND w" e] that by (simp add: bit_and_iff ac_simps)
  have f: "EPOLLIN = flag_of Ev_read" "EPOLLOUT = flag_of Ev_write" "EPOLLPRI = flag_of Ev_urgent"
    by (simp_all add: flag_of_def)
  show ?thesis
    using assms(2)
    by (simp add: ev ep_event_def told_def ep_notify_def note_call_def op_defs Let_def call_of_def
        flag [OF f(1)] flag [OF f(2)] flag [OF f(3)] ep_wants_handlers [OF assms(1)])
qed

text \<open>
  The multiplexer over epoll passes on what the kernel reports, to the observers that asked for it
  and to no one else: with observers that only note the calls, a call of \<open>select\<close> makes exactly the
  calls of the specification, for any events on descriptors in its table. A report for a descriptor
  that has been reset meanwhile is dropped, unless it is an error.\<close>

lemma select_tells_observers:
  assumes "ep_ok interest m" and "list_all (\<lambda>ev. fst ev < length (ep_handlers m)) evs"
  shows "ep_select fst note_call (Inr evs) (m, log) = (Inr True, (m, log @ concat (map (told m) evs)))"
proof -
  have "ep_events fst note_call evs (m, log) = (Inr (), (m, log @ concat (map (told m) evs)))"
    using assms(2)
    by (induction evs arbitrary: log) (simp_all add: ep_event_told [OF assms(1)] op_defs)
  then show ?thesis
    by (simp add: ep_select_def op_defs)
qed

text \<open>
  C34. Both multiplexers keep the contract of the interface \<open>imux\<close>: registering an observer and taking it
  back succeed and do what they say, for \<open>epoller\<close> over any kernel that keeps the documented laws of
  \<open>epoll_ctl\<close>, and for \<open>selector\<close> for descriptors below \<open>FD_SETSIZE\<close>.\<close>

theorem multiplexers_keep_laws:
  assumes "epoll_kernel ctl interest kclose"
  shows "imux_laws (epoller_mux ctl kclose) (ep_ok interest) ep_wants (\<lambda>_. True)
    \<and> imux_laws selector_mux sl_ok sl_wants (\<lambda>d. d < FD_SETSIZE)"
  using epoll_kernel.epoller_laws [OF assms] sel.imux_laws_axioms by blast

theorem multiplexers_keep_laws_witness:
  "imux_laws (epoller_mux table_ctl (\<lambda>d k. k(d := None))) (ep_ok (\<lambda>k. k)) ep_wants (\<lambda>_. True)"
  using multiplexers_keep_laws [OF tab.epoll_kernel_axioms] by blast

end
