(* ===== verification/Connection.thy ===== *)
theory Connection
  imports Mux
begin

text \<open>
  A connection of a server: \<open>pooled_item<mux_connection<...> >\<close>. The classes it inherits from are
  \<open>binary_filter\<close> (\<open>fas/filter/binary_filter.hpp\<close>), \<open>mux_filter_base\<close>
  (\<open>fas/mux/mux_filter.hpp\<close>), \<open>connection\<close>, \<open>mux_connection_base\<close> and \<open>mux_connection\<close>
  (\<open>fas/inet/connection.hpp\<close>) and \<open>pooled_item\<close> (\<open>fas/inet/pooled_item.hpp\<close>); the record
  extends that of \<^typ>\<open>filter\<close> as they do. The virtual \<open>release\<close> is the one of the last class.

  The connection calls the multiplexer through the interface \<open>imux\<close>, a parameter \<open>M\<close>; \<open>h\<close> is the
  address under which it registers itself. The advices \<open>_on_assign_\<close>, \<open>_on_release_\<close>,
  \<open>_on_ready_read_\<close>, \<open>_on_ready_write_\<close>, \<open>_on_connection_assign_\<close> and \<open>_on_connection_close_\<close>
  are stubs in the daemon's servers. The advice \<open>_on_read_\<close> is a parameter: what it does to its own
  connection is a list of writes and releases, which a \<open>throw\<close> may cut short. The counters of calls
  (\<open>_d_ready_read_count\<close> and the like, for debugging) are left out.
\<close>

section \<open>State\<close>

text \<open>
  \<open>c_mx\<close> is the multiplexer behind \<open>_mux\<close>, shared with other connections; \<open>c_fds\<close> are the
  descriptors the process has open; \<open>c_freed\<close> counts the calls of \<open>_pool->free(this)\<close>.
\<close>

record 'm conn = filter +
  c_has_mux :: bool
  c_swh_count :: nat
  c_recursive :: nat
  c_mux_read :: bool
  c_mux_write :: bool
  c_mux_urgent :: bool
  c_released :: bool
  c_releasing :: bool
  c_closed :: bool
  c_local :: string
  c_remote :: string
  c_mx :: 'm
  c_fds :: "nat set"
  c_freed :: nat

section \<open>The multiplexer and the kernel\<close>

definition on_mux :: "('m, 'a) op \<Rightarrow> (('m, 'z) conn_scheme, unit) op" where
  "on_mux f s = (case f (c_mx s) of
     (Inl e, m) \<Rightarrow> (Inl e, s\<lparr>c_mx := m\<rparr>) | (Inr _, m) \<Rightarrow> (Inr (), s\<lparr>c_mx := m\<rparr>))"

text \<open>\<open>fas::system::inet::close\<close>: closing a descriptor that is not open fails.\<close>

definition inet_close :: "'m imux \<Rightarrow> nat \<Rightarrow> (('m, 'z) conn_scheme, unit) op" where
  "inet_close M d s =
     (if d \<in> c_fds s then (Inr (), s\<lparr>c_fds := c_fds s - {d}, c_mx := mx_close M d (c_mx s)\<rparr>)
      else (Inl (Runtime_error ''fas::system::inet::close: ''), s))"

definition set_write_handler :: "'m imux \<Rightarrow> nat \<Rightarrow> (('m, 'z) conn_scheme, unit) op" where
  "set_write_handler M h s =
     (if \<not> c_has_mux s then ret () s
      else if c_wstatus s
      then seqS (if \<not> c_mux_write s then on_mux (mx_set M Ev_write (c_wd s) h) else ret ())
             (upd (\<lambda>s. s\<lparr>c_mux_write := True, c_swh_count := c_swh_count s + 1\<rparr>)) s
      else ret () s)"

definition reset_write_handler :: "'m imux \<Rightarrow> bool \<Rightarrow> (('m, 'z) conn_scheme, unit) op" where
  "reset_write_handler M all s =
     (if \<not> c_has_mux s then ret () s
      else if c_swh_count s > 0
      then if c_swh_count s = 1 \<or> all
           then seqS (upd (\<lambda>s. s\<lparr>c_mux_write := False, c_swh_count := 0\<rparr>))
                  (on_mux (mx_reset M Ev_write (c_wd s))) s
           else upd (\<lambda>s. s\<lparr>c_swh_count := c_swh_count s - 1\<rparr>) s
      else ret () s)"

definition reset_urgent_handler :: "'m imux \<Rightarrow> (('m, 'z) conn_scheme, unit) op" where
  "reset_urgent_handler M s =
     (if \<not> c_has_mux s then ret () s
      else if c_mux_urgent s
      then seqS (upd (\<lambda>s. s\<lparr>c_mux_urgent := False\<rparr>)) (on_mux (mx_reset M Ev_urgent (c_rd s))) s
      else ret () s)"

definition set_urgent_handler :: "'m imux \<Rightarrow> nat \<Rightarrow> (('m, 'z) conn_scheme, unit) op" where
  "set_urgent_handler M h s =
     (if \<not> c_has_mux s then ret () s
      else if c_rstatus s
      then seqS (upd (\<lambda>s. s\<lparr>c_mux_urgent := True\<rparr>)) (on_mux (mx_set M Ev_urgent (c_rd s) h)) s
      else ret () s)"

section \<open>Release\<close>

definition filter_release :: "('m, 'z) conn_scheme \<Rightarrow> ('m, 'z) conn_scheme" where
  "filter_release s = wclear (rclear s)"

text \<open>The two parts of \<open>mux_filter_base::_release\<close> that deal with the handlers.\<close>

definition stop_reading :: "'m imux \<Rightarrow> (('m, 'z) conn_scheme, unit) op" where
  "stop_reading M s =
     (if c_mux_read s \<and> c_has_mux s
      then seqS (on_mux (mx_reset M Ev_read (c_rd s))) (upd (\<lambda>s. s\<lparr>c_mux_read := False\<rparr>)) s
      else ret () s)"

definition stop_writing :: "'m imux \<Rightarrow> (('m, 'z) conn_scheme, unit) op" where
  "stop_writing M s =
     (if c_mux_write s \<and> c_has_mux s
      then if \<not> c_releasing s \<and> wready s
           then upd (\<lambda>s. s\<lparr>c_released := False, c_releasing := True\<rparr>) s
           else seqS (reset_write_handler M True)
                  (upd (\<lambda>s. s\<lparr>c_wstatus := False, c_releasing := False\<rparr>)) s
      else ret () s)"

definition mux_filter_release :: "'m imux \<Rightarrow> (('m, 'z) conn_scheme, bool) op" where
  "mux_filter_release M s0 =
     (if c_released s0 then ret False s0
      else seqS (upd (\<lambda>s. s\<lparr>c_released := True\<rparr>))
        (seqS (stop_reading M)
        (seqS (reset_urgent_handler M)
        (seqS (upd (\<lambda>s. s\<lparr>c_rstatus := False\<rparr>))
        (seqS (stop_writing M)
        (seqS (upd (\<lambda>s. if c_released s then filter_release s else s))
          (\<lambda>s. ret (c_released s) s)))))) s0)"

definition connection_close :: "'m imux \<Rightarrow> (('m, 'z) conn_scheme, unit) op" where
  "connection_close M s =
     (if \<not> c_closed s
      then seqS (inet_close M (c_rd s))
        (seqS (if c_rd s \<noteq> c_wd s then inet_close M (c_wd s) else ret ())
          (upd (\<lambda>s. s\<lparr>c_rstatus := False, c_wstatus := False, c_closed := True\<rparr>))) s
      else ret () s)"

definition mux_connection_release :: "'m imux \<Rightarrow> (('m, 'z) conn_scheme, bool) op" where
  "mux_connection_release M = bindS (mux_filter_release M) (\<lambda>r.
     if r then seqS (connection_close M) (ret True) else ret False)"

definition release :: "'m imux \<Rightarrow> (('m, 'z) conn_scheme, bool) op" where
  "release M = bindS (mux_connection_release M) (\<lambda>r.
     if r then seqS (upd (\<lambda>s. s\<lparr>c_freed := c_freed s + 1\<rparr>)) (ret True) else ret False)"

section \<open>Writing and reading\<close>

definition set_write_handler_if_ready :: "'m imux \<Rightarrow> nat \<Rightarrow> (('m, 'z) conn_scheme, unit) op" where
  "set_write_handler_if_ready M h s =
     (if c_released s then ret () s
      else if c_wstatus s
      then if wready s then set_write_handler M h s
           else seqS (reset_write_handler M False)
                  (\<lambda>s. if c_releasing s then seqS (release M) (ret ()) s else ret () s) s
      else seqS (release M) (ret ()) s)"

definition release_if_wclosed :: "'m imux \<Rightarrow> (('m, 'z) conn_scheme, unit) op" where
  "release_if_wclosed M s =
     (if \<not> c_wstatus s \<and> \<not> c_releasing s \<and> \<not> c_released s then seqS (release M) (ret ()) s
      else ret () s)"

definition mux_write_data :: "'m imux \<Rightarrow> nat \<Rightarrow> (nat \<Rightarrow> sysret) \<Rightarrow> string \<Rightarrow> (('m, 'z) conn_scheme, int) op" where
  "mux_write_data M h net d s =
     (if c_releasing s then ret 0 s
      else if \<not> c_wstatus s then seqS (reset_write_handler M True) (ret 0) s
      else bindS (buf_write net d) (\<lambda>rt.
             seqS (set_write_handler_if_ready M h) (seqS (release_if_wclosed M) (ret rt))) s)"

definition mux_write :: "'m imux \<Rightarrow> nat \<Rightarrow> (nat \<Rightarrow> sysret) \<Rightarrow> (('m, 'z) conn_scheme, int) op" where
  "mux_write M h net s =
     (if \<not> c_wstatus s then seqS (reset_write_handler M True) (ret 0) s
      else bindS (if wready s then buf_flush net else ret 0) (\<lambda>rt.
             seqS (set_write_handler_if_ready M h) (seqS (release_if_wclosed M) (ret rt))) s)"

definition release_if_rclosed :: "'m imux \<Rightarrow> (('m, 'z) conn_scheme, unit) op" where
  "release_if_rclosed M s =
     (if \<not> c_rstatus s \<and> \<not> c_releasing s \<and> \<not> c_released s then seqS (release M) (ret ()) s
      else ret () s)"

definition mux_read :: "'m imux \<Rightarrow> (string \<Rightarrow> (('m, 'z) conn_scheme, unit) op) \<Rightarrow> sysread \<Rightarrow> (('m, 'z) conn_scheme, int) op" where
  "mux_read M on_read inp = bindS (buf_read on_read inp) (\<lambda>rt. seqS (release_if_rclosed M) (ret rt))"

section \<open>What the multiplexer calls\<close>

text \<open>\<open>ad_exception\<close>, the advice behind the \<open>_e_ready_\<close> tags.\<close>

definition ad_exception :: "'m imux \<Rightarrow> exn \<Rightarrow> (('m, 'z) conn_scheme, unit) op" where
  "ad_exception M e = seqS (release M) (seqS (release M) (raise e))"

text \<open>The frame that the \<open>_ready_\<close> functions share: the guard against recursion and the handlers.\<close>

definition guarded :: "'m imux \<Rightarrow> (('m, 'z) conn_scheme, unit) op \<Rightarrow> (('m, 'z) conn_scheme, unit) op" where
  "guarded M body = catchS
     (\<lambda>s. if c_recursive s \<noteq> 0 then raise (Logic_error ''recursive call forbidden'') s
          else seqS (upd (\<lambda>s. s\<lparr>c_recursive := c_recursive s + 1\<rparr>))
            (seqS (catchS body (\<lambda>e. seqS (upd (\<lambda>s. s\<lparr>c_recursive := c_recursive s - 1\<rparr>)) (raise e)))
              (upd (\<lambda>s. s\<lparr>c_recursive := c_recursive s - 1\<rparr>))) s)
     (ad_exception M)"

definition wrong_descriptor :: "'m imux \<Rightarrow> string \<Rightarrow> (('m, 'z) conn_scheme, unit) op" where
  "wrong_descriptor M msg = ad_exception M (Logic_error msg)"

definition ready_read ::
  "'m imux \<Rightarrow> (string \<Rightarrow> (('m, 'z) conn_scheme, unit) op) \<Rightarrow> sysread \<Rightarrow> nat \<Rightarrow> (('m, 'z) conn_scheme, unit) op" where
  "ready_read M on_read inp d s =
     (if d \<noteq> c_rd s then wrong_descriptor M ''mux_filter::_ready_read'' s
      else guarded M (seqS (mux_read M on_read inp) (ret ())) s)"

definition ready_write :: "'m imux \<Rightarrow> nat \<Rightarrow> (nat \<Rightarrow> sysret) \<Rightarrow> nat \<Rightarrow> (('m, 'z) conn_scheme, unit) op" where
  "ready_write M h net d s =
     (if d \<noteq> c_wd s then wrong_descriptor M ''mux_filter::_ready_write'' s
      else guarded M (seqS (mux_write M h net) (ret ())) s)"

text \<open>The advice behind \<open>_on_ready_urgent_\<close> and \<open>_on_ready_error_\<close> is \<open>ad_release\<close>.\<close>

definition ready_urgent :: "'m imux \<Rightarrow> nat \<Rightarrow> (('m, 'z) conn_scheme, unit) op" where
  "ready_urgent M d s =
     (if d \<noteq> c_wd s \<or> d \<noteq> c_rd s then wrong_descriptor M ''mux_filter::_ready_urgent'' s
      else guarded M (seqS (release M) (ret ())) s)"

definition ready_error :: "'m imux \<Rightarrow> nat \<Rightarrow> (('m, 'z) conn_scheme, unit) op" where
  "ready_error M d s =
     (if d \<noteq> c_wd s \<or> d \<noteq> c_rd s then wrong_descriptor M ''mux_filter::_ready_error'' s
      else guarded M (seqS (release M) (ret ())) s)"

section \<open>Assigning a descriptor\<close>

definition filter_assign :: "nat \<Rightarrow> nat \<Rightarrow> ('m, 'z) conn_scheme \<Rightarrow> ('m, 'z) conn_scheme" where
  "filter_assign rd wd s = wclear (rclear (set_wd wd (set_rd rd s)))"

definition mux_filter_assign :: "'m imux \<Rightarrow> nat \<Rightarrow> nat \<Rightarrow> nat \<Rightarrow> (('m, 'z) conn_scheme, unit) op" where
  "mux_filter_assign M h rd wd =
     seqS (\<lambda>s. if \<not> c_released s then seqS (release M) (ret ()) s else ret () s)
     (seqS (\<lambda>s. if \<not> c_released s then seqS (release M) (ret ()) s else ret () s)
     (seqS (upd (\<lambda>s. filter_assign rd wd (s\<lparr>c_releasing := False, c_released := False\<rparr>)))
       (\<lambda>s. if c_has_mux s \<and> c_rstatus s
            then seqS (on_mux (mx_set M Ev_read rd h))
                   (seqS (set_write_handler_if_ready M h) (upd (\<lambda>s. s\<lparr>c_mux_read := True\<rparr>))) s
            else ret () s)))"

definition assign :: "'m imux \<Rightarrow> nat \<Rightarrow> nat \<Rightarrow> string \<Rightarrow> string \<Rightarrow> (('m, 'z) conn_scheme, unit) op" where
  "assign M h d local_address remote_address =
     seqS (upd (\<lambda>s. s\<lparr>c_local := local_address, c_remote := remote_address, c_closed := False\<rparr>))
       (seqS (mux_filter_assign M h d d) (upd (\<lambda>s. s\<lparr>c_closed := c_released s\<rparr>)))"

text \<open>The constructors of \<open>mux_filter_base\<close> and \<open>connection\<close>; the descriptors are not initialised.\<close>

definition conn_new :: "nat \<Rightarrow> nat \<Rightarrow> bool \<Rightarrow> 'm \<Rightarrow> nat set \<Rightarrow> 'm conn" where
  "conn_new junk_rd junk_wd has_mux m fds =
     \<lparr>c_rd = junk_rd, c_rstatus = False, c_wd = junk_wd, c_wstatus = False, c_rbuf = [],
      c_rlock = False, c_rclear = False, c_wbuf = [], c_sent = [],
      c_has_mux = has_mux, c_swh_count = 0, c_recursive = 0, c_mux_read = False,
      c_mux_write = False, c_mux_urgent = False, c_released = True, c_releasing = False,
      c_closed = True, c_local = [], c_remote = [], c_mx = m, c_fds = fds, c_freed = 0\<rparr>"

section \<open>Histories\<close>

text \<open>What the reader of a message does to its connection.\<close>

datatype cmd = Write_cmd string "nat \<Rightarrow> sysret" | Release_cmd | Throw_cmd exn

definition run_cmd :: "'m imux \<Rightarrow> nat \<Rightarrow> cmd \<Rightarrow> (('m, 'z) conn_scheme, unit) op" where
  "run_cmd M h c = (case c of
     Write_cmd d net \<Rightarrow> seqS (mux_write_data M h net d) (ret ())
   | Release_cmd \<Rightarrow> seqS (release M) (ret ())
   | Throw_cmd e \<Rightarrow> raise e)"

fun run_cmds :: "'m imux \<Rightarrow> nat \<Rightarrow> cmd list \<Rightarrow> (('m, 'z) conn_scheme, unit) op" where
  "run_cmds M h [] = ret ()"
| "run_cmds M h (c # cs) = seqS (run_cmd M h c) (run_cmds M h cs)"

text \<open>
  What happens to a connection: a thread writes to it or releases it, or the multiplexer reports
  an event. A descriptor that is not watched is not reported; an error is, while anything is
  watched. Exceptions are caught and logged by \<open>run_select\<close>.
\<close>

datatype happening =
    Writes string "nat \<Rightarrow> sysret"
  | Releases
  | Readable sysread "string \<Rightarrow> cmd list"
  | Writable "nat \<Rightarrow> sysret"
  | Broken

definition happen :: "'m imux \<Rightarrow> nat \<Rightarrow> happening \<Rightarrow> ('m, 'z) conn_scheme \<Rightarrow> ('m, 'z) conn_scheme" where
  "happen M h x s = (case x of
     Writes d net \<Rightarrow> snd (mux_write_data M h net d s)
   | Releases \<Rightarrow> snd (release M s)
   | Readable inp cb \<Rightarrow>
       if c_mux_read s then snd (ready_read M (\<lambda>d. run_cmds M h (cb d)) inp (c_rd s) s) else s
   | Writable net \<Rightarrow> if c_mux_write s then snd (ready_write M h net (c_wd s) s) else s
   | Broken \<Rightarrow> if c_mux_read s \<or> c_mux_write s then snd (ready_error M (c_rd s) s) else s)"

fun happens :: "'m imux \<Rightarrow> nat \<Rightarrow> happening list \<Rightarrow> ('m, 'z) conn_scheme \<Rightarrow> ('m, 'z) conn_scheme" where
  "happens M h [] s = s"
| "happens M h (x # xs) s = happens M h xs (happen M h x s)"

end
