(* ===== verification/Connection_Laws.thy ===== *)
theory Connection_Laws
  imports Connection
begin

text \<open>
  What a connection keeps, whatever the socket answers and in whatever order the events come: it is
  registered in the multiplexer exactly as its flags say, it waits for the socket whenever it has
  output to send, and its descriptor is closed once, after the multiplexer has forgotten it. The
  laws of the multiplexer are those of the locale \<open>imux_laws\<close>, so the results hold for \<open>epoller\<close> and
  for \<open>selector\<close>.
\<close>

section \<open>The invariant\<close>

type_synonym 'm view = "'m \<Rightarrow> mux_event \<Rightarrow> nat \<Rightarrow> nat option"

text \<open>The flags say what is registered, and nothing is registered for another descriptor.\<close>

definition registered :: "('m \<Rightarrow> bool) \<Rightarrow> 'm view \<Rightarrow> (nat \<Rightarrow> bool) \<Rightarrow> nat \<Rightarrow> ('m, 'z) conn_scheme \<Rightarrow> bool" where
  "registered ok wants fits h s \<longleftrightarrow>
     c_has_mux s \<and> ok (c_mx s) \<and> c_wd s = c_rd s \<and> fits (c_rd s) \<and> \<not> c_mux_urgent s
     \<and> wants (c_mx s) Ev_read (c_rd s) = (if c_mux_read s then Some h else None)
     \<and> wants (c_mx s) Ev_write (c_rd s) = (if c_mux_write s then Some h else None)
     \<and> wants (c_mx s) Ev_urgent (c_rd s) = None
     \<and> (c_swh_count s > 0 \<longleftrightarrow> c_mux_write s)
     \<and> (\<forall>e d. d \<noteq> c_rd s \<longrightarrow> wants (c_mx s) e d \<noteq> Some h)"

definition is_open :: "('m, 'z) conn_scheme \<Rightarrow> bool" where
  "is_open s \<longleftrightarrow> \<not> c_released s \<and> \<not> c_closed s \<and> c_rd s \<in> c_fds s"

definition flowing :: "('m, 'z) conn_scheme \<Rightarrow> bool" where
  "flowing s \<longleftrightarrow> \<not> c_releasing s \<and> c_rstatus s \<and> c_wstatus s \<and> c_mux_read s \<and> (c_wbuf s \<noteq> [] \<longrightarrow> c_mux_write s)"

definition ending :: "('m, 'z) conn_scheme \<Rightarrow> bool" where
  "ending s \<longleftrightarrow> c_releasing s \<and> \<not> c_rstatus s \<and> \<not> c_mux_read s \<and> (c_wstatus s \<longrightarrow> c_mux_write s \<and> c_wbuf s \<noteq> [])"

definition idle :: "('m \<Rightarrow> bool) \<Rightarrow> 'm view \<Rightarrow> nat \<Rightarrow> ('m, 'z) conn_scheme \<Rightarrow> bool" where
  "idle ok wants h s \<longleftrightarrow>
     c_has_mux s \<and> ok (c_mx s) \<and> c_released s \<and> c_closed s \<and> \<not> c_rstatus s \<and> \<not> c_wstatus s
     \<and> \<not> c_mux_read s \<and> \<not> c_mux_write s \<and> \<not> c_mux_urgent s \<and> c_swh_count s = 0 \<and> c_wbuf s = []
     \<and> (\<forall>e d. wants (c_mx s) e d \<noteq> Some h)"

definition conn_ok :: "('m \<Rightarrow> bool) \<Rightarrow> 'm view \<Rightarrow> (nat \<Rightarrow> bool) \<Rightarrow> nat \<Rightarrow> ('m, 'z) conn_scheme \<Rightarrow> bool" where
  "conn_ok ok wants fits h s \<longleftrightarrow> idle ok wants h s
     \<or> registered ok wants fits h s \<and> is_open s \<and> (flowing s \<or> ending s)"

lemmas conn_defs = is_open_def flowing_def ending_def

text \<open>No other observer is registered for the descriptor.\<close>

definition own :: "'m view \<Rightarrow> nat \<Rightarrow> nat \<Rightarrow> 'm \<Rightarrow> bool" where
  "own wants h d m \<longleftrightarrow> (\<forall>e. wants m e d = None \<or> wants m e d = Some h)"

lemma registered_own: "registered ok wants fits h s \<Longrightarrow> own wants h (c_rd s) (c_mx s)"
  unfolding own_def registered_def by (metis mux_event.exhaust)

text \<open>Other descriptors are left alone.\<close>

definition away :: "'m view \<Rightarrow> nat \<Rightarrow> 'm \<Rightarrow> 'm \<Rightarrow> bool" where
  "away wants d m m' \<longleftrightarrow> (\<forall>e d'. d' \<noteq> d \<longrightarrow> wants m' e d' = wants m e d')"

lemma away_refl [simp]: "away wants d m m"
  by (simp add: away_def)

lemma away_trans [trans]: "away wants d m m' \<Longrightarrow> away wants d m' m'' \<Longrightarrow> away wants d m m''"
  by (simp add: away_def)

text \<open>
  What an operation does apart from the output: the invariant holds afterwards, a connection that is
  released stays so, and it is the release that closes the descriptor and hands the connection back to
  the pool.
\<close>

definition frame :: "('m \<Rightarrow> bool) \<Rightarrow> 'm view \<Rightarrow> (nat \<Rightarrow> bool) \<Rightarrow> nat \<Rightarrow> ('m, 'z) conn_scheme \<Rightarrow> ('m, 'z) conn_scheme \<Rightarrow> bool" where
  "frame ok wants fits h s s' \<longleftrightarrow>
     conn_ok ok wants fits h s' \<and> c_recursive s' = c_recursive s \<and> c_rd s' = c_rd s
     \<and> away wants (c_rd s) (c_mx s) (c_mx s') \<and> (c_released s \<longrightarrow> c_released s' \<and> c_mx s' = c_mx s)
     \<and> (\<not> c_released s \<longrightarrow> own wants h (c_rd s) (c_mx s'))
     \<and> c_fds s' = (if c_released s' \<and> \<not> c_released s then c_fds s - {c_rd s} else c_fds s)
     \<and> c_freed s' = (if c_released s' \<and> \<not> c_released s then Suc (c_freed s) else c_freed s)"

lemma frame_trans:
  assumes "frame ok wants fits h s s'" and "frame ok wants fits h s' s''"
  shows "frame ok wants fits h s s''"
proof -
  have "away wants (c_rd s) (c_mx s) (c_mx s'')"
    using assms unfolding frame_def by (metis away_trans)
  with assms show ?thesis
    unfolding frame_def by (cases "c_released s"; cases "c_released s'") simp_all
qed

text \<open>
  What an operation that was given the data \<open>x\<close> does to the output (\<open>returned\<close> says that it did not
  throw). While the connection is in use everything is kept; when it is being released nothing is
  added; a release drops what is not sent yet.
\<close>

definition emits :: "string \<Rightarrow> ('m, 'z) conn_scheme \<Rightarrow> bool \<Rightarrow> ('m, 'z) conn_scheme \<Rightarrow> bool" where
  "emits x s returned s' \<longleftrightarrow>
     prefix (pending s') (pending s @ x) \<and> prefix (c_sent s) (c_sent s')
     \<and> (flowing s' \<longrightarrow> flowing s \<and> (returned \<longrightarrow> pending s' = pending s @ x))
     \<and> (\<not> flowing s \<longrightarrow> prefix (pending s') (pending s) \<and> (\<not> c_released s' \<longrightarrow> pending s' = pending s))
     \<and> (c_released s \<longrightarrow> c_released s')"

lemma emits_trans:
  assumes "emits x s True s'" and "emits y s' r s''"
  shows "emits (x @ y) s r s''"
proof -
  have "prefix (pending s'') (pending s @ x @ y)"
  proof (cases "flowing s'")
    case True
    then show ?thesis using assms by (auto simp: emits_def)
  next
    case False
    then have "prefix (pending s'') (pending s')" "prefix (pending s') (pending s @ x)"
      using assms by (auto simp: emits_def)
    then show ?thesis
      by (metis append_assoc prefix_order.trans prefixI)
  qed
  then show ?thesis
    using assms unfolding emits_def by (auto intro: prefix_order.trans)
qed

text \<open>The buffers change nothing but the output.\<close>

definition write_error :: exn where
  "write_error = Runtime_error ''fas::system::_write/write: ''"

lemma system_write_Inl: "system_write r = Inl e \<Longrightarrow> e = write_error"
  by (auto simp: system_write_def failed_def write_error_def split: sysret.splits if_splits)

definition wrote :: "'a filter_scheme \<Rightarrow> 'a filter_scheme \<Rightarrow> bool" where
  "wrote s t \<longleftrightarrow> t = s\<lparr>c_wbuf := c_wbuf t, c_sent := c_sent t, c_wstatus := c_wstatus t\<rparr>"

lemma buf_write_wrote: "buf_write net d s = (r, t) \<Longrightarrow> wrote s t"
  by (auto simp: buf_write_def binary_write_def ad_file_write_def op_defs Let_def wrote_def
      split: if_splits sum.splits)

lemma buf_flush_wrote: "buf_flush net s = (r, t) \<Longrightarrow> wrote s t"
  by (auto simp: buf_flush_def binary_write_def ad_file_write_def op_defs Let_def wrote_def
      split: if_splits sum.splits)

lemma buf_write_Inl:
  "buf_write net d s = (Inl e, t) \<Longrightarrow> e = write_error \<and> c_wstatus t = c_wstatus s \<and> c_sent t = c_sent s
     \<and> (c_wbuf t = c_wbuf s \<or> c_wbuf s \<noteq> [] \<and> c_wbuf t = c_wbuf s @ d)"
  by (auto simp: buf_write_def binary_write_def ad_file_write_def op_defs Let_def
      split: if_splits sum.splits dest: system_write_Inl)

lemma buf_write_throws:
  assumes "buf_write net d s = (Inl e, t)"
  shows "\<exists>n. isl (system_write (net n))"
proof (rule ccontr)
  assume "\<nexists>n. isl (system_write (net n))"
  then have "\<exists>rt. system_write (net n) = Inr rt" for n
    by (metis isl_def sum.exhaust)
  then obtain f where "\<And>n. system_write (net n) = Inr (f n)" by metis
  with assms show False
    by (auto simp: buf_write_def binary_write_def ad_file_write_def op_defs Let_def split: if_splits)
qed

lemma buf_flush_Inl: "buf_flush net s = (Inl e, t) \<Longrightarrow> e = write_error \<and> t = s"
  by (auto simp: buf_flush_def binary_write_def ad_file_write_def op_defs Let_def
      split: if_splits sum.splits dest: system_write_Inl)

lemma wroteE:
  assumes "wrote s t"
  obtains b w st where "t = s\<lparr>c_wbuf := b, c_sent := w, c_wstatus := st\<rparr>"
  using assms by (auto simp: wrote_def)

lemma wrote_conn:
  assumes "wrote s (t :: ('m, 'z) conn_scheme)"
  shows "c_rstatus t = c_rstatus s" "c_releasing t = c_releasing s" "c_mux_read t = c_mux_read s"
    "c_mux_write t = c_mux_write s" "c_released t = c_released s" "c_rd t = c_rd s" "c_fds t = c_fds s"
    "c_freed t = c_freed s" "c_recursive t = c_recursive s" "c_mx t = c_mx s"
  using assms by (elim wroteE; simp)+

text \<open>The data of the writes of a reader, and of what happens to a connection.\<close>

fun cmds_data :: "cmd list \<Rightarrow> string" where
  "cmds_data [] = []"
| "cmds_data (Write_cmd d net # cs) = d @ cmds_data cs"
| "cmds_data (Release_cmd # cs) = cmds_data cs"
| "cmds_data (Throw_cmd e # cs) = cmds_data cs"

fun cmd_law :: "cmd \<Rightarrow> bool" where
  "cmd_law (Write_cmd d net) = write_law net"
| "cmd_law Release_cmd = True"
| "cmd_law (Throw_cmd e) = True"

lemma emits_more: "emits x s r s' \<Longrightarrow> emits (x @ y) s False s'"
  unfolding emits_def by (metis append_assoc prefix_prefix)

section \<open>The calls of the multiplexer\<close>

context imux_laws
begin

abbreviation "reg \<equiv> registered ok wants fits"

lemma stop_reading_step:
  assumes "reg h s"
  obtains m where "stop_reading M s = (Inr (), s\<lparr>c_mx := m, c_mux_read := False\<rparr>)"
    "reg h (s\<lparr>c_mx := m, c_mux_read := False\<rparr>)" "away wants (c_rd s) (c_mx s) m"
proof (cases "c_mux_read s")
  case True
  then have "ok (c_mx s)" "fits (c_rd s)" "wants (c_mx s) Ev_read (c_rd s) = Some h"
    using assms by (simp_all add: registered_def)
  from resetE [OF this] obtain old m where "mx_reset M Ev_read (c_rd s) (c_mx s) = (Inr old, m)"
    "ok m" "wants m = (wants (c_mx s))(Ev_read := (wants (c_mx s) Ev_read)(c_rd s := None))" .
  then show ?thesis
    using assms True by (intro that [of m]) (simp_all add: registered_def stop_reading_def on_mux_def op_defs away_def)
next
  case False
  then show ?thesis
    using assms by (intro that [of "c_mx s"]) (simp_all add: registered_def stop_reading_def op_defs)
qed

lemma reset_urgent_step: "reg h s \<Longrightarrow> reset_urgent_handler M s = (Inr (), s)"
  by (simp add: registered_def reset_urgent_handler_def op_defs)

lemma reset_write_step:
  assumes "reg h s" and "all \<or> c_swh_count s \<le> 1"
  obtains m where
    "reset_write_handler M all s = (Inr (), s\<lparr>c_mx := m, c_mux_write := False, c_swh_count := 0\<rparr>)"
    "reg h (s\<lparr>c_mx := m, c_mux_write := False, c_swh_count := 0\<rparr>)" "away wants (c_rd s) (c_mx s) m"
proof (cases "c_mux_write s")
  case True
  then have "ok (c_mx s)" "fits (c_rd s)" "wants (c_mx s) Ev_write (c_rd s) = Some h"
    using assms by (simp_all add: registered_def)
  from resetE [OF this] obtain old m where "mx_reset M Ev_write (c_rd s) (c_mx s) = (Inr old, m)"
    "ok m" "wants m = (wants (c_mx s))(Ev_write := (wants (c_mx s) Ev_write)(c_rd s := None))" .
  moreover have "c_swh_count s > 0" "c_swh_count s = 1 \<or> all"
    using assms True by (auto simp: registered_def)
  ultimately show ?thesis
    using assms(1) True
    by (intro that [of m]) (simp_all add: registered_def reset_write_handler_def on_mux_def op_defs away_def)
next
  case False
  then show ?thesis
    using assms by (intro that [of "c_mx s"]) (simp_all add: registered_def reset_write_handler_def op_defs)
qed

lemma count_down_step:
  "reg h s \<Longrightarrow> c_swh_count s > 1 \<Longrightarrow>
     reset_write_handler M False s = (Inr (), s\<lparr>c_swh_count := c_swh_count s - 1\<rparr>)"
  by (simp add: registered_def reset_write_handler_def op_defs)

lemma set_write_step:
  assumes "reg h s" and "c_wstatus s"
  obtains m where
    "set_write_handler M h s = (Inr (), s\<lparr>c_mx := m, c_mux_write := True, c_swh_count := c_swh_count s + 1\<rparr>)"
    "reg h (s\<lparr>c_mx := m, c_mux_write := True, c_swh_count := c_swh_count s + 1\<rparr>)"
    "away wants (c_rd s) (c_mx s) m"
proof (cases "c_mux_write s")
  case True
  then show ?thesis
    using assms by (intro that [of "c_mx s"]) (simp_all add: registered_def set_write_handler_def op_defs)
next
  case False
  have "wants (c_mx s) e (c_rd s) = None \<or> wants (c_mx s) e (c_rd s) = Some h" for e
    using assms by (cases e) (auto simp: registered_def)
  moreover have "ok (c_mx s)" "fits (c_rd s)"
    using assms by (simp_all add: registered_def)
  ultimately obtain old m where "mx_set M Ev_write (c_rd s) h (c_mx s) = (Inr old, m)"
    "ok m" "wants m = (wants (c_mx s))(Ev_write := (wants (c_mx s) Ev_write)(c_rd s := Some h))"
    using setE [of "c_mx s" "c_rd s" h Ev_write] by blast
  then show ?thesis
    using assms False
    by (intro that [of m]) (simp_all add: registered_def set_write_handler_def on_mux_def op_defs away_def)
qed

lemma close_step:
  assumes "reg h s" and "\<not> c_mux_read s" "\<not> c_mux_write s" "\<not> c_closed s" "c_rd s \<in> c_fds s"
  obtains m where
    "connection_close M s = (Inr (), s\<lparr>c_mx := m, c_fds := c_fds s - {c_rd s}, c_rstatus := False,
       c_wstatus := False, c_closed := True\<rparr>)"
    "ok m" "wants m = wants (c_mx s)"
proof -
  have "ok (c_mx s)" "fits (c_rd s)" "wants (c_mx s) e (c_rd s) = None" for e
    using assms by (cases e; simp add: registered_def)+
  from close_law [OF this] show ?thesis
    using assms
    by (intro that [of "mx_close M (c_rd s) (c_mx s)"])
      (simp_all add: registered_def connection_close_def inet_close_def op_defs)
qed


section \<open>Release\<close>

text \<open>The first call may leave the connection open, to send what is left; any other closes it.\<close>

lemma stop_writing_hard:
  assumes "reg h s" and "c_releasing s \<or> \<not> c_mux_write s \<or> c_wbuf s = []"
  obtains s' where "stop_writing M s = (Inr (), s')" "reg h s'" "\<not> c_mux_write s'"
    "away wants (c_rd s) (c_mx s) (c_mx s')"
    "c_rd s' = c_rd s" "c_closed s' = c_closed s" "c_fds s' = c_fds s" "c_sent s' = c_sent s"
    "c_recursive s' = c_recursive s" "c_freed s' = c_freed s" "c_mux_read s' = c_mux_read s"
    "c_released s' = c_released s"
proof (cases "c_mux_write s")
  case True
  obtain m where m: "reset_write_handler M True s = (Inr (), s\<lparr>c_mx := m, c_mux_write := False, c_swh_count := 0\<rparr>)"
    "reg h (s\<lparr>c_mx := m, c_mux_write := False, c_swh_count := 0\<rparr>)" "away wants (c_rd s) (c_mx s) m"
    using reset_write_step [OF assms(1), of True] by auto
  have "c_has_mux s"
    using assms(1) by (simp add: registered_def)
  with True assms(2) m(1) have "stop_writing M s = (Inr (), s\<lparr>c_mx := m, c_mux_write := False, c_swh_count := 0,
      c_wstatus := False, c_releasing := False\<rparr>)"
    by (auto simp: stop_writing_def wready_def op_defs)
  from that [OF this] m(2,3) show ?thesis
    by (simp add: registered_def)
next
  case False
  then show ?thesis
    using assms by (intro that [of s]) (simp_all add: stop_writing_def op_defs)
qed

lemma release_soft:
  assumes "reg h s" "is_open s" and "\<not> c_releasing s" "c_mux_write s" "c_wbuf s \<noteq> []"
  obtains m where "release M s = (Inr False, s\<lparr>c_mx := m, c_mux_read := False, c_rstatus := False, c_releasing := True\<rparr>)"
    "reg h (s\<lparr>c_mx := m, c_mux_read := False, c_rstatus := False, c_releasing := True\<rparr>)"
    "away wants (c_rd s) (c_mx s) m"
proof -
  have 1: "reg h (s\<lparr>c_released := True\<rparr>)"
    using assms(1) by (simp add: registered_def)
  from stop_reading_step [OF this] obtain m where
    m: "stop_reading M (s\<lparr>c_released := True\<rparr>) = (Inr (), s\<lparr>c_released := True, c_mx := m, c_mux_read := False\<rparr>)"
    "reg h (s\<lparr>c_released := True, c_mx := m, c_mux_read := False\<rparr>)" "away wants (c_rd s) (c_mx s) m"
    by auto
  have "c_has_mux s" "\<not> c_released s"
    using assms(1,2) by (simp_all add: registered_def is_open_def)
  then show ?thesis
    using assms(3-) m reset_urgent_step [OF m(2)]
    by (intro that [of m])
      (auto simp: release_def mux_connection_release_def mux_filter_release_def stop_writing_def wready_def
        registered_def op_defs)
qed

lemma release_hard:
  assumes "reg h s" "is_open s" and "c_releasing s \<or> \<not> c_mux_write s \<or> c_wbuf s = []"
  obtains s' where "release M s = (Inr True, s')" "idle ok wants h s'"
    "away wants (c_rd s) (c_mx s) (c_mx s')" "c_rd s' = c_rd s" "c_wd s' = c_wd s"
    "c_fds s' = c_fds s - {c_rd s}" "c_sent s' = c_sent s" "c_recursive s' = c_recursive s"
    "c_freed s' = Suc (c_freed s)" "own wants h (c_rd s) (c_mx s')"
proof -
  have 1: "reg h (s\<lparr>c_released := True\<rparr>)"
    using assms(1) by (simp add: registered_def)
  from stop_reading_step [OF this] obtain m where
    m: "stop_reading M (s\<lparr>c_released := True\<rparr>) = (Inr (), s\<lparr>c_released := True, c_mx := m, c_mux_read := False\<rparr>)"
    "reg h (s\<lparr>c_released := True, c_mx := m, c_mux_read := False\<rparr>)" "away wants (c_rd s) (c_mx s) m"
    by auto
  let ?s2 = "s\<lparr>c_released := True, c_mx := m, c_mux_read := False, c_rstatus := False\<rparr>"
  have 2: "reg h ?s2"
    using m(2) by (simp add: registered_def)
  have "c_releasing ?s2 \<or> \<not> c_mux_write ?s2 \<or> c_wbuf ?s2 = []"
    using assms(3) by simp
  from stop_writing_hard [OF 2 this] obtain s3 where
    s3: "stop_writing M ?s2 = (Inr (), s3)" "reg h s3" "\<not> c_mux_write s3" "away wants (c_rd s) m (c_mx s3)"
    "c_rd s3 = c_rd s" "c_closed s3 = c_closed s" "c_fds s3 = c_fds s" "c_sent s3 = c_sent s"
    "c_recursive s3 = c_recursive s" "c_freed s3 = c_freed s" "\<not> c_mux_read s3" "c_released s3"
    by auto
  let ?s4 = "filter_release s3"
  have 4: "reg h ?s4" "\<not> c_mux_write ?s4" "\<not> c_mux_read ?s4" "c_closed ?s4 = c_closed s"
    "c_rd ?s4 = c_rd s" "c_wd ?s4 = c_rd s" "c_fds ?s4 = c_fds s" "c_mx ?s4 = c_mx s3" "c_released ?s4" "c_wbuf ?s4 = []"
    "c_sent ?s4 = c_sent s" "c_recursive ?s4 = c_recursive s" "c_freed ?s4 = c_freed s"
    using s3 by (auto simp: filter_release_def rclear_def wclear_def registered_def)
  have "\<not> c_closed ?s4" "c_rd ?s4 \<in> c_fds ?s4"
    using 4 assms(2) by (simp_all add: is_open_def)
  from close_step [OF 4(1,3,2) this] obtain m5 where
    m5: "connection_close M ?s4 = (Inr (), ?s4\<lparr>c_mx := m5, c_fds := c_fds ?s4 - {c_rd ?s4}, c_rstatus := False,
       c_wstatus := False, c_closed := True\<rparr>)" "ok m5" "wants m5 = wants (c_mx ?s4)" .
  let ?s' = "?s4\<lparr>c_mx := m5, c_fds := c_fds ?s4 - {c_rd ?s4}, c_rstatus := False,
       c_wstatus := False, c_closed := True, c_freed := c_freed ?s4 + 1\<rparr>"
  have "release M s = (Inr True, ?s')"
    using assms(2) m(1) reset_urgent_step [OF m(2)] s3(1,12) m5(1) 4(9)
    by (simp add: release_def mux_connection_release_def mux_filter_release_def is_open_def op_defs)
  moreover have "idle ok wants h ?s'"
  proof -
    have "wants (c_mx ?s4) e d \<noteq> Some h" for e d
      using 4(1-3) by (cases "d = c_rd ?s4"; cases e) (auto simp: registered_def)
    with 4 m5 show ?thesis
      by (auto simp: idle_def registered_def)
  qed
  moreover have "away wants (c_rd s) (c_mx s) (c_mx ?s')"
    using m(3) s3(4) m5(3) 4(8) by (auto simp: away_def)
  moreover have "c_wd s = c_rd s"
    using assms(1) by (simp add: registered_def)
  moreover have "own wants h (c_rd s) m5"
    using registered_own [OF 4(1)] m5(3) 4(5) by (simp add: own_def)
  ultimately show ?thesis
    using 4 by (intro that [of ?s']) simp_all
qed


section \<open>After a write\<close>

lemma reset_once_step:
  assumes "reg h t"
  obtains m b n where "reset_write_handler M False t = (Inr (), t\<lparr>c_mx := m, c_mux_write := b, c_swh_count := n\<rparr>)"
    "reg h (t\<lparr>c_mx := m, c_mux_write := b, c_swh_count := n\<rparr>)" "away wants (c_rd t) (c_mx t) m"
proof (cases "c_swh_count t \<le> 1")
  case True
  then show ?thesis
    using reset_write_step [OF assms, of False] that [of 0 False] by blast
next
  case False
  then show ?thesis
    using count_down_step [OF assms] assms
      that [of "c_swh_count t - 1" "c_mux_write t" "c_mx t"]
    by (auto simp: registered_def)
qed

abbreviation "good \<equiv> conn_ok ok wants fits"

lemma idle_good: "idle ok wants h s \<Longrightarrow> good h s"
  by (simp add: conn_ok_def)

lemma finish_step:
  assumes "reg h t" "is_open t" and "c_releasing t = (\<not> c_rstatus t)" "c_mux_read t = c_rstatus t"
  obtains t' where "seqS (set_write_handler_if_ready M h) (release_if_wclosed M) t = (Inr (), t')"
    "frame ok wants fits h t t'" "c_sent t' = c_sent t"
    "\<not> c_released t' \<longrightarrow> c_wbuf t' = c_wbuf t \<and> c_wstatus t' = c_wstatus t
      \<and> (flowing t' \<longleftrightarrow> c_wstatus t \<and> \<not> c_releasing t)"
    "c_released t' \<longrightarrow> \<not> c_wstatus t \<or> c_wbuf t = [] \<and> c_releasing t"
    "\<not> c_wstatus t \<longrightarrow> (c_released t' \<longleftrightarrow> c_releasing t \<or> \<not> c_mux_write t \<or> c_wbuf t = [])"
    "c_wstatus t \<longrightarrow> c_releasing t \<longrightarrow> c_wbuf t = [] \<longrightarrow> c_released t'"
proof -
  have nr: "\<not> c_released t"
    using assms(2) by (simp add: is_open_def)
  show ?thesis
  proof (cases "c_wstatus t")
    case ws: True
    show ?thesis
    proof (cases "c_wbuf t = []")
      case False
      obtain m where m: "set_write_handler M h t = (Inr (), t\<lparr>c_mx := m, c_mux_write := True, c_swh_count := c_swh_count t + 1\<rparr>)"
        "reg h (t\<lparr>c_mx := m, c_mux_write := True, c_swh_count := c_swh_count t + 1\<rparr>)" "away wants (c_rd t) (c_mx t) m"
        using set_write_step [OF assms(1) ws] by blast
      let ?t = "t\<lparr>c_mx := m, c_mux_write := True, c_swh_count := c_swh_count t + 1\<rparr>"
      have "seqS (set_write_handler_if_ready M h) (release_if_wclosed M) t = (Inr (), ?t)"
        using nr ws False m(1) by (simp add: set_write_handler_if_ready_def release_if_wclosed_def wready_def op_defs)
      moreover have "flowing ?t \<longleftrightarrow> \<not> c_releasing t" "flowing ?t \<or> ending ?t"
        using assms ws False by (auto simp: conn_defs)
      moreover have "frame ok wants fits h t ?t"
        using m(2,3) assms(2) calculation registered_own [OF m(2)] by (auto simp: frame_def conn_ok_def is_open_def)
      ultimately show ?thesis
        using nr ws False by (intro that [of ?t]) auto
    next
      case wb: True
      obtain m b n where m: "reset_write_handler M False t = (Inr (), t\<lparr>c_mx := m, c_mux_write := b, c_swh_count := n\<rparr>)"
        "reg h (t\<lparr>c_mx := m, c_mux_write := b, c_swh_count := n\<rparr>)" "away wants (c_rd t) (c_mx t) m"
        using reset_once_step [OF assms(1)] by blast
      let ?t = "t\<lparr>c_mx := m, c_mux_write := b, c_swh_count := n\<rparr>"
      have op: "is_open ?t"
        using assms(2) by (simp add: is_open_def)
      show ?thesis
      proof (cases "c_releasing t")
        case True
        then have "c_releasing ?t \<or> \<not> c_mux_write ?t \<or> c_wbuf ?t = []" by simp
        from release_hard [OF m(2) op this] obtain t' where
          t': "release M ?t = (Inr True, t')" "idle ok wants h t'" "away wants (c_rd t) m (c_mx t')"
          "c_rd t' = c_rd t" "c_fds t' = c_fds t - {c_rd t}" "c_sent t' = c_sent t"
          "c_recursive t' = c_recursive t" "c_freed t' = Suc (c_freed t)" "own wants h (c_rd t) (c_mx t')" by auto
        then have rel: "c_released t'" by (simp add: idle_def)
        have "seqS (set_write_handler_if_ready M h) (release_if_wclosed M) t = (Inr (), t')"
          using nr ws wb m(1) t'(1) True rel
          by (simp add: set_write_handler_if_ready_def release_if_wclosed_def wready_def op_defs)
        moreover have "frame ok wants fits h t t'"
          using t' rel nr away_trans [OF m(3) t'(3)] by (simp add: frame_def idle_good)
        ultimately show ?thesis
          using t' rel wb True by (intro that [of t']) auto
      next
        case False
        have "seqS (set_write_handler_if_ready M h) (release_if_wclosed M) t = (Inr (), ?t)"
          using nr ws wb m(1) False
          by (simp add: set_write_handler_if_ready_def release_if_wclosed_def wready_def op_defs)
        moreover have "flowing ?t"
          using assms ws wb False by (simp add: conn_defs)
        moreover have "frame ok wants fits h t ?t"
          using m(2,3) op nr \<open>flowing ?t\<close> registered_own [OF m(2)] by (simp add: frame_def conn_ok_def)
        ultimately show ?thesis
          using nr ws wb False by (intro that [of ?t]) auto
      qed
    qed
  next
    case ws: False
    have op: "set_write_handler_if_ready M h t = seqS (release M) (ret ()) t"
      using nr ws by (simp add: set_write_handler_if_ready_def)
    show ?thesis
    proof (cases "c_releasing t \<or> \<not> c_mux_write t \<or> c_wbuf t = []")
      case True
      from release_hard [OF assms(1,2) this] obtain t' where
        t': "release M t = (Inr True, t')" "idle ok wants h t'" "away wants (c_rd t) (c_mx t) (c_mx t')"
        "c_rd t' = c_rd t" "c_fds t' = c_fds t - {c_rd t}" "c_sent t' = c_sent t"
        "c_recursive t' = c_recursive t" "c_freed t' = Suc (c_freed t)" "own wants h (c_rd t) (c_mx t')" by auto
      then have rel: "c_released t'" by (simp add: idle_def)
      have "seqS (set_write_handler_if_ready M h) (release_if_wclosed M) t = (Inr (), t')"
        using op t'(1) rel by (simp add: release_if_wclosed_def op_defs)
      moreover have "frame ok wants fits h t t'"
        using t' rel nr by (simp add: frame_def idle_good)
      ultimately show ?thesis
        using t'(6) rel ws True by (intro that [of t']) simp_all
    next
      case False
      then obtain m where
        m: "release M t = (Inr False, t\<lparr>c_mx := m, c_mux_read := False, c_rstatus := False, c_releasing := True\<rparr>)"
        "reg h (t\<lparr>c_mx := m, c_mux_read := False, c_rstatus := False, c_releasing := True\<rparr>)"
        "away wants (c_rd t) (c_mx t) m"
        using release_soft [OF assms(1,2)] by blast
      let ?t = "t\<lparr>c_mx := m, c_mux_read := False, c_rstatus := False, c_releasing := True\<rparr>"
      have "seqS (set_write_handler_if_ready M h) (release_if_wclosed M) t = (Inr (), ?t)"
        using op m(1) by (simp add: release_if_wclosed_def op_defs)
      moreover have "ending ?t" "\<not> flowing ?t"
        using ws by (simp_all add: conn_defs)
      moreover have "frame ok wants fits h t ?t"
        using m(2,3) assms(2) nr \<open>ending ?t\<close> registered_own [OF m(2)]
        by (simp add: frame_def conn_ok_def is_open_def)
      ultimately show ?thesis
        using nr ws False by (intro that [of ?t]) auto
    qed
  qed
qed


section \<open>The operations\<close>

lemma goodE:
  assumes "good h s"
  obtains "idle ok wants h s" "\<not> flowing s" "c_released s"
    | "reg h s" "is_open s" "flowing s" "\<not> c_released s" "\<not> ending s"
    | "reg h s" "is_open s" "ending s" "\<not> c_released s" "\<not> flowing s"
  using assms by (auto simp: conn_ok_def idle_def conn_defs)

lemma good_own: "good h s \<Longrightarrow> \<not> c_released s \<Longrightarrow> own wants h (c_rd s) (c_mx s)"
  by (auto simp: conn_ok_def idle_def intro: registered_own)

lemma frame_refl: "good h s \<Longrightarrow> frame ok wants fits h s s"
  using good_own [of h s] by (simp add: frame_def)

lemma emits_refl: "\<not> flowing s \<or> \<not> r \<or> x = [] \<Longrightarrow> emits x s r s"
  by (auto simp: emits_def)

lemma wrote_reg: "reg h s \<Longrightarrow> wrote s t \<Longrightarrow> reg h t"
  by (erule wroteE) (simp add: registered_def)

lemma wrote_open: "is_open s \<Longrightarrow> wrote s t \<Longrightarrow> is_open t"
  by (erule wroteE) (simp add: is_open_def)

lemma write_data_step:
  assumes "good h s" and "write_law net" and "mux_write_data M h net d s = (r, s')"
  shows "frame ok wants fits h s s' \<and> emits d s (\<not> isl r) s'
    \<and> (\<forall>e. r = Inl e \<longrightarrow> e = write_error \<and> (\<exists>n. isl (system_write (net n))))"
  using assms(1)
proof (cases rule: goodE)
  case 1
  then have "r = Inr 0 \<and> s' = s"
    using assms(3) by (auto simp: mux_write_data_def reset_write_handler_def idle_def op_defs split: if_splits)
  then show ?thesis
    using 1 assms(1) by (simp add: frame_refl emits_refl)
next
  case 3
  then have "r = Inr 0 \<and> s' = s"
    using assms(3) by (simp add: mux_write_data_def ending_def op_defs)
  then show ?thesis
    using 3 assms(1) by (simp add: frame_refl emits_refl)
next
  case 2
  obtain q t where q: "buf_write net d s = (q, t)" by force
  have w: "wrote s t" "reg h t" "is_open t"
    using buf_write_wrote [OF q] wrote_reg [OF 2(1)] wrote_open [OF 2(2)] by auto
  have flags: "c_rstatus t" "\<not> c_releasing t" "c_mux_read t" "c_mux_write t = c_mux_write s" "\<not> c_released t"
    "c_rd t = c_rd s" "c_fds t = c_fds s" "c_freed t = c_freed s" "c_recursive t = c_recursive s" "c_mx t = c_mx s"
    using 2 wrote_conn [OF w(1)] by (simp_all add: flowing_def is_open_def)
  have step: "mux_write_data M h net d s = (case q of Inl e \<Rightarrow> (Inl e, t) | Inr rt \<Rightarrow>
      bindS (seqS (set_write_handler_if_ready M h) (release_if_wclosed M)) (\<lambda>_. ret rt) t)"
    using 2(3) q by (simp add: mux_write_data_def flowing_def op_defs split: sum.splits prod.splits)
  show ?thesis
  proof (cases q)
    case (Inl e)
    from buf_write_Inl [OF q [unfolded Inl]] buf_write_throws [OF q [unfolded Inl]] have
      e: "e = write_error" "\<exists>n. isl (system_write (net n))" "c_wstatus t = c_wstatus s" "c_sent t = c_sent s"
      "c_wbuf t = c_wbuf s \<or> c_wbuf s \<noteq> [] \<and> c_wbuf t = c_wbuf s @ d" by auto
    have fl: "flowing t"
      using 2(3) flags e by (auto simp: flowing_def)
    have "frame ok wants fits h s t"
      using w flags 2(4) fl registered_own [OF w(2)] by (simp add: frame_def conn_ok_def)
    moreover have "emits d s False t"
      using e fl 2(3,4) by (auto simp: emits_def pending_def)
    ultimately show ?thesis
      using Inl e assms(3) step by auto
  next
    case (Inr rt)
    have "c_releasing t = (\<not> c_rstatus t)" "c_mux_read t = c_rstatus t"
      using flags by simp_all
    from finish_step [OF w(2,3) this] obtain t' where
      t': "seqS (set_write_handler_if_ready M h) (release_if_wclosed M) t = (Inr (), t')"
      "frame ok wants fits h t t'" "c_sent t' = c_sent t"
      "\<not> c_released t' \<longrightarrow> c_wbuf t' = c_wbuf t \<and> c_wstatus t' = c_wstatus t
      \<and> (flowing t' \<longleftrightarrow> c_wstatus t \<and> \<not> c_releasing t)"
      "c_released t' \<longrightarrow> \<not> c_wstatus t \<or> c_wbuf t = [] \<and> c_releasing t"
      "\<not> c_wstatus t \<longrightarrow> (c_released t' \<longleftrightarrow> c_releasing t \<or> \<not> c_mux_write t \<or> c_wbuf t = [])"
      "c_wstatus t \<longrightarrow> c_releasing t \<longrightarrow> c_wbuf t = [] \<longrightarrow> c_released t'" .
    have res: "r = Inr rt" "s' = t'"
      using assms(3) step Inr t'(1) by (auto simp: bindS_def ret_def)
    have fr: "frame ok wants fits h s t'"
      using t'(2) flags 2(4) by (simp add: frame_def)
    have em: "emits d s True t'"
    proof (cases "rt = 0")
      case True
      with buf_write_stream(2) [OF assms(2) q [unfolded Inr]] t'(6)
      have "c_released t'" "c_sent t = c_sent s" by auto
      moreover have "good h t'"
        using fr by (simp add: frame_def)
      ultimately have "c_wbuf t' = []" "\<not> flowing t'"
        by (auto simp: conn_ok_def idle_def conn_defs)
      with \<open>c_sent t = c_sent s\<close> t'(3) 2(3,4) show ?thesis
        by (simp add: emits_def pending_def)
    next
      case False
      with buf_write_stream(1) [OF assms(2) q [unfolded Inr]] 2(3) flags t'(4,5)
      have "pending t = pending s @ d" "prefix (c_sent s) (c_sent t)" "c_wbuf t' = c_wbuf t"
        by (auto simp: flowing_def)
      with t'(3) 2(3,4) show ?thesis
        by (simp add: emits_def pending_def)
    qed
    show ?thesis
      using fr em res by simp
  qed
qed


lemma frame_good: "frame ok wants fits h s s' \<Longrightarrow> good h s'"
  by (simp add: frame_def)

lemma release_any:
  assumes "reg h s" "is_open s"
  obtains b s' where "release M s = (Inr b, s')" "frame ok wants fits h s s'" "c_sent s' = c_sent s"
    "\<not> c_released s' \<longrightarrow> ending s' \<and> c_wbuf s' = c_wbuf s \<and> c_wstatus s' = c_wstatus s"
    "c_released s' \<longleftrightarrow> c_releasing s \<or> \<not> c_mux_write s \<or> c_wbuf s = []"
proof (cases "c_releasing s \<or> \<not> c_mux_write s \<or> c_wbuf s = []")
  case True
  from release_hard [OF assms this] obtain s' where
    s': "release M s = (Inr True, s')" "idle ok wants h s'" "away wants (c_rd s) (c_mx s) (c_mx s')"
    "c_rd s' = c_rd s" "c_fds s' = c_fds s - {c_rd s}" "c_sent s' = c_sent s"
    "c_recursive s' = c_recursive s" "c_freed s' = Suc (c_freed s)" "own wants h (c_rd s) (c_mx s')" by auto
  then have "c_released s'" by (simp add: idle_def)
  then show ?thesis
    using s' assms(2) True that [OF s'(1)] by (simp add: frame_def idle_good is_open_def)
next
  case False
  then obtain m where
    m: "release M s = (Inr False, s\<lparr>c_mx := m, c_mux_read := False, c_rstatus := False, c_releasing := True\<rparr>)"
    "reg h (s\<lparr>c_mx := m, c_mux_read := False, c_rstatus := False, c_releasing := True\<rparr>)"
    "away wants (c_rd s) (c_mx s) m"
    using release_soft [OF assms] by blast
  let ?s = "s\<lparr>c_mx := m, c_mux_read := False, c_rstatus := False, c_releasing := True\<rparr>"
  have "ending ?s"
    using False by (simp add: conn_defs)
  then show ?thesis
    using m assms(2) False that [OF m(1)] registered_own [OF m(2)]
    by (simp add: frame_def conn_ok_def is_open_def)
qed

lemma released_empty: "good h s \<Longrightarrow> c_released s \<Longrightarrow> c_wbuf s = [] \<and> \<not> flowing s"
  by (auto simp: conn_ok_def idle_def conn_defs)

text \<open>The output after an operation that sends nothing and does not come back to use.\<close>

lemma emits_ending:
  assumes "good h s'" "c_sent s' = c_sent s" "\<not> c_released s" "\<not> c_released s' \<longrightarrow> ending s' \<and> c_wbuf s' = c_wbuf s"
  shows "emits [] s r s'"
  using assms released_empty [OF assms(1)]
  by (cases "c_released s'") (auto simp: emits_def pending_def conn_defs)

lemma release_step:
  assumes "good h s"
  obtains b s' where "release M s = (Inr b, s')" "frame ok wants fits h s s'" "emits [] s True s'"
    "\<not> flowing s \<longrightarrow> c_released s'" "\<not> flowing s'"
proof (cases "c_released s")
  case True
  then have "release M s = (Inr False, s)"
    by (simp add: release_def mux_connection_release_def mux_filter_release_def op_defs)
  then show ?thesis
    using True assms released_empty [OF assms] that [of False s] by (simp add: frame_refl emits_refl)
next
  case False
  then have *: "reg h s" "is_open s" "flowing s \<or> ending s"
    using assms by (auto simp: conn_ok_def idle_def)
  obtain b s' where
    s': "release M s = (Inr b, s')" "frame ok wants fits h s s'" "c_sent s' = c_sent s"
    "\<not> c_released s' \<longrightarrow> ending s' \<and> c_wbuf s' = c_wbuf s \<and> c_wstatus s' = c_wstatus s"
    "c_released s' \<longleftrightarrow> c_releasing s \<or> \<not> c_mux_write s \<or> c_wbuf s = []"
    by (rule release_any [OF *(1,2)])
  then have "emits [] s True s'"
    using False emits_ending by (auto simp: frame_def)
  with s' * frame_good [OF s'(2)] show ?thesis
    by (intro that [of b s']) (auto simp: conn_defs dest: released_empty)
qed

text \<open>Sending what is left, for a connection that has something left or has nothing to send.\<close>

lemma flush_step:
  assumes "reg h s" "is_open s" "flowing s \<or> ending s" "c_wstatus s" and "write_law net"
    and "mux_write M h net s = (r, s')"
  shows "frame ok wants fits h s s' \<and> emits [] s True s' \<and> (\<forall>e. r = Inl e \<longrightarrow> e = write_error)"
proof -
  obtain q t where q: "(if wready s then buf_flush net else ret 0) s = (q, t)" by force
  have w: "wrote s t"
    using q buf_flush_wrote [of net s] by (auto simp: ret_def wrote_def split: if_splits)
  note reg = wrote_reg [OF assms(1) w] and op = wrote_open [OF assms(2) w] and same = wrote_conn [OF w]
  have nr: "\<not> c_released s"
    using assms(2) by (simp add: is_open_def)
  have step: "mux_write M h net s = (case q of Inl e \<Rightarrow> (Inl e, t) | Inr rt \<Rightarrow>
      bindS (seqS (set_write_handler_if_ready M h) (release_if_wclosed M)) (\<lambda>_. ret rt) t)"
    using assms(4) q by (simp add: mux_write_def op_defs split: sum.splits prod.splits)
  show ?thesis
  proof (cases q)
    case (Inl e)
    then have "e = write_error" "t = s"
      using q buf_flush_Inl [of net s e t] by (auto simp: ret_def split: if_splits)
    then show ?thesis
      using assms(1-3,6) step Inl by (auto simp: frame_refl emits_refl conn_ok_def)
  next
    case (Inr rt)
    have str: "pending t = pending s" "prefix (c_sent s) (c_sent t)"
      using q Inr buf_flush_stream(1) [OF assms(5), of s rt t] by (auto simp: ret_def wready_def split: if_splits)
    have "c_releasing t = (\<not> c_rstatus t)" "c_mux_read t = c_rstatus t"
      using assms(3) same by (auto simp: conn_defs)
    from finish_step [OF reg op this] obtain t' where
      t': "seqS (set_write_handler_if_ready M h) (release_if_wclosed M) t = (Inr (), t')"
      "frame ok wants fits h t t'" "c_sent t' = c_sent t"
      "\<not> c_released t' \<longrightarrow> c_wbuf t' = c_wbuf t \<and> c_wstatus t' = c_wstatus t
      \<and> (flowing t' \<longleftrightarrow> c_wstatus t \<and> \<not> c_releasing t)"
      "c_released t' \<longrightarrow> \<not> c_wstatus t \<or> c_wbuf t = [] \<and> c_releasing t"
      "\<not> c_wstatus t \<longrightarrow> (c_released t' \<longleftrightarrow> c_releasing t \<or> \<not> c_mux_write t \<or> c_wbuf t = [])"
      "c_wstatus t \<longrightarrow> c_releasing t \<longrightarrow> c_wbuf t = [] \<longrightarrow> c_released t'" .
    have res: "r = Inr rt" "s' = t'"
      using assms(6) step Inr t'(1) by (auto simp: bindS_def ret_def)
    have fr: "frame ok wants fits h s t'"
      using t'(2) same by (simp add: frame_def)
    have "emits [] s True t'"
    proof (cases "c_released t'")
      case True
      moreover have "good h t'"
        using fr by (simp add: frame_def)
      ultimately have "c_wbuf t' = []" "\<not> flowing t'"
        by (auto simp: conn_ok_def idle_def conn_defs)
      then show ?thesis
        using True str t'(3) nr by (auto simp: emits_def pending_def) (metis prefixI)+
    next
      case False
      then have "pending t' = pending s" "flowing t' \<longrightarrow> flowing s"
        using str t'(3,4) same assms(3) by (auto simp: pending_def conn_defs)
      then show ?thesis
        using False str t'(3) nr by (auto simp: emits_def)
    qed
    then show ?thesis
      using fr res by simp
  qed
qed

lemma mux_write_step:
  assumes "good h s" and "write_law net" and "mux_write M h net s = (r, s')"
  shows "frame ok wants fits h s s' \<and> emits [] s True s' \<and> (\<forall>e. r = Inl e \<longrightarrow> e = write_error)"
proof (cases "c_wstatus s")
  case True
  with assms(1) have "reg h s" "is_open s" "flowing s \<or> ending s"
    by (auto simp: conn_ok_def idle_def)
  then show ?thesis
    using flush_step True assms(2,3) by blast
next
  case False
  then have eq: "mux_write M h net s = seqS (reset_write_handler M True) (ret 0) s"
    by (simp add: mux_write_def)
  from assms(1) show ?thesis
  proof (cases rule: goodE)
    case 1
    then have "r = Inr 0 \<and> s' = s"
      using eq assms(3) by (simp add: reset_write_handler_def idle_def op_defs)
    then show ?thesis
      using assms(1) by (simp add: frame_refl emits_refl)
  next
    case 2
    then show ?thesis
      using False by (simp add: flowing_def)
  next
    case 3
    obtain m where m: "reset_write_handler M True s = (Inr (), s\<lparr>c_mx := m, c_mux_write := False, c_swh_count := 0\<rparr>)"
      "reg h (s\<lparr>c_mx := m, c_mux_write := False, c_swh_count := 0\<rparr>)" "away wants (c_rd s) (c_mx s) m"
      using reset_write_step [OF 3(1), of True] by blast
    then have "r = Inr 0" "s' = s\<lparr>c_mx := m, c_mux_write := False, c_swh_count := 0\<rparr>"
      using eq assms(3) by (simp_all add: bindS_def ret_def)
    then show ?thesis
      using m 3 False registered_own [OF m(2)]
      by (simp add: frame_def conn_ok_def conn_defs emits_def pending_def)
  qed
qed


section \<open>Reading\<close>

text \<open>What a function that the connection is handed to may do.\<close>

definition serves :: "nat \<Rightarrow> string \<Rightarrow> (('m, 'z) conn_scheme, 'x) op \<Rightarrow> bool" where
  "serves h x f \<longleftrightarrow> (\<forall>s r s'. good h s \<longrightarrow> f s = (r, s') \<longrightarrow>
     frame ok wants fits h s s' \<and> emits x s (\<not> isl r) s')"

lemma run_cmd_serves: "cmd_law c \<Longrightarrow> serves h (cmds_data [c]) (run_cmd M h c)"
proof (cases c)
  case (Write_cmd d net)
  assume "cmd_law c"
  with Write_cmd write_data_step show ?thesis
    unfolding serves_def run_cmd_def
    by (fastforce simp: op_defs split: sum.splits prod.splits)
next
  case Release_cmd
  show ?thesis
    unfolding serves_def run_cmd_def Release_cmd
    by (auto simp: op_defs elim!: release_step)
next
  case (Throw_cmd e)
  then show ?thesis
    by (auto simp: serves_def run_cmd_def raise_def frame_refl emits_refl)
qed


lemma servesD:
  "serves h x f \<Longrightarrow> good h s \<Longrightarrow> f s = (r, s') \<Longrightarrow> frame ok wants fits h s s' \<and> emits x s (\<not> isl r) s'"
  by (simp add: serves_def)

lemma serves_seq:
  assumes "serves h x f" and "serves h y g"
  shows "serves h (x @ y) (seqS f g)"
  unfolding serves_def
proof (intro allI impI)
  fix s r s'
  assume s: "good h s" "seqS f g s = (r, s')"
  obtain q t where q: "f s = (q, t)" by force
  note f = servesD [OF assms(1) s(1) q]
  show "frame ok wants fits h s s' \<and> emits (x @ y) s (\<not> isl r) s'"
  proof (cases q)
    case (Inl e)
    then have "r = Inl e" "s' = t"
      using q s(2) by (auto simp: bindS_def)
    then show ?thesis
      using f emits_more by auto
  next
    case (Inr a)
    then have "g t = (r, s')"
      using q s(2) by (simp add: bindS_def)
    then have "frame ok wants fits h t s' \<and> emits y t (\<not> isl r) s'"
      using servesD [OF assms(2)] f frame_good by blast
    then show ?thesis
      using f Inr frame_trans emits_trans by fastforce
  qed
qed

lemma run_cmds_serves: "list_all cmd_law cs \<Longrightarrow> serves h (cmds_data cs) (run_cmds M h cs)"
proof (induction cs)
  case Nil
  then show ?case by (auto simp: serves_def ret_def frame_refl emits_refl)
next
  case (Cons c cs)
  have "cmds_data (c # cs) = cmds_data [c] @ cmds_data cs"
    by (cases c) simp_all
  then show ?case
    using serves_seq [OF run_cmd_serves [of c] Cons.IH] Cons.prems by simp
qed

text \<open>The read buffer is no part of the invariant.\<close>

definition rbuffered :: "('m, 'z) conn_scheme \<Rightarrow> ('m, 'z) conn_scheme \<Rightarrow> bool" where
  "rbuffered s t \<longleftrightarrow> (\<exists>b l c. t = s\<lparr>c_rbuf := b, c_rlock := l, c_rclear := c\<rparr>)"

lemma rbufferedI [simp]: "rbuffered s (s\<lparr>c_rbuf := b, c_rlock := l, c_rclear := c\<rparr>)"
  by (auto simp: rbuffered_def)

lemma rbuffered_lock [simp]: "rbuffered s (lock_buffer (s\<lparr>c_rbuf := b\<rparr>))"
  unfolding rbuffered_def lock_buffer_def
  by (rule exI [of _ b], rule exI [of _ True], rule exI [of _ "c_rclear s"]) simp

lemma rbuffered_unlock [simp]: "rbuffered s (unlock_buffer s)"
  unfolding rbuffered_def unlock_buffer_def
  by (rule exI [of _ "if c_rlock s \<and> c_rclear s then [] else c_rbuf s"], rule exI [of _ False],
      rule exI [of _ False]) simp

lemma rbuffered_store [simp]: "rbuffered s (s\<lparr>c_rbuf := b\<rparr>)"
  unfolding rbuffered_def
  by (rule exI [of _ b], rule exI [of _ "c_rlock s"], rule exI [of _ "c_rclear s"]) simp

lemma rbuffered_good: "rbuffered s t \<Longrightarrow> good h s \<Longrightarrow> good h t"
  unfolding rbuffered_def by (elim exE) (simp add: conn_ok_def idle_def registered_def conn_defs)

lemma rbuffered_frame:
  assumes "rbuffered s t" "good h s"
  shows "frame ok wants fits h s t"
proof -
  have "c_recursive t = c_recursive s" "c_rd t = c_rd s" "c_mx t = c_mx s" "c_released t = c_released s"
    "c_fds t = c_fds s" "c_freed t = c_freed s"
    using assms(1) by (auto simp: rbuffered_def)
  then show ?thesis
    using rbuffered_good [OF assms] good_own [OF assms(2)] by (simp add: frame_def)
qed

lemma rbuffered_emits: "rbuffered s t \<Longrightarrow> emits [] s r t"
  unfolding rbuffered_def by (elim exE) (simp add: emits_def pending_def flowing_def)

lemma rbuffered_serves: "(\<And>s. rbuffered s (f s)) \<Longrightarrow> serves h [] (upd f)"
  by (auto simp: serves_def upd_def rbuffered_frame rbuffered_emits)

text \<open>The bytes a reader writes when a block arrives.\<close>

definition reads :: "sysread \<Rightarrow> (string \<Rightarrow> string) \<Rightarrow> string" where
  "reads inp x = (case inp of Data d \<Rightarrow> if d = [] then [] else x d | Rfail _ \<Rightarrow> [])"


lemma serves_ret: "serves h [] (ret x)"
  by (auto simp: serves_def ret_def frame_refl emits_refl)

lemma serves_raise: "serves h [] (raise e)"
  by (auto simp: serves_def raise_def frame_refl emits_refl)

text \<open>An operation, and what runs after it whether it throws or not.\<close>

lemma serves_finally:
  assumes "serves h x f" and "\<And>s. rbuffered s (u s)"
  shows "serves h x (bindS (catchS f (\<lambda>e. seqS (upd u) (raise e))) (\<lambda>rt. seqS (upd u) (ret rt)))"
  unfolding serves_def
proof (intro allI impI)
  fix s r s'
  assume s: "good h s" "bindS (catchS f (\<lambda>e. seqS (upd u) (raise e))) (\<lambda>rt. seqS (upd u) (ret rt)) s = (r, s')"
  obtain q t where q: "f s = (q, t)" by force
  have res: "r = q" "s' = u t"
    using s(2) q by (auto simp: op_defs split: sum.splits)
  have f: "frame ok wants fits h s t" "emits x s (\<not> isl q) t"
    using servesD [OF assms(1) s(1) q] by auto
  have u: "frame ok wants fits h t (u t)" "emits [] t True (u t)" "pending (u t) = pending t"
    "flowing (u t) = flowing t" "c_sent (u t) = c_sent t" "c_released (u t) = c_released t"
    using assms(2) [of t] rbuffered_frame [of t "u t"] rbuffered_emits [of t "u t"] frame_good [OF f(1)]
    by (auto simp: rbuffered_def pending_def flowing_def)
  show "frame ok wants fits h s s' \<and> emits x s (\<not> isl r) s'"
    using frame_trans [OF f(1) u(1)] f(2) u(3-6) by (simp add: res emits_def)
qed

text \<open>Everything but the end of the stream.\<close>

lemma binary_read_serves:
  assumes "\<And>d. d \<noteq> [] \<Longrightarrow> serves h (x d) (on_read d)" and "system_read inp \<noteq> Inr 0"
  shows "serves h (reads inp x) (binary_read on_read inp)"
proof (cases "system_read inp")
  case (Inl e)
  then have "binary_read on_read inp = raise e" "reads inp x = []"
    by (auto simp: binary_read_def ad_file_read_def op_defs reads_def system_read_def fun_eq_iff split: sysread.splits)
  then show ?thesis by (simp add: serves_raise)
next
  case (Inr rs)
  show ?thesis
  proof (cases inp)
    case (Data d)
    then have d: "rs = int (length d)" "d \<noteq> []"
      using Inr assms(2) by (auto simp: system_read_def)
    let ?store = "\<lambda>s. s\<lparr>c_rbuf := d @ drop (length d) (c_rbuf s)\<rparr>"
    have "binary_read on_read inp = seqS (upd ?store) (seqS (on_read d) (ret rs))"
      using Data d by (simp add: binary_read_def ad_file_read_def op_defs system_read_def fun_eq_iff)
    moreover have "serves h ([] @ x d @ []) (seqS (upd ?store) (seqS (on_read d) (ret rs)))"
      using d(2) assms(1) by (intro serves_seq rbuffered_serves serves_ret) simp_all
    ultimately show ?thesis
      using Data d(2) by (simp add: reads_def)
  next
    case (Rfail err)
    then have "rs = - 1"
      using Inr assms(2) by (auto simp: system_read_def failed_def split: if_splits)
    then have "binary_read on_read inp = ret rs"
      using Inr by (simp add: binary_read_def ad_file_read_def op_defs fun_eq_iff)
    then show ?thesis
      using Rfail by (simp add: reads_def serves_ret)
  qed
qed

lemma buf_read_serves:
  assumes "\<And>d. d \<noteq> [] \<Longrightarrow> serves h (x d) (on_read d)" and "system_read inp \<noteq> Inr 0"
  shows "serves h (reads inp x) (buf_read on_read inp)"
proof -
  have "serves h ([] @ reads inp x) (buf_read on_read inp)"
    unfolding buf_read_def
    using assms by (intro serves_seq rbuffered_serves serves_finally binary_read_serves) simp_all
  then show ?thesis by simp
qed


lemma rclosed_good: "good h s \<Longrightarrow> release_if_rclosed M s = (Inr (), s)"
  by (auto simp: release_if_rclosed_def ret_def conn_ok_def idle_def conn_defs)

lemma eof_state:
  assumes "system_read inp = Inr 0"
  obtains t where "buf_read on_read inp s = (Inr 0, t\<lparr>c_rstatus := False\<rparr>)" "rbuffered s t"
proof
  let ?l = "lock_buffer (s\<lparr>c_rbuf := resize read_size (c_rbuf s)\<rparr>)"
  show "buf_read on_read inp s = (Inr 0, (unlock_buffer ?l)\<lparr>c_rstatus := False\<rparr>)"
    using assms
    by (simp add: buf_read_def binary_read_def ad_file_read_def op_defs unlock_buffer_def)
  show "rbuffered s (unlock_buffer ?l)"
    unfolding rbuffered_def
    by (rule exI [of _ "if c_rclear s then [] else resize read_size (c_rbuf s)"], rule exI [of _ False],
        rule exI [of _ False]) (simp add: unlock_buffer_def lock_buffer_def)
qed

lemma mux_read_serves:
  assumes "\<And>d. d \<noteq> [] \<Longrightarrow> serves h (x d) (on_read d)"
  shows "serves h (reads inp x) (mux_read M on_read inp)"
proof (cases "system_read inp = Inr 0")
  case False
  have "serves h (reads inp x @ []) (mux_read M on_read inp)"
    unfolding serves_def
  proof (intro allI impI)
    fix s r s'
    assume s: "good h s" "mux_read M on_read inp s = (r, s')"
    obtain q t where q: "buf_read on_read inp s = (q, t)" by force
    note f = servesD [OF buf_read_serves [OF assms False] s(1) q]
    have "release_if_rclosed M t = (Inr (), t)"
      using f frame_good rclosed_good by blast
    then have "r = q" "s' = t"
      using s(2) q by (auto simp: mux_read_def op_defs split: sum.splits)
    then show "frame ok wants fits h s s' \<and> emits (reads inp x @ []) s (\<not> isl r) s'"
      using f by simp
  qed
  then show ?thesis by simp
next
  case True
  then have none: "reads inp x = []"
    by (auto simp: reads_def system_read_def split: sysread.splits)
  show ?thesis
    unfolding serves_def none
  proof (intro allI impI)
    fix s r s'
    assume s: "good h s" "mux_read M on_read inp s = (r, s')"
    obtain t where t: "buf_read on_read inp s = (Inr 0, t\<lparr>c_rstatus := False\<rparr>)" "rbuffered s t"
      using eof_state [OF True] .
    let ?t = "t\<lparr>c_rstatus := False\<rparr>"
    have t': "good h t" "frame ok wants fits h s t" "emits [] s True t"
      using t(2) s(1) rbuffered_frame rbuffered_emits frame_good by blast+
    show "frame ok wants fits h s s' \<and> emits [] s (\<not> isl r) s'"
    proof (cases "flowing t")
      case False
      then have "?t = t"
        using t'(1) by (auto simp: conn_ok_def idle_def conn_defs)
      then show ?thesis
        using t t' s(2) rclosed_good [OF t'(1)] by (auto simp: mux_read_def op_defs)
    next
      case fl: True
      then have open_t: "reg h ?t" "is_open ?t" "\<not> c_releasing ?t" "\<not> c_released t"
        using t'(1) by (auto simp: conn_ok_def idle_def registered_def conn_defs)
      obtain b u where
        u: "release M ?t = (Inr b, u)" "frame ok wants fits h ?t u" "c_sent u = c_sent ?t"
        "\<not> c_released u \<longrightarrow> ending u \<and> c_wbuf u = c_wbuf ?t \<and> c_wstatus u = c_wstatus ?t"
        by (rule release_any [OF open_t(1,2)])
      have res: "r = Inr 0" "s' = u"
        using s(2) t(1) u(1) open_t(3,4)
        by (auto simp: mux_read_def release_if_rclosed_def op_defs)
      have "frame ok wants fits h t u"
        using u(2) by (simp add: frame_def)
      moreover have "emits [] t True u"
        using u open_t(4) frame_good [OF u(2)] by (intro emits_ending) auto
      ultimately show ?thesis
        using res t'(2,3) frame_trans emits_trans by fastforce
    qed
  qed
qed

end

end
