(* ===== verification/Connection_Runs.thy ===== *)
theory Connection_Runs
  imports Connection_Laws
begin

text \<open>
  Histories of a connection: what the multiplexer reports, what the threads of the daemon write to it,
  and how it comes to an end.
\<close>

section \<open>Histories\<close>

text \<open>
  A thread of a pool does not catch the exception of a write that fails for good, which ends the
  daemon; a history has no such write.
\<close>

fun happening_law :: "happening \<Rightarrow> bool" where
  "happening_law (Writes d net) \<longleftrightarrow> write_law net \<and> (\<forall>n. \<not> isl (system_write (net n)))"
| "happening_law Releases \<longleftrightarrow> True"
| "happening_law (Readable inp cb) \<longleftrightarrow> (\<forall>d. list_all cmd_law (cb d))"
| "happening_law (Writable net) \<longleftrightarrow> write_law net"
| "happening_law Broken \<longleftrightarrow> True"

text \<open>The bytes that are written to the connection, in their order.\<close>

fun happening_data :: "happening \<Rightarrow> string" where
  "happening_data (Writes d net) = d"
| "happening_data Releases = []"
| "happening_data (Readable inp cb) = (case inp of Data d \<Rightarrow> if d = [] then [] else cmds_data (cb d) | Rfail _ \<Rightarrow> [])"
| "happening_data (Writable net) = []"
| "happening_data Broken = []"

definition written_data :: "happening list \<Rightarrow> string" where
  "written_data xs = concat (map happening_data xs)"

lemma written_data_simps [simp]: "written_data [] = []" "written_data (x # xs) = happening_data x @ written_data xs"
  by (simp_all add: written_data_def)

text \<open>The socket takes at least one byte whenever it is said to be writable.\<close>

definition takes :: "(nat \<Rightarrow> sysret) \<Rightarrow> bool" where
  "takes net \<longleftrightarrow> (\<forall>n. \<exists>k. net n = Ret k \<and> k \<le> n \<and> (0 < n \<longrightarrow> 0 < k))"

lemma takes_write_law: "takes net \<Longrightarrow> write_law net"
  unfolding takes_def write_law_def by (metis sysret.inject(1))

lemma emits_stopped: "emits x s r s' \<Longrightarrow> \<not> flowing s' \<Longrightarrow> emits x s r' s'"
  by (simp add: emits_def)

lemma emits_stop: "emits x s r t \<Longrightarrow> emits [] t r' u \<Longrightarrow> \<not> flowing u \<Longrightarrow> emits x s r'' u"
  unfolding emits_def by (auto intro: prefix_order.trans)

context imux_laws
begin

lemma recursive_frame:
  "frame ok wants fits h (s\<lparr>c_recursive := n\<rparr>) t \<Longrightarrow> frame ok wants fits h s (t\<lparr>c_recursive := c_recursive s\<rparr>)"
  by (auto simp: frame_def conn_ok_def idle_def registered_def conn_defs)

lemma recursive_emits: "emits x (s\<lparr>c_recursive := n\<rparr>) r t \<Longrightarrow> emits x s r (t\<lparr>c_recursive := m\<rparr>)"
  by (auto simp: emits_def pending_def flowing_def)

lemma recursive_good: "good h (s\<lparr>c_recursive := n\<rparr>) = good h s"
  by (simp add: conn_ok_def idle_def registered_def conn_defs)

lemma ad_exception_step:
  assumes "good h s"
  obtains s' where "ad_exception M e s = (Inl e, s')" "frame ok wants fits h s s'" "emits [] s True s'" "c_released s'"
proof -
  obtain b t where t: "release M s = (Inr b, t)" "frame ok wants fits h s t" "emits [] s True t" "\<not> flowing t"
    using release_step [OF assms] by blast
  obtain b' u where u: "release M t = (Inr b', u)" "frame ok wants fits h t u" "emits [] t True u" "c_released u"
    using release_step [OF frame_good [OF t(2)]] t(4) by blast
  have "ad_exception M e s = (Inl e, u)"
    using t(1) u(1) by (simp add: ad_exception_def op_defs)
  then show ?thesis
    using that [of u] frame_trans [OF t(2) u(2)] emits_trans [OF t(3) u(3)] u(4) by simp
qed

lemma guarded_step:
  assumes "serves h x f" and "good h s" and "c_recursive s = 0" and "guarded M f s = (r, s')"
  shows "frame ok wants fits h s s' \<and> emits x s True s' \<and> (isl r \<longrightarrow> c_released s')"
proof -
  obtain q t where q: "f (s\<lparr>c_recursive := 1\<rparr>) = (q, t)" by force
  have f: "frame ok wants fits h (s\<lparr>c_recursive := 1\<rparr>) t" "emits x (s\<lparr>c_recursive := 1\<rparr>) (\<not> isl q) t"
    using servesD [OF assms(1) _ q] assms(2) by (simp_all add: recursive_good)
  have "c_recursive t = 1"
    using f(1) by (simp add: frame_def)
  let ?t = "t\<lparr>c_recursive := 0\<rparr>"
  have t: "frame ok wants fits h s ?t" "emits x s (\<not> isl q) ?t"
    using recursive_frame [OF f(1)] recursive_emits [OF f(2)] assms(3) by simp_all
  show ?thesis
  proof (cases q)
    case (Inr a)
    then have "r = Inr ()" "s' = ?t"
      using assms(3,4) q \<open>c_recursive t = 1\<close> by (auto simp: guarded_def op_defs)
    with t Inr show ?thesis by simp
  next
    case (Inl e)
    obtain u where u: "ad_exception M e ?t = (Inl e, u)" "frame ok wants fits h ?t u" "emits [] ?t True u" "c_released u"
      using ad_exception_step [OF frame_good [OF t(1)]] .
    have "guarded M f s = ad_exception M e ?t"
      using assms(3) q Inl \<open>c_recursive t = 1\<close> by (simp add: guarded_def op_defs)
    then have "r = Inl e" "s' = u"
      using assms(4) u(1) by auto
    moreover have "emits x s True u"
      using t(2) u(3,4) released_empty [OF frame_good [OF u(2)]] by (blast intro: emits_stop)
    ultimately show ?thesis
      using frame_trans [OF t(1) u(2)] u(4) by simp
  qed
qed

lemma serves_void: "serves h x f \<Longrightarrow> serves h x (seqS f (ret ()))"
  using serves_seq [OF _ serves_ret, of h x f "()"] by simp

lemma mux_write_serves: "write_law net \<Longrightarrow> serves h [] (mux_write M h net)"
  unfolding serves_def by (auto dest!: mux_write_step simp: emits_def)

lemma release_serves: "serves h [] (release M)"
  unfolding serves_def by (auto elim!: release_step)

lemma happen_step:
  assumes "happening_law x" and "good h s" and "c_recursive s = 0"
  shows "frame ok wants fits h s (happen M h x s) \<and> emits (happening_data x) s True (happen M h x s)"
proof (cases x)
  case (Writes d net)
  obtain r s' where w: "mux_write_data M h net d s = (r, s')" by force
  have "write_law net" "\<not> isl r"
    using write_data_step [OF assms(2) _ w] assms(1) Writes by (auto simp: isl_def)
  then show ?thesis
    using write_data_step [OF assms(2) _ w] w Writes by (simp add: happen_def)
next
  case Releases
  obtain b s' where "release M s = (Inr b, s')" "frame ok wants fits h s s'" "emits [] s True s'"
    using release_step [OF assms(2)] by blast
  then show ?thesis
    using Releases by (simp add: happen_def)
next
  case (Readable inp cb)
  show ?thesis
  proof (cases "c_mux_read s")
    case False
    then have "\<not> flowing s" by (simp add: flowing_def)
    with False Readable assms(2) show ?thesis
      by (simp add: happen_def frame_refl emits_refl)
  next
    case True
    let ?cb = "\<lambda>d. run_cmds M h (cb d)"
    have "serves h (reads inp (\<lambda>d. cmds_data (cb d))) (seqS (mux_read M ?cb inp) (ret ()))"
      using assms(1) Readable by (intro serves_void mux_read_serves run_cmds_serves) simp
    from guarded_step [OF this assms(2,3)] show ?thesis
      using True Readable by (cases "guarded M (seqS (mux_read M ?cb inp) (ret ())) s")
        (simp add: happen_def ready_read_def reads_def)
  qed
next
  case (Writable net)
  then show ?thesis
    using guarded_step [OF serves_void [OF mux_write_serves] assms(2,3)] assms
    by (cases "guarded M (seqS (mux_write M h net) (ret ())) s")
      (simp add: happen_def ready_write_def frame_refl emits_refl)
next
  case Broken
  have "c_wd s = c_rd s" if "c_mux_read s \<or> c_mux_write s"
    using that assms(2) by (auto simp: conn_ok_def idle_def registered_def)
  then show ?thesis
    using Broken guarded_step [OF serves_void [OF release_serves] assms(2,3)] assms
    by (cases "guarded M (seqS (release M) (ret ())) s")
      (simp add: happen_def ready_error_def frame_refl emits_refl)
qed


lemma happens_step:
  assumes "list_all happening_law xs" and "good h s" and "c_recursive s = 0"
  shows "frame ok wants fits h s (happens M h xs s) \<and> emits (written_data xs) s True (happens M h xs s)"
  using assms
proof (induction xs arbitrary: s)
  case Nil
  then show ?case by (simp add: frame_refl emits_refl)
next
  case (Cons x xs)
  let ?t = "happen M h x s"
  have t: "frame ok wants fits h s ?t" "emits (happening_data x) s True ?t"
    using happen_step Cons.prems by auto
  have "frame ok wants fits h ?t (happens M h xs ?t) \<and> emits (written_data xs) ?t True (happens M h xs ?t)"
    using t(1) Cons.prems by (intro Cons.IH) (simp_all add: frame_def)
  then show ?case
    using t frame_trans emits_trans by fastforce
qed

text \<open>A socket that may be full but does not fail keeps a connection in use.\<close>

lemma finish_kept:
  assumes "good h s" "flowing s" "wrote s t" "c_wstatus t"
  obtains t' where "seqS (set_write_handler_if_ready M h) (release_if_wclosed M) t = (Inr (), t')" "flowing t'"
proof -
  have s: "reg h s" "is_open s" "\<not> c_releasing s" "c_rstatus s" "c_mux_read s"
    using assms(1,2) by (auto simp: conn_ok_def idle_def conn_defs)
  have flags: "c_rstatus t" "\<not> c_releasing t" "c_mux_read t"
    using s wrote_conn [OF assms(3)] by simp_all
  then have "c_releasing t = (\<not> c_rstatus t)" "c_mux_read t = c_rstatus t"
    by simp_all
  from finish_step [OF wrote_reg [OF s(1) assms(3)] wrote_open [OF s(2) assms(3)] this] obtain t' where
    t': "seqS (set_write_handler_if_ready M h) (release_if_wclosed M) t = (Inr (), t')"
    "\<not> c_released t' \<longrightarrow> flowing t' = (c_wstatus t \<and> \<not> c_releasing t)"
    "c_released t' \<longrightarrow> \<not> c_wstatus t \<or> c_wbuf t = [] \<and> c_releasing t" by metis
  then show ?thesis
    using that flags assms(4) by blast
qed

lemma write_kept:
  assumes "good h s" "flowing s" "d \<noteq> []" "write_law net" and net: "\<And>n. 0 < n \<Longrightarrow> \<exists>rt. system_write (net n) = Inr rt \<and> rt \<noteq> 0"
  obtains k s' where "mux_write_data M h net d s = (Inr k, s')" "frame ok wants fits h s s'" "emits d s True s'" "flowing s'"
proof -
  have s: "\<not> c_releasing s" "c_wstatus s"
    using assms(2) by (simp_all add: flowing_def)
  obtain a b where ab: "system_write (net (length d)) = Inr a" "a \<noteq> 0"
    "system_write (net (length (c_wbuf s) + length d)) = Inr b" "b \<noteq> 0"
    using net [of "length d"] net [of "length (c_wbuf s) + length d"] assms(3) by auto
  have "\<exists>rt t. buf_write net d s = (Inr rt, t) \<and> c_wstatus t"
    using ab assms(3) s(2)
    by (cases "c_wbuf s = []") (simp_all add: buf_write_def binary_write_def ad_file_write_def op_defs Let_def)
  then obtain rt t where q: "buf_write net d s = (Inr rt, t)" "c_wstatus t" by blast
  obtain t' where t': "seqS (set_write_handler_if_ready M h) (release_if_wclosed M) t = (Inr (), t')" "flowing t'"
    by (rule finish_kept [OF assms(1,2) buf_write_wrote [OF q(1)] q(2)])
  have "mux_write_data M h net d s = (Inr rt, t')"
    using s q t'(1) by (auto simp: mux_write_data_def op_defs split: sum.splits prod.splits)
  then show ?thesis
    using that t'(2) write_data_step [OF assms(1,4)] by fastforce
qed

lemma flush_kept:
  assumes "good h s" "flowing s" "write_law net" and net: "\<And>n. 0 < n \<Longrightarrow> \<exists>rt. system_write (net n) = Inr rt \<and> rt \<noteq> 0"
  obtains k s' where "mux_write M h net s = (Inr k, s')" "frame ok wants fits h s s'" "emits [] s True s'" "flowing s'"
proof -
  have s: "c_wstatus s"
    using assms(2) by (simp add: flowing_def)
  obtain a where a: "c_wbuf s \<noteq> [] \<longrightarrow> system_write (net (length (c_wbuf s))) = Inr a \<and> a \<noteq> 0"
    using net [of "length (c_wbuf s)"] by (cases "c_wbuf s = []") auto
  have "\<exists>rt t. (if wready s then buf_flush net else ret 0) s = (Inr rt, t) \<and> c_wstatus t \<and> wrote s t"
    using a s by (auto simp: wready_def buf_flush_def binary_write_def ad_file_write_def op_defs wrote_def)
  then obtain rt t where q: "(if wready s then buf_flush net else ret 0) s = (Inr rt, t)" "c_wstatus t" "wrote s t" by blast
  obtain t' where t': "seqS (set_write_handler_if_ready M h) (release_if_wclosed M) t = (Inr (), t')" "flowing t'"
    by (rule finish_kept [OF assms(1,2) q(3,2)])
  have w: "mux_write M h net s = (Inr rt, t')"
    using s q(1) t'(1) by (auto simp: mux_write_def op_defs split: sum.splits prod.splits if_splits)
  then show ?thesis
    using that t'(2) mux_write_step [OF assms(1,3) w] by (simp add: emits_def)
qed

section \<open>A new connection\<close>

lemma assign_step:
  assumes "idle ok wants h s" "d \<in> c_fds s" "fits d" "\<And>e. wants (c_mx s) e d = None"
  obtains s' where "assign M h d l a s = (Inr (), s')" "good h s'" "flowing s'" "c_rd s' = d" "c_wbuf s' = []"
    "c_sent s' = c_sent s" "c_recursive s' = c_recursive s" "c_fds s' = c_fds s" "c_freed s' = c_freed s"
    "away wants d (c_mx s) (c_mx s')" "\<not> c_released s'"
proof -
  have ok: "ok (c_mx s)" using assms(1) by (simp add: idle_def)
  obtain old m where m: "mx_set M Ev_read d h (c_mx s) = (Inr old, m)" "ok m"
    "wants m = (wants (c_mx s))(Ev_read := (wants (c_mx s) Ev_read)(d := Some h))"
    using setE [OF ok assms(3), of h Ev_read] assms(4) by auto
  define t where "t = filter_assign d d (s\<lparr>c_local := l, c_remote := a, c_closed := False, c_releasing := False,
      c_released := False\<rparr>)"
  have t: "\<not> c_released t" "c_wstatus t" "c_rstatus t" "c_wbuf t = []" "c_has_mux t" "c_mx t = c_mx s" "\<not> c_releasing t"
    "c_rd t = d" "c_wd t = d" "\<not> c_closed t" "c_fds t = c_fds s" "c_freed t = c_freed s" "c_recursive t = c_recursive s"
    "c_sent t = c_sent s" "\<not> c_mux_urgent t" "\<not> c_mux_write t" "c_swh_count t = 0"
    using assms(1) by (simp_all add: t_def filter_assign_def set_rd_def set_wd_def rclear_def wclear_def idle_def)
  let ?s = "t\<lparr>c_mx := m, c_mux_read := True, c_closed := False\<rparr>"
  have "assign M h d l a s = (Inr (), ?s)"
    using assms(1) m(1) t
    by (simp add: assign_def mux_filter_assign_def op_defs idle_def on_mux_def t_def [symmetric]
        set_write_handler_if_ready_def reset_write_handler_def wready_def)
  moreover have "registered ok wants fits h ?s"
    using assms t m by (auto simp: registered_def idle_def)
  moreover have "is_open ?s" "flowing ?s"
    using assms(2) t by (simp_all add: is_open_def flowing_def)
  moreover have "away wants d (c_mx s) m"
    using m(3) by (simp add: away_def)
  ultimately show ?thesis
    using t by (intro that [of ?s]) (simp_all add: conn_ok_def)
qed

section \<open>The end of a connection\<close>


lemma drain_step:
  assumes "good h s" "ending s" "c_wstatus s" "takes net" "c_recursive s = 0" "\<not> c_released s"
  defines "s' \<equiv> happen M h (Writable net) s"
  shows "c_released s' \<and> c_sent s' = pending s
    \<or> good h s' \<and> ending s' \<and> c_wstatus s' \<and> \<not> c_released s' \<and> pending s' = pending s
      \<and> length (c_wbuf s') < length (c_wbuf s) \<and> c_recursive s' = 0"
proof -
  have s: "reg h s" "is_open s" "c_mux_write s" "c_wbuf s \<noteq> []" "c_releasing s"
    using assms(1,2,3,6) by (auto simp: conn_ok_def idle_def conn_defs)
  obtain k where k: "net (length (c_wbuf s)) = Ret k" "0 < k" "k \<le> length (c_wbuf s)"
    using assms(4) s(4) unfolding takes_def by (metis length_greater_0_conv)
  define u where "u = s\<lparr>c_recursive := 1\<rparr>"
  define t where "t = u\<lparr>c_sent := c_sent s @ take k (c_wbuf s), c_wbuf := drop k (c_wbuf s)\<rparr>"
  have flush: "buf_flush net u = (Inr (int k), t)"
    using k s(4) by (auto simp: u_def t_def buf_flush_def binary_write_def ad_file_write_def system_write_def op_defs)
  have t: "reg h t" "is_open t" "c_wstatus t" "c_releasing t" "\<not> c_rstatus t" "\<not> c_mux_read t" "pending t = pending s"
    "length (c_wbuf t) < length (c_wbuf s)" "c_recursive t = 1" "\<not> c_released t"
    using s assms(2,3,6) k by (auto simp: t_def u_def registered_def conn_defs pending_def)
  have "c_releasing t = (\<not> c_rstatus t)" "c_mux_read t = c_rstatus t"
    using t by simp_all
  from finish_step [OF t(1,2) this] obtain t' where
    t': "seqS (set_write_handler_if_ready M h) (release_if_wclosed M) t = (Inr (), t')"
    "frame ok wants fits h t t'" "c_sent t' = c_sent t"
    "\<not> c_released t' \<longrightarrow> c_wbuf t' = c_wbuf t \<and> c_wstatus t' = c_wstatus t
      \<and> (flowing t' \<longleftrightarrow> c_wstatus t \<and> \<not> c_releasing t)"
    "c_released t' \<longrightarrow> \<not> c_wstatus t \<or> c_wbuf t = [] \<and> c_releasing t"
    "\<not> c_wstatus t \<longrightarrow> (c_released t' \<longleftrightarrow> c_releasing t \<or> \<not> c_mux_write t \<or> c_wbuf t = [])"
    "c_wstatus t \<longrightarrow> c_releasing t \<longrightarrow> c_wbuf t = [] \<longrightarrow> c_released t'" .
  have "mux_write M h net u = (Inr (int k), t')"
    using assms(3) s(4) flush t'(1)
    by (auto simp: mux_write_def u_def wready_def op_defs split: sum.splits prod.splits)
  moreover have "c_recursive t' = 1"
    using t'(2) t(9) by (simp add: frame_def)
  ultimately have s': "s' = t'\<lparr>c_recursive := 0\<rparr>"
    using s(3) assms(5) by (simp add: s'_def happen_def ready_write_def guarded_def u_def op_defs)
  show ?thesis
  proof (cases "c_released t'")
    case True
    then have "c_wbuf t = []" using t'(5) t(3) by simp
    then have "c_sent t' = pending s"
      using t'(3) t(7) by (simp add: pending_def)
    with True s' show ?thesis by simp
  next
    case False
    have "good h t'" "\<not> flowing t'"
      using t'(2,4) t False by (auto simp: frame_def)
    then have "ending t'"
      using False by (auto simp: conn_ok_def idle_def)
    then have "ending s'" "good h s'"
      using s' \<open>good h t'\<close> by (simp_all add: recursive_good ending_def)
    then show ?thesis
      using False s' t'(3,4) t by (simp add: pending_def)
  qed
qed

lemma released_stays: "c_released s \<Longrightarrow> good h s \<Longrightarrow> happen M h (Writable net) s = s"
  by (auto simp: happen_def conn_ok_def idle_def conn_defs)

lemma drains:
  assumes "good h s" "ending s" "c_wstatus s" "takes net" "c_recursive s = 0" "\<not> c_released s" "length (c_wbuf s) \<le> n"
  shows "c_released (happens M h (replicate n (Writable net)) s)
    \<and> c_sent (happens M h (replicate n (Writable net)) s) = pending s"
  using assms
proof (induction n arbitrary: s)
  case 0
  then show ?case by (auto simp: ending_def)
next
  case (Suc n)
  let ?s = "happen M h (Writable net) s"
  consider "c_released ?s" "c_sent ?s = pending s"
    | "good h ?s" "ending ?s" "c_wstatus ?s" "\<not> c_released ?s" "pending ?s = pending s"
      "length (c_wbuf ?s) < length (c_wbuf s)" "c_recursive ?s = 0"
    using drain_step [OF Suc.prems(1-6)] by (elim disjE conjE) simp_all
  then show ?case
  proof cases
    case 1
    have "good h ?s"
      using happen_step [of "Writable net" h s] Suc.prems takes_write_law by (auto simp: frame_def)
    then have "happens M h (replicate n (Writable net)) ?s = ?s"
      using 1(1) by (induction n) (simp_all add: released_stays)
    with 1 show ?thesis by simp
  next
    case 2
    then show ?thesis
      using Suc.IH [of ?s] Suc.prems by simp
  qed
qed


text \<open>A connection that is released is closed when everything has been sent.\<close>

lemma release_drains:
  assumes "good h s" "flowing s" "takes net" "c_recursive s = 0" "length (c_wbuf s) \<le> n"
  shows "c_released (happens M h (Releases # replicate n (Writable net)) s)
    \<and> c_sent (happens M h (Releases # replicate n (Writable net)) s) = pending s"
proof -
  have s: "reg h s" "is_open s" "c_wbuf s \<noteq> [] \<longrightarrow> c_mux_write s" "\<not> c_releasing s" "c_wstatus s" "\<not> c_released s"
    using assms(1,2) by (auto simp: conn_ok_def idle_def conn_defs)
  obtain b t where t: "release M s = (Inr b, t)" "frame ok wants fits h s t" "c_sent t = c_sent s"
    "\<not> c_released t \<longrightarrow> ending t \<and> c_wbuf t = c_wbuf s \<and> c_wstatus t = c_wstatus s"
    "c_released t \<longleftrightarrow> c_releasing s \<or> \<not> c_mux_write s \<or> c_wbuf s = []"
    by (rule release_any [OF s(1,2)])
  have rec: "good h t" "c_recursive t = 0"
    using t(2) assms(4) by (simp_all add: frame_def)
  show ?thesis
  proof (cases "c_released t")
    case True
    then have "c_wbuf s = []" using t(5) s(3,4) by blast
    moreover have "happens M h (replicate n (Writable net)) t = t"
      using True rec(1) by (induction n) (simp_all add: released_stays)
    ultimately show ?thesis
      using True t(1,3) by (simp add: happen_def pending_def)
  next
    case False
    then have "ending t" "c_wstatus t" "pending t = pending s" "length (c_wbuf t) \<le> n"
      using t(3,4) s(5) assms(5) by (simp_all add: pending_def)
    then show ?thesis
      using drains [OF rec(1) _ _ assms(3) rec(2) False] t(1) by (simp add: happen_def)
  qed
qed


text \<open>A write that fails for good while output is waiting.\<close>

lemma failed_flush_step:
  assumes "good h s" "flowing s" "c_wbuf s \<noteq> []" "c_recursive s = 0" "\<And>n. net n = Fail (Eother k)"
  defines "s' \<equiv> happen M h (Writable net) s"
  shows "good h s' \<and> ending s' \<and> \<not> c_wstatus s' \<and> \<not> c_released s' \<and> c_rd s' = c_rd s \<and> c_recursive s' = 0"
proof -
  have s: "reg h s" "is_open s" "c_mux_write s" "\<not> c_releasing s" "c_wstatus s" "\<not> c_released s" "c_mux_read s" "c_rstatus s"
    using assms(1-3) by (auto simp: conn_ok_def idle_def conn_defs)
  define t where "t = s\<lparr>c_recursive := 1, c_wstatus := False\<rparr>"
  have flush: "buf_flush net (s\<lparr>c_recursive := 1\<rparr>) = (Inr 0, t)"
    using assms(3,5) by (simp add: t_def buf_flush_def binary_write_def ad_file_write_def system_write_def failed_def op_defs)
  have t: "reg h t" "is_open t" "c_releasing t = (\<not> c_rstatus t)" "c_mux_read t = c_rstatus t" "\<not> c_releasing t"
    "\<not> c_wstatus t" "c_mux_write t" "c_wbuf t \<noteq> []" "c_rd t = c_rd s"
    using s assms(3) by (simp_all add: t_def registered_def is_open_def)
  from finish_step [OF t(1-4)] obtain t' where
    t': "seqS (set_write_handler_if_ready M h) (release_if_wclosed M) t = (Inr (), t')"
    "frame ok wants fits h t t'" "c_sent t' = c_sent t"
    "\<not> c_released t' \<longrightarrow> c_wbuf t' = c_wbuf t \<and> c_wstatus t' = c_wstatus t
      \<and> (flowing t' \<longleftrightarrow> c_wstatus t \<and> \<not> c_releasing t)"
    "c_released t' \<longrightarrow> \<not> c_wstatus t \<or> c_wbuf t = [] \<and> c_releasing t"
    "\<not> c_wstatus t \<longrightarrow> (c_released t' \<longleftrightarrow> c_releasing t \<or> \<not> c_mux_write t \<or> c_wbuf t = [])"
    "c_wstatus t \<longrightarrow> c_releasing t \<longrightarrow> c_wbuf t = [] \<longrightarrow> c_released t'" .
  have "mux_write M h net (s\<lparr>c_recursive := 1\<rparr>) = (Inr 0, t')"
    using s(5) assms(3) flush t'(1)
    by (auto simp: mux_write_def wready_def op_defs split: sum.splits prod.splits)
  moreover have "c_recursive t' = 1"
    using t'(2) by (simp add: frame_def t_def)
  ultimately have s': "s' = t'\<lparr>c_recursive := 0\<rparr>"
    using s(3) assms(4) by (simp add: s'_def happen_def ready_write_def guarded_def op_defs)
  have "\<not> c_released t'" "\<not> flowing t'" "\<not> c_wstatus t'" "good h t'" "c_rd t' = c_rd s"
    using t'(2,4,6) t by (auto simp: frame_def)
  then have "ending t'"
    by (auto simp: conn_ok_def idle_def)
  then have "ending s'"
    using s' by (simp add: ending_def)
  then show ?thesis
    using s' \<open>good h t'\<close> \<open>\<not> c_released t'\<close> \<open>\<not> c_wstatus t'\<close> \<open>c_rd t' = c_rd s\<close> by (simp add: recursive_good)
qed

lemma stranded_step:
  fixes net :: "nat \<Rightarrow> sysret"
  assumes "good h s" "ending s" "\<not> c_wstatus s" "\<not> c_released s" "c_recursive s = 0"
  defines "s' \<equiv> happen M h (Writable net) s"
  shows "\<not> c_released s' \<and> c_rd s' \<in> c_fds s' \<and> c_rd s' = c_rd s \<and> (\<forall>e d. wants (c_mx s') e d \<noteq> Some h)
    \<and> \<not> c_mux_read s' \<and> \<not> c_mux_write s'"
proof -
  have s: "reg h s" "is_open s" "\<not> c_mux_read s"
    using assms(1,2,4) by (auto simp: conn_ok_def idle_def conn_defs)
  have r: "reg h (s\<lparr>c_recursive := 1\<rparr>)"
    using s(1) by (simp add: registered_def)
  obtain m where m: "reset_write_handler M True (s\<lparr>c_recursive := 1\<rparr>)
      = (Inr (), s\<lparr>c_recursive := 1, c_mx := m, c_mux_write := False, c_swh_count := 0\<rparr>)"
    "reg h (s\<lparr>c_recursive := 1, c_mx := m, c_mux_write := False, c_swh_count := 0\<rparr>)"
    using reset_write_step [OF r, of True] by blast
  have gone: "\<forall>e d. wants m e d \<noteq> Some h"
  proof (intro allI)
    show "wants m e d \<noteq> Some h" for e d
      using m(2) s(3) by (cases "d = c_rd s"; cases e) (auto simp: registered_def)
  qed
  show ?thesis
  proof (cases "c_mux_write s")
    case True
    then have "s' = s\<lparr>c_recursive := 0, c_mx := m, c_mux_write := False, c_swh_count := 0\<rparr>"
      using assms(3,5) m(1)
      by (simp add: s'_def happen_def ready_write_def guarded_def mux_write_def op_defs)
    then have s': "c_released s' = c_released s" "c_rd s' = c_rd s" "c_fds s' = c_fds s" "c_mx s' = m"
      "c_mux_read s' = c_mux_read s" "\<not> c_mux_write s'" by simp_all
    then show ?thesis
      using s(2,3) gone unfolding is_open_def by metis
  next
    case False
    then have "wants (c_mx s) e d \<noteq> Some h" for e d
      using s(1,3) by (cases "d = c_rd s"; cases e) (auto simp: registered_def)
    then have "\<forall>e d. wants (c_mx s) e d \<noteq> Some h" by blast
    with False show ?thesis
      using s(2,3) by (simp add: s'_def happen_def is_open_def)
  qed
qed

end

text \<open>Only a release from outside ends a connection that nothing is watched for.\<close>

fun reported :: "happening \<Rightarrow> bool" where
  "reported (Readable _ _) = True" | "reported (Writable _) = True" | "reported Broken = True"
| "reported (Writes _ _) = False" | "reported Releases = False"

lemma unwatched_stays:
  "\<not> c_mux_read s \<Longrightarrow> \<not> c_mux_write s \<Longrightarrow> list_all reported xs \<Longrightarrow> happens M h xs s = s"
  by (induction xs) (auto simp: happen_def split: happening.splits)

section \<open>What holds of every connection\<close>

text \<open>A descriptor is assigned to a connection of the pool, and then things happen to it.\<close>

definition session ::
  "'m imux \<Rightarrow> nat \<Rightarrow> nat \<Rightarrow> string \<Rightarrow> string \<Rightarrow> happening list \<Rightarrow> ('m, 'z) conn_scheme \<Rightarrow> ('m, 'z) conn_scheme" where
  "session M h d l a xs s0 = happens M h xs (snd (assign M h d l a s0))"

definition assignable :: "('m \<Rightarrow> bool) \<Rightarrow> 'm view \<Rightarrow> (nat \<Rightarrow> bool) \<Rightarrow> nat \<Rightarrow> nat \<Rightarrow> ('m, 'z) conn_scheme \<Rightarrow> bool" where
  "assignable ok wants fits h d s0 \<longleftrightarrow>
     idle ok wants h s0 \<and> c_recursive s0 = 0 \<and> d \<in> c_fds s0 \<and> fits d \<and> (\<forall>e. wants (c_mx s0) e d = None)"

lemma session_step:
  assumes "imux_laws M ok wants fits" and "assignable ok wants fits h d s0" and "list_all happening_law xs"
  obtains s1 where "session M h d l a xs s0 = happens M h xs s1" "conn_ok ok wants fits h s1" "flowing s1"
    "c_rd s1 = d" "pending s1 = c_sent s0" "c_recursive s1 = 0" "c_fds s1 = c_fds s0" "c_freed s1 = c_freed s0"
    "away wants d (c_mx s0) (c_mx s1)" "\<not> c_released s1"
    "frame ok wants fits h s1 (happens M h xs s1)" "emits (written_data xs) s1 True (happens M h xs s1)"
proof -
  have s0: "idle ok wants h s0" "d \<in> c_fds s0" "fits d" "\<And>e. wants (c_mx s0) e d = None" "c_recursive s0 = 0"
    using assms(2) by (simp_all add: assignable_def)
  obtain s1 where s1: "assign M h d l a s0 = (Inr (), s1)" "conn_ok ok wants fits h s1" "flowing s1" "c_rd s1 = d"
    "c_wbuf s1 = []" "c_sent s1 = c_sent s0" "c_recursive s1 = c_recursive s0" "c_fds s1 = c_fds s0"
    "c_freed s1 = c_freed s0" "away wants d (c_mx s0) (c_mx s1)" "\<not> c_released s1"
    using imux_laws.assign_step [OF assms(1) s0(1-4)] .
  then show ?thesis
    using imux_laws.happens_step [OF assms(1,3) s1(2)] s0(5)
    by (intro that [of s1]) (simp_all add: session_def pending_def)
qed

text \<open>A new connection under a \<open>selector\<close>, with the descriptor 5 open, and a short history.\<close>

definition example_conn :: "selector conn" where
  "example_conn = conn_new 0 0 True selector_new {5}"

definition example_history :: "happening list" where
  "example_history = [Writes ''hello'' (\<lambda>n. Ret (min n 2)), Writable (\<lambda>n. Fail EAGAIN)]"

lemma example_assignable: "assignable sl_ok sl_wants (\<lambda>d. d < FD_SETSIZE) 1 5 example_conn"
  by (simp add: assignable_def idle_def example_conn_def conn_new_def selector_new_def sl_ok_def sl_wants_def FD_SETSIZE_def)

lemma example_history_law: "list_all happening_law example_history"
  by (simp add: example_history_def write_law_def system_write_def)

lemma example_waiting:
  "\<not> c_released (session selector_mux 1 5 [] [] example_history example_conn)
   \<and> \<not> c_releasing (session selector_mux 1 5 [] [] example_history example_conn)
   \<and> c_wbuf (session selector_mux 1 5 [] [] example_history example_conn) = ''llo''
   \<and> c_wstatus (session selector_mux 1 5 [] [] example_history example_conn)"
  by code_simp

text \<open>
  C14. What a connection sends is what was written to it, in the order of the writes, with nothing left
  out and nothing repeated: at any moment the bytes the kernel has taken are a beginning of the bytes
  written, and as long as the connection is not being released the rest is in the buffer. It holds
  for any multiplexer that keeps its laws, any partial or failing write of the socket and any order of
  the events.\<close>

theorem output_in_order:
  assumes "imux_laws M ok wants fits" and "assignable ok wants fits h d s0" and "list_all happening_law xs"
  shows "prefix (c_sent (session M h d l a xs s0)) (c_sent s0 @ written_data xs)
    \<and> (\<not> c_released (session M h d l a xs s0) \<and> \<not> c_releasing (session M h d l a xs s0) \<longrightarrow>
         c_sent (session M h d l a xs s0) @ c_wbuf (session M h d l a xs s0) = c_sent s0 @ written_data xs)"
proof -
  obtain s1 where s1: "session M h d l a xs s0 = happens M h xs s1" "flowing s1" "pending s1 = c_sent s0"
    "frame ok wants fits h s1 (happens M h xs s1)" "emits (written_data xs) s1 True (happens M h xs s1)"
    by (rule session_step [OF assms])
  let ?s = "happens M h xs s1"
  have "prefix (c_sent ?s) (c_sent s0 @ written_data xs)"
    using s1(3,5) by (auto simp: emits_def pending_def dest: append_prefixD)
  moreover have "pending ?s = c_sent s0 @ written_data xs" if "\<not> c_released ?s" "\<not> c_releasing ?s"
    using that s1(3-5) by (auto simp: frame_def conn_ok_def idle_def ending_def emits_def)
  ultimately show ?thesis
    by (simp add: s1(1) pending_def)
qed

theorem output_in_order_witness:
  "prefix (c_sent (session selector_mux 1 5 [] [] example_history example_conn)) (c_sent example_conn @ written_data example_history)"
  using output_in_order [OF sel.imux_laws_axioms example_assignable example_history_law, of "[]" "[]"] by blast

text \<open>
  C15. A connection is registered as it should be, whatever happens to it: until it is released its
  descriptor is open, it is told when there is something to read (unless it is being released), and it
  is told when the socket can take more as long as it has output and the peer has not closed. Once it
  is released its descriptor has been closed, nothing is registered under its address any more and it
  has been handed back to the pool, once. Other descriptors are not touched.\<close>

theorem connection_registered:
  assumes "imux_laws M ok wants fits" and "assignable ok wants fits h d s0" and "list_all happening_law xs"
    and "s = session M h d l a xs s0"
  shows "(\<not> c_released s \<longrightarrow> d \<in> c_fds s
        \<and> (\<not> c_releasing s \<longrightarrow> wants (c_mx s) Ev_read d = Some h)
        \<and> (c_wstatus s \<and> c_wbuf s \<noteq> [] \<longrightarrow> wants (c_mx s) Ev_write d = Some h))
    \<and> (c_released s \<longrightarrow> d \<notin> c_fds s \<and> (\<forall>e d'. wants (c_mx s) e d' \<noteq> Some h))
    \<and> c_freed s = c_freed s0 + (if c_released s then 1 else 0)
    \<and> (\<forall>e d'. d' \<noteq> d \<longrightarrow> wants (c_mx s) e d' = wants (c_mx s0) e d' \<and> (d' \<in> c_fds s \<longleftrightarrow> d' \<in> c_fds s0))"
proof -
  obtain s1 where s1: "s = happens M h xs s1" "c_rd s1 = d" "c_fds s1 = c_fds s0" "c_freed s1 = c_freed s0"
    "away wants d (c_mx s0) (c_mx s1)" "\<not> c_released s1" "frame ok wants fits h s1 (happens M h xs s1)"
    unfolding assms(4) by (rule session_step [OF assms(1-3)])
  then have f: "frame ok wants fits h s1 s" by simp
  then have good: "conn_ok ok wants fits h s" and fds: "c_rd s = d"
    "c_fds s = (if c_released s then c_fds s0 - {d} else c_fds s0)"
    "c_freed s = c_freed s0 + (if c_released s then 1 else 0)" "away wants d (c_mx s0) (c_mx s)"
    using s1 by (auto simp: frame_def away_def)
  have open_s: "d \<in> c_fds s \<and> (\<not> c_releasing s \<longrightarrow> wants (c_mx s) Ev_read d = Some h)
      \<and> (c_wstatus s \<and> c_wbuf s \<noteq> [] \<longrightarrow> wants (c_mx s) Ev_write d = Some h)" if "\<not> c_released s"
    using that good fds(1) by (auto simp: conn_ok_def idle_def registered_def conn_defs)
  have idle_s: "d \<notin> c_fds s \<and> (\<forall>e d'. wants (c_mx s) e d' \<noteq> Some h)" if "c_released s"
    using that good fds(2) by (auto simp: conn_ok_def idle_def conn_defs)
  show ?thesis
    using open_s idle_s fds by (auto simp: away_def)
qed

theorem connection_registered_witness:
  "sl_wants (c_mx (session selector_mux 1 5 [] [] example_history example_conn)) Ev_write 5 = Some 1"
  using connection_registered [OF sel.imux_laws_axioms example_assignable example_history_law refl, of "[]" "[]"]
    example_waiting by auto

text \<open>
  A release loses nothing that was written before it. When a connection in use is released, and the
  socket takes at least one byte each time it is reported writable, then after as many reports as there
  were bytes left everything has been sent and the descriptor is closed.\<close>

lemma release_sends_everything:
  assumes "imux_laws M ok wants fits" and "assignable ok wants fits h d s0" and "list_all happening_law xs"
    and "s = session M h d l a xs s0" and "\<not> c_released s" and "\<not> c_releasing s"
    and "takes net" and "length (c_wbuf s) \<le> n"
  shows "c_released (happens M h (Releases # replicate n (Writable net)) s)
    \<and> d \<notin> c_fds (happens M h (Releases # replicate n (Writable net)) s)
    \<and> c_sent (happens M h (Releases # replicate n (Writable net)) s) = c_sent s0 @ written_data xs"
proof -
  obtain s1 where s1: "s = happens M h xs s1" "flowing s1" "c_rd s1 = d" "pending s1 = c_sent s0" "c_recursive s1 = 0"
    "\<not> c_released s1" "frame ok wants fits h s1 (happens M h xs s1)" "emits (written_data xs) s1 True (happens M h xs s1)"
    unfolding assms(4) by (rule session_step [OF assms(1-3)])
  then have s: "conn_ok ok wants fits h s" "c_recursive s = 0" "c_rd s = d" by (auto simp: frame_def)
  have fl: "flowing s" "pending s = c_sent s0 @ written_data xs"
    using assms(5,6) s1 s(1) by (auto simp: conn_ok_def idle_def ending_def emits_def)
  let ?ys = "Releases # replicate n (Writable net)"
  have "list_all happening_law ?ys"
    using takes_write_law [OF assms(7)] by (induction n) simp_all
  then have "frame ok wants fits h s (happens M h ?ys s)"
    using imux_laws.happens_step [OF assms(1) _ s(1,2)] by blast
  moreover have "c_released (happens M h ?ys s)" "c_sent (happens M h ?ys s) = c_sent s0 @ written_data xs"
    using imux_laws.release_drains [OF assms(1) s(1) fl(1) assms(7) s(2) assms(8)] fl(2) by auto
  ultimately show ?thesis
    using s(3) assms(5) by (auto simp: frame_def)
qed

text \<open>
  A connection can be stranded. When output is waiting and the write fails for good (the peer has
  reset the connection), the flush keeps its buffer, so the release takes it for output that can still be
  sent and only starts to end; the next report that the socket is writable then takes the connection
  out of the multiplexer without releasing it. Its descriptor stays open, and no report that the
  multiplexer could still make changes that.\<close>

lemma failed_flush_strands_connection:
  assumes "imux_laws M ok wants fits" and "assignable ok wants fits h d s0" and "list_all happening_law xs"
    and "s = session M h d l a xs s0" and "\<not> c_released s" and "\<not> c_releasing s" and "c_wbuf s \<noteq> []"
    and "\<forall>n. net n = Fail (Eother k)" and "list_all reported ys"
    and "s' = happens M h (Writable net # Writable net # ys) s"
  shows "\<not> c_released s' \<and> d \<in> c_fds s' \<and> (\<forall>e d'. wants (c_mx s') e d' \<noteq> Some h)"
proof -
  obtain s1 where s1: "s = happens M h xs s1" "c_rd s1 = d" "c_recursive s1 = 0" "frame ok wants fits h s1 (happens M h xs s1)"
    unfolding assms(4) by (rule session_step [OF assms(1-3)])
  then have s: "conn_ok ok wants fits h s" "c_recursive s = 0" "c_rd s = d" by (auto simp: frame_def)
  then have "flowing s"
    using assms(5,6) by (auto simp: conn_ok_def idle_def ending_def)
  let ?t = "happen M h (Writable net) s" and ?u = "happen M h (Writable net) (happen M h (Writable net) s)"
  have t: "conn_ok ok wants fits h ?t" "ending ?t" "\<not> c_wstatus ?t" "\<not> c_released ?t" "c_rd ?t = d" "c_recursive ?t = 0"
    using imux_laws.failed_flush_step [OF assms(1) s(1) \<open>flowing s\<close> assms(7) s(2)] assms(8) s(3) by auto
  have u: "\<not> c_released ?u" "c_rd ?u \<in> c_fds ?u" "c_rd ?u = c_rd ?t" "\<forall>e d. wants (c_mx ?u) e d \<noteq> Some h"
    "\<not> c_mux_read ?u" "\<not> c_mux_write ?u"
    using imux_laws.stranded_step [OF assms(1) t(1-4,6), of net] by blast+
  have "s' = ?u"
    using assms(10) unwatched_stays [OF u(5,6) assms(9)] by simp
  then show ?thesis
    using u t(5) by simp
qed

end
