(* ===== verification/Server.thy ===== *)
theory Server
  imports Connection_Runs
begin

text \<open>
  A TCP server and the pool of its connections: \<open>pool\<close> (\<open>fas/inet/pool.hpp\<close>) and \<open>server_base\<close>
  (\<open>fas/inet/server.hpp\<close>). The daemon serves its slaves with one (\<open>rserver_tcp\<close>), and the front of
  the multi-threaded server is another.

  A connection object is known by its address, a number; the address of the server itself is 0. A
  \<open>std::set\<close> of pointers is a set of numbers, walked from the least on. The address that \<open>new\<close>
  returns is a parameter. The multiplexer and the open descriptors, which the record of a connection
  also has, are those of the server. The calls that open a socket and set its options are added in \<open>Sockets\<close>; left out are the
  advices of the server, which are stubs. \<open>_mux\<close> is set before a server of the daemon starts, and
  \<open>_listen\<close> is \<open>None\<close> where the code has -1.
\<close>

section \<open>The pool\<close>

record pool =
  pl_active :: "nat set"
  pl_pooled :: "nat set"
  pl_queue :: "nat set"
  pl_limit :: nat

definition pool_free :: "nat \<Rightarrow> pool \<Rightarrow> pool" where
  "pool_free i p = p\<lparr>pl_queue := insert i (pl_queue p)\<rparr>"

fun free_items :: "nat list \<Rightarrow> (pool, unit) op" where
  "free_items [] = ret ()"
| "free_items (i # is) =
     seqS (\<lambda>p. if i \<notin> pl_active p then raise (Runtime_error ''fas::inet::pool::free: item not found'') p
               else upd (\<lambda>p. p\<lparr>pl_pooled := insert i (pl_pooled p), pl_active := pl_active p - {i}\<rparr>) p)
       (free_items is)"

definition process_free :: "(pool, nat) op" where
  "process_free p =
     (if pl_queue p = {} then ret (card (pl_active p)) p
      else seqS (upd (\<lambda>p. p\<lparr>pl_queue := {}\<rparr>))
             (seqS (free_items (sorted_list_of_set (pl_queue p))) (\<lambda>p. ret (card (pl_active p)) p)) p)"

text \<open>The result says whether the item is new, a copy of the prototype.\<close>

definition pool_create :: "nat \<Rightarrow> (pool, (nat \<times> bool) option) op" where
  "pool_create fresh = seqS process_free (\<lambda>p.
     if pl_pooled p = {}
     then if card (pl_active p) < pl_limit p
          then seqS (upd (\<lambda>p. p\<lparr>pl_active := insert fresh (pl_active p)\<rparr>)) (ret (Some (fresh, True))) p
          else ret None p
     else let i = Min (pl_pooled p)
          in seqS (upd (\<lambda>p. p\<lparr>pl_active := insert i (pl_active p), pl_pooled := pl_pooled p - {i}\<rparr>))
               (ret (Some (i, False))) p)"

section \<open>The server\<close>

record 'm tcp_server =
  sv_started :: bool
  sv_max :: nat
  sv_listen :: "nat option"
  sv_local :: string
  sv_pool :: pool
  sv_conns :: "nat \<Rightarrow> 'm conn"
  sv_mx :: 'm
  sv_fds :: "nat set"

definition on_pool :: "(pool, 'a) op \<Rightarrow> ('m tcp_server, 'a) op" where
  "on_pool f v = (case f (sv_pool v) of (r, p) \<Rightarrow> (r, v\<lparr>sv_pool := p\<rparr>))"

text \<open>A member function of a connection; a release that succeeds calls \<open>pool::free\<close>.\<close>

definition load :: "nat \<Rightarrow> 'm tcp_server \<Rightarrow> 'm conn" where
  "load i v = (sv_conns v i)\<lparr>c_mx := sv_mx v, c_fds := sv_fds v\<rparr>"

definition put_conn :: "nat \<Rightarrow> 'm conn \<Rightarrow> 'm tcp_server \<Rightarrow> 'm tcp_server" where
  "put_conn i s v = v\<lparr>sv_conns := (sv_conns v)(i := s), sv_mx := c_mx s, sv_fds := c_fds s,
     sv_pool := (if c_freed (load i v) < c_freed s then pool_free i (sv_pool v) else sv_pool v)\<rparr>"

definition on_conn :: "nat \<Rightarrow> ('m conn, 'a) op \<Rightarrow> ('m tcp_server, 'a) op" where
  "on_conn i f v = (case f (load i v) of (r, s) \<Rightarrow> (r, put_conn i s v))"

definition on_server_mux :: "('m, 'a) op \<Rightarrow> ('m tcp_server, unit) op" where
  "on_server_mux f v = (case f (sv_mx v) of
     (Inl e, m) \<Rightarrow> (Inl e, v\<lparr>sv_mx := m\<rparr>) | (Inr _, m) \<Rightarrow> (Inr (), v\<lparr>sv_mx := m\<rparr>))"

definition server_close :: "'m imux \<Rightarrow> nat \<Rightarrow> ('m tcp_server, unit) op" where
  "server_close M d v =
     (if d \<in> sv_fds v then (Inr (), v\<lparr>sv_fds := sv_fds v - {d}, sv_mx := mx_close M d (sv_mx v)\<rparr>)
      else (Inl (Runtime_error ''fas::system::inet::close: ''), v))"

text \<open>\<open>start\<close>: \<open>d\<close> is the socket that the kernel made.\<close>

definition server_start :: "'m imux \<Rightarrow> nat \<Rightarrow> ('m tcp_server, unit) op" where
  "server_start M d v =
     (if sv_started v then ret () v
      else seqS (upd (\<lambda>v. v\<lparr>sv_listen := Some d, sv_fds := insert d (sv_fds v)\<rparr>))
        (seqS (on_server_mux (mx_set M Ev_read d 0)) (upd (\<lambda>v. v\<lparr>sv_started := True\<rparr>))) v)"

definition server_create :: "nat \<Rightarrow> 'm conn \<Rightarrow> ('m tcp_server, nat option) op" where
  "server_create fresh proto = bindS (on_pool (pool_create fresh)) (\<lambda>r. case r of
     None \<Rightarrow> ret None
   | Some (i, new) \<Rightarrow>
       seqS (upd (\<lambda>v. if new then v\<lparr>sv_conns := (sv_conns v)(i := proto)\<rparr> else v)) (ret (Some i)))"

text \<open>
  \<open>_accept\<close>: what \<open>asi::accept\<close> gives is an argument: an exception, nothing, or a descriptor with the
  address of the peer.
\<close>

definition server_accept ::
  "'m imux \<Rightarrow> nat \<Rightarrow> 'm conn \<Rightarrow> exn + (nat \<times> string) option \<Rightarrow> ('m tcp_server, nat option) op" where
  "server_accept M fresh proto accepted v =
     (if \<not> sv_started v then ret None v
      else case accepted of
        Inl e \<Rightarrow> raise e v
      | Inr None \<Rightarrow> ret None v
      | Inr (Some (d, a)) \<Rightarrow>
          seqS (upd (\<lambda>v. v\<lparr>sv_fds := insert d (sv_fds v)\<rparr>)) (\<lambda>v.
            if sv_max v \<le> card (pl_active (sv_pool v))
            then seqS (server_close M d) (ret None) v
            else bindS (server_create fresh proto) (\<lambda>pc. case pc of
                   None \<Rightarrow> ret None
                 | Some i \<Rightarrow> seqS (on_conn i (assign M i d (sv_local v) a)) (ret (Some i))) v) v)"

text \<open>\<open>pool::release\<close>: every connection is released, the pooled ones first.\<close>

fun release_items :: "'m imux \<Rightarrow> nat list \<Rightarrow> ('m tcp_server, unit) op" where
  "release_items M [] = ret ()"
| "release_items M (i # is) = seqS (on_conn i (release M)) (release_items M is)"

definition pool_release :: "'m imux \<Rightarrow> ('m tcp_server, unit) op" where
  "pool_release M =
     seqS (\<lambda>v. release_items M (sorted_list_of_set (pl_pooled (sv_pool v))) v)
       (seqS (\<lambda>v. release_items M (sorted_list_of_set (pl_active (sv_pool v))) v)
         (seqS (on_pool process_free) (ret ())))"

text \<open>What one call of \<open>_mux->select\<close> reports to the connections.\<close>

fun report_all :: "'m imux \<Rightarrow> (nat \<times> happening) list \<Rightarrow> 'm tcp_server \<Rightarrow> 'm tcp_server" where
  "report_all M [] v = v"
| "report_all M ((i, x) # evs) v = report_all M evs (put_conn i (happen M i x (load i v)) v)"

text \<open>The loop at the end of \<open>_stop\<close>; \<open>evss\<close> are the reports of its calls of \<open>select\<close>.\<close>

fun wait_free :: "'m imux \<Rightarrow> (nat \<times> happening) list list \<Rightarrow> ('m tcp_server, unit) op" where
  "wait_free M [] = bindS (on_pool process_free) (\<lambda>n. if n > 0 then raise Fuel_exhausted else ret ())"
| "wait_free M (evs # evss) = bindS (on_pool process_free) (\<lambda>n.
     if n > 0 then seqS (upd (report_all M evs)) (wait_free M evss) else ret ())"

definition stop_listening :: "'m imux \<Rightarrow> ('m tcp_server, unit) op" where
  "stop_listening M v = (case sv_listen v of
     None \<Rightarrow> ret () v
   | Some d \<Rightarrow> seqS (on_server_mux (mx_reset M Ev_read d))
                (seqS (server_close M d) (upd (\<lambda>v. v\<lparr>sv_listen := None\<rparr>))) v)"

definition server_stop ::
  "'m imux \<Rightarrow> (nat \<times> happening) list \<Rightarrow> (nat \<times> happening) list list \<Rightarrow> ('m tcp_server, unit) op" where
  "server_stop M evs evss v =
     (if \<not> sv_started v then ret () v
      else seqS (upd (\<lambda>v. v\<lparr>sv_started := False\<rparr>))
        (seqS (stop_listening M)
        (seqS (pool_release M)
        (seqS (upd (report_all M evs))
        (bindS (on_pool process_free) (\<lambda>n.
           if n > 0
           then seqS (pool_release M) (seqS (wait_free M evss) (\<lambda>v.
             if card (pl_active (sv_pool v)) > 0 then raise (Logic_error ''hard server stop'') v
             else ret () v))
           else ret ()))))) v)"

section \<open>Histories\<close>

text \<open>A client connects, or something happens to one of the connections.\<close>

datatype server_event = Accepts nat "exn + (nat \<times> string) option" | Conn_event nat happening

definition server_happen :: "'m imux \<Rightarrow> 'm conn \<Rightarrow> server_event \<Rightarrow> 'm tcp_server \<Rightarrow> 'm tcp_server" where
  "server_happen M proto x v = (case x of
     Accepts fresh accepted \<Rightarrow> snd (server_accept M fresh proto accepted v)
   | Conn_event i y \<Rightarrow> put_conn i (happen M i y (load i v)) v)"

fun server_happens :: "'m imux \<Rightarrow> 'm conn \<Rightarrow> server_event list \<Rightarrow> 'm tcp_server \<Rightarrow> 'm tcp_server" where
  "server_happens M proto [] v = v"
| "server_happens M proto (x # xs) v = server_happens M proto xs (server_happen M proto x v)"

end
