(* ===== verification/Server_Laws.thy ===== *)
theory Server_Laws
  imports Server
begin

text \<open>
  What a server keeps: each of its connections satisfies the invariant of \<open>Connection_Laws\<close> on the
  multiplexer they share, the pool knows which of them are in use, and the descriptors that are open are
  exactly those of the listening socket and of the connections that are not released.
\<close>

section \<open>The invariant\<close>

definition opens :: "'m tcp_server \<Rightarrow> nat set" where
  "opens v = {i \<in> pl_active (sv_pool v). \<not> c_released (sv_conns v i)}"

definition known :: "'m tcp_server \<Rightarrow> nat set" where
  "known v = pl_active (sv_pool v) \<union> pl_pooled (sv_pool v)"

definition pool_ok :: "pool \<Rightarrow> bool" where
  "pool_ok p \<longleftrightarrow> finite (pl_active p) \<and> finite (pl_pooled p) \<and> pl_active p \<inter> pl_pooled p = {}
     \<and> pl_queue p \<subseteq> pl_active p \<and> 0 \<notin> pl_active p \<and> 0 \<notin> pl_pooled p"

text \<open>Who is in use: the connections that are released are pooled, or wait in the queue to be.\<close>

definition use_ok :: "'m tcp_server \<Rightarrow> bool" where
  "use_ok v \<longleftrightarrow> pool_ok (sv_pool v) \<and> (\<forall>i \<in> pl_pooled (sv_pool v). c_released (sv_conns v i))
     \<and> (\<forall>i \<in> pl_active (sv_pool v). c_released (sv_conns v i) \<longleftrightarrow> i \<in> pl_queue (sv_pool v))"

definition conns_ok :: "('m \<Rightarrow> bool) \<Rightarrow> 'm view \<Rightarrow> (nat \<Rightarrow> bool) \<Rightarrow> 'm tcp_server \<Rightarrow> bool" where
  "conns_ok ok wants fits v \<longleftrightarrow>
     (\<forall>i \<in> known v. conn_ok ok wants fits i (load i v) \<and> c_recursive (sv_conns v i) = 0)"

text \<open>Who owns which descriptor, in the process and in the multiplexer.\<close>

definition fds_ok :: "'m view \<Rightarrow> (nat \<Rightarrow> bool) \<Rightarrow> 'm tcp_server \<Rightarrow> bool" where
  "fds_ok wants fits v \<longleftrightarrow>
     inj_on (\<lambda>i. c_rd (sv_conns v i)) (opens v)
     \<and> (\<forall>e d h. wants (sv_mx v) e d = Some h \<longrightarrow> h \<in> opens v \<or> h = 0 \<and> e = Ev_read \<and> sv_listen v = Some d)
     \<and> (\<forall>d. sv_listen v = Some d \<longrightarrow> fits d \<and> wants (sv_mx v) Ev_read d = Some 0
          \<and> (\<forall>i \<in> opens v. c_rd (sv_conns v i) \<noteq> d))
     \<and> sv_fds v = set_option (sv_listen v) \<union> (\<lambda>i. c_rd (sv_conns v i)) ` opens v"

definition sv_ok :: "('m \<Rightarrow> bool) \<Rightarrow> 'm view \<Rightarrow> (nat \<Rightarrow> bool) \<Rightarrow> 'm tcp_server \<Rightarrow> bool" where
  "sv_ok ok wants fits v \<longleftrightarrow>
     ok (sv_mx v) \<and> use_ok v \<and> conns_ok ok wants fits v \<and> fds_ok wants fits v"

section \<open>The pool\<close>

lemma free_items_ok:
  "distinct is \<Longrightarrow> set is \<subseteq> pl_active p \<Longrightarrow>
     free_items is p = (Inr (), p\<lparr>pl_pooled := pl_pooled p \<union> set is, pl_active := pl_active p - set is\<rparr>)"
proof (induction "is" arbitrary: p)
  case (Cons i "is")
  let ?p = "p\<lparr>pl_pooled := insert i (pl_pooled p), pl_active := pl_active p - {i}\<rparr>"
  have "free_items (i # is) p = free_items is ?p"
    using Cons.prems by (simp add: op_defs)
  also have "\<dots> = (Inr (), ?p\<lparr>pl_pooled := pl_pooled ?p \<union> set is, pl_active := pl_active ?p - set is\<rparr>)"
    using Cons.prems by (intro Cons.IH) auto
  also have "pl_active ?p - set is = pl_active p - set (i # is)"
    by auto
  finally show ?case by simp
qed (simp add: ret_def)

text \<open>\<open>_process_free\<close> does not throw: what is in the queue is in use.\<close>

definition recycled :: "pool \<Rightarrow> pool" where
  "recycled p = p\<lparr>pl_pooled := pl_pooled p \<union> pl_queue p, pl_active := pl_active p - pl_queue p, pl_queue := {}\<rparr>"

lemma recycled_sel [simp]:
  "pl_pooled (recycled p) = pl_pooled p \<union> pl_queue p" "pl_active (recycled p) = pl_active p - pl_queue p"
  "pl_queue (recycled p) = {}" "pl_limit (recycled p) = pl_limit p"
  by (simp_all add: recycled_def)

lemma process_free_ok:
  assumes "pool_ok p"
  shows "process_free p = (Inr (card (pl_active p - pl_queue p)), recycled p)"
proof (cases "pl_queue p = {}")
  case True
  then show ?thesis by (simp add: process_free_def recycled_def op_defs)
next
  case False
  have fin: "finite (pl_queue p)"
    using assms finite_subset by (auto simp: pool_ok_def)
  have "free_items (sorted_list_of_set (pl_queue p)) (p\<lparr>pl_queue := {}\<rparr>) =
      (Inr (), p\<lparr>pl_queue := {}, pl_pooled := pl_pooled p \<union> pl_queue p, pl_active := pl_active p - pl_queue p\<rparr>)"
    using assms fin by (subst free_items_ok) (auto simp: pool_ok_def)
  with False show ?thesis
    by (simp add: process_free_def recycled_def op_defs)
qed

lemma recycled_ok: "pool_ok p \<Longrightarrow> pool_ok (recycled p)"
  by (auto simp: pool_ok_def dest: finite_subset)

section \<open>One connection\<close>

text \<open>What another connection does to a connection.\<close>

lemma conn_ok_away:
  assumes "conn_ok ok wants fits j t" "ok m" "\<And>e d. wants m e d = Some j \<Longrightarrow> wants (c_mx t) e d = Some j"
    and "\<not> c_released t \<Longrightarrow> c_rd t \<in> F \<and> (\<forall>e. wants m e (c_rd t) = wants (c_mx t) e (c_rd t))"
  shows "conn_ok ok wants fits j (t\<lparr>c_mx := m, c_fds := F\<rparr>)"
proof (cases "c_released t")
  case True
  then have "idle ok wants j t"
    using assms(1) by (auto simp: conn_ok_def is_open_def)
  then have "idle ok wants j (t\<lparr>c_mx := m, c_fds := F\<rparr>)"
    using assms(2,3) unfolding idle_def by auto
  then show ?thesis by (simp add: conn_ok_def)
next
  case False
  then have t: "registered ok wants fits j t" "is_open t" "flowing t \<or> ending t"
    using assms(1) by (auto simp: conn_ok_def idle_def)
  have "wants m e d \<noteq> Some j" if "d \<noteq> c_rd t" for e d
    using t(1) assms(3) [of e d] that by (auto simp: registered_def)
  then have "registered ok wants fits j (t\<lparr>c_mx := m, c_fds := F\<rparr>)"
    using t(1) assms(2) assms(4) [OF False] by (simp add: registered_def)
  moreover have "is_open (t\<lparr>c_mx := m, c_fds := F\<rparr>)"
    using t(2) assms(4) [OF False] by (simp add: is_open_def)
  moreover have "flowing (t\<lparr>c_mx := m, c_fds := F\<rparr>) \<or> ending (t\<lparr>c_mx := m, c_fds := F\<rparr>)"
    using t(3) by (simp add: conn_defs)
  ultimately show ?thesis by (simp add: conn_ok_def)
qed

lemma load_put: "load j (put_conn i s v) = (if j = i then s else (load j v)\<lparr>c_mx := c_mx s, c_fds := c_fds s\<rparr>)"
  by (simp add: load_def put_conn_def)

lemma load_sel [simp]:
  "c_mx (load i v) = sv_mx v" "c_fds (load i v) = sv_fds v" "c_rd (load i v) = c_rd (sv_conns v i)"
  "c_released (load i v) = c_released (sv_conns v i)" "c_recursive (load i v) = c_recursive (sv_conns v i)"
  "c_freed (load i v) = c_freed (sv_conns v i)"
  by (simp_all add: load_def)

lemma put_sel [simp]:
  "sv_mx (put_conn i s v) = c_mx s" "sv_fds (put_conn i s v) = c_fds s" "sv_conns (put_conn i s v) = (sv_conns v)(i := s)"
  "sv_listen (put_conn i s v) = sv_listen v" "sv_started (put_conn i s v) = sv_started v" "sv_max (put_conn i s v) = sv_max v"
  "pl_active (sv_pool (put_conn i s v)) = pl_active (sv_pool v)" "pl_pooled (sv_pool (put_conn i s v)) = pl_pooled (sv_pool v)"
  "known (put_conn i s v) = known v"
  by (simp_all add: put_conn_def pool_free_def known_def)

lemma put_queue:
  "pl_queue (sv_pool (put_conn i s v)) =
     (if c_freed (sv_conns v i) < c_freed s then insert i (pl_queue (sv_pool v)) else pl_queue (sv_pool v))"
  by (simp add: put_conn_def pool_free_def)

text \<open>The limits do not change.\<close>

lemma free_items_limit: "free_items is p = (r, p') \<Longrightarrow> pl_limit p' = pl_limit p"
  by (induction "is" arbitrary: p) (auto simp: op_defs split: if_splits)

lemma process_free_limit: "process_free p = (r, p') \<Longrightarrow> pl_limit p' = pl_limit p"
  using free_items_limit by (fastforce simp: process_free_def op_defs split: if_splits sum.splits prod.splits)

lemma server_create_limits:
  assumes "server_create fresh proto v = (r, v')"
  shows "sv_max v' = sv_max v" "pl_limit (sv_pool v') = pl_limit (sv_pool v)" "sv_listen v' = sv_listen v"
    "sv_started v' = sv_started v"
proof -
  obtain q p where q: "process_free (sv_pool v) = (q, p)" by force
  then have "pl_limit p = pl_limit (sv_pool v)" by (rule process_free_limit)
  with assms q show "sv_max v' = sv_max v" "pl_limit (sv_pool v') = pl_limit (sv_pool v)" "sv_listen v' = sv_listen v"
    "sv_started v' = sv_started v"
    by (auto simp: server_create_def on_pool_def pool_create_def op_defs Let_def split: sum.splits if_splits)
qed

text \<open>A connection of the pool is put to use.\<close>

definition taken :: "nat \<Rightarrow> nat \<Rightarrow> 'm tcp_server \<Rightarrow> 'm tcp_server" where
  "taken i d v = v\<lparr>sv_fds := insert d (sv_fds v),
     sv_pool := (sv_pool v)\<lparr>pl_active := insert i (pl_active (sv_pool v)), pl_pooled := pl_pooled (sv_pool v) - {i}\<rparr>\<rparr>"

lemma taken_sel [simp]:
  "pl_active (sv_pool (taken i d v)) = insert i (pl_active (sv_pool v))"
  "pl_pooled (sv_pool (taken i d v)) = pl_pooled (sv_pool v) - {i}" "pl_queue (sv_pool (taken i d v)) = pl_queue (sv_pool v)"
  "sv_mx (taken i d v) = sv_mx v" "sv_fds (taken i d v) = insert d (sv_fds v)" "sv_conns (taken i d v) = sv_conns v"
  "sv_listen (taken i d v) = sv_listen v" "sv_started (taken i d v) = sv_started v"
  by (simp_all add: taken_def)

text \<open>What is asked of the prototype of the connections, and of the limits.\<close>

definition proto_ok :: "'m conn \<Rightarrow> bool" where
  "proto_ok c \<longleftrightarrow> c_has_mux c \<and> c_released c \<and> c_closed c \<and> \<not> c_rstatus c \<and> \<not> c_wstatus c
     \<and> \<not> c_mux_read c \<and> \<not> c_mux_write c \<and> \<not> c_mux_urgent c \<and> c_swh_count c = 0 \<and> c_wbuf c = [] \<and> c_recursive c = 0"

text \<open>A server that listens on \<open>d\<close> and takes at most \<open>n\<close> connections.\<close>

definition serving :: "nat \<Rightarrow> nat \<Rightarrow> 'm tcp_server \<Rightarrow> bool" where
  "serving d n v \<longleftrightarrow> sv_started v \<and> sv_listen v = Some d \<and> sv_max v = n \<and> n \<le> pl_limit (sv_pool v)
     \<and> card (pl_active (sv_pool v)) \<le> n"

context imux_laws
begin

abbreviation "sgood \<equiv> sv_ok ok wants fits"

lemma put_opens:
  assumes "frame ok wants fits i (load i v) s"
  shows "opens (put_conn i s v) = (if c_released s then opens v - {i} else opens v)"
  using assms by (auto simp: opens_def frame_def)

lemma put_use:
  assumes "use_ok v" "i \<in> known v" "frame ok wants fits i (load i v) s"
  shows "use_ok (put_conn i s v)"
proof -
  have freed: "c_freed (sv_conns v i) < c_freed s \<longleftrightarrow> c_released s \<and> \<not> c_released (sv_conns v i)"
    "c_released (sv_conns v i) \<longrightarrow> c_released s"
    using assms(3) by (auto simp: frame_def)
  have pool: "pool_ok (sv_pool (put_conn i s v))"
    using assms(1,2) freed(1) by (auto simp: use_ok_def pool_ok_def put_queue known_def)
  show ?thesis
    using assms(1,2) freed pool unfolding use_ok_def by (auto simp: put_queue)
qed

lemma put_wants:
  assumes "sgood v" "i \<in> known v" "frame ok wants fits i (load i v) s" "wants (c_mx s) e d = Some j" "j \<noteq> i"
  shows "wants (sv_mx v) e d = Some j"
proof (cases "c_released (sv_conns v i) \<or> d \<noteq> c_rd (sv_conns v i)")
  case True
  then show ?thesis
    using assms(3,4) by (auto simp: frame_def away_def)
next
  case False
  then have "own wants i d (c_mx s)"
    using assms(3) by (auto simp: frame_def)
  then show ?thesis
    using assms(4,5) unfolding own_def by (metis option.distinct(1) option.inject)
qed

lemma put_other:
  assumes "sgood v" "i \<in> known v" "frame ok wants fits i (load i v) s" "j \<in> known v" "j \<noteq> i"
  shows "good j (load j (put_conn i s v))"
proof -
  have "good j ((load j v)\<lparr>c_mx := c_mx s, c_fds := c_fds s\<rparr>)"
  proof (rule conn_ok_away)
    show "good j (load j v)" using assms by (simp add: sv_ok_def conns_ok_def)
    show "ok (c_mx s)"
      using assms(3) by (auto simp: frame_def conn_ok_def idle_def registered_def)
    show "wants (c_mx (load j v)) e d = Some j" if "wants (c_mx s) e d = Some j" for e d
      using put_wants [OF assms(1-3) that assms(5)] by simp
    assume "\<not> c_released (load j v)"
    then have j: "j \<in> opens v"
      using assms(1,4) by (auto simp: sv_ok_def use_ok_def opens_def known_def)
    then have rd: "c_rd (sv_conns v j) \<in> sv_fds v"
      using assms(1) by (auto simp: sv_ok_def fds_ok_def)
    have "c_rd (sv_conns v j) \<noteq> c_rd (sv_conns v i)" if "\<not> c_released (sv_conns v i)"
    proof -
      have "i \<in> opens v"
        using assms(1,2) that by (auto simp: sv_ok_def use_ok_def opens_def known_def)
      then show ?thesis
        using assms(1,5) j by (auto simp: sv_ok_def fds_ok_def inj_on_def)
    qed
    then show "c_rd (load j v) \<in> c_fds s \<and> (\<forall>e. wants (c_mx s) e (c_rd (load j v)) = wants (c_mx (load j v)) e (c_rd (load j v)))"
      using assms(3) rd by (cases "c_released (sv_conns v i)") (auto simp: frame_def away_def)
  qed
  then show ?thesis
    using assms(5) by (simp add: load_put)
qed

lemma put_fds:
  assumes "sgood v" "i \<in> known v" "frame ok wants fits i (load i v) s"
  shows "fds_ok wants fits (put_conn i s v)"
proof -
  let ?rd = "\<lambda>i. c_rd (sv_conns v i)" let ?v = "put_conn i s v"
  note fr = assms(3) [unfolded frame_def, simplified]
  have old: "use_ok v" "fds_ok wants fits v" using assms(1) by (simp_all add: sv_ok_def)
  have rd: "c_rd (sv_conns ?v j) = ?rd j" for j
    using fr by simp
  have op: "opens ?v = (if c_released s then opens v - {i} else opens v)"
    by (rule put_opens [OF assms(3)])
  have iop: "i \<in> opens v \<longleftrightarrow> \<not> c_released (sv_conns v i)"
    using old(1) assms(2) by (auto simp: use_ok_def opens_def known_def)
  have inj: "inj_on ?rd (opens v)" and fds: "sv_fds v = set_option (sv_listen v) \<union> ?rd ` opens v"
    using old(2) by (simp_all add: fds_ok_def)
  have owners: "j \<in> opens ?v \<or> j = 0 \<and> e = Ev_read \<and> sv_listen v = Some d" if w: "wants (c_mx s) e d = Some j" for e d j
  proof (cases "j = i")
    case True
    then have "\<not> c_released s"
      using w fr by (auto simp: conn_ok_def idle_def is_open_def)
    then show ?thesis using True iop op fr by auto
  next
    case False
    then have "wants (sv_mx v) e d = Some j" by (rule put_wants [OF assms w])
    then have "j \<in> opens v \<or> j = 0 \<and> e = Ev_read \<and> sv_listen v = Some d"
      using old(2) by (simp add: fds_ok_def)
    then show ?thesis using False op by auto
  qed
  have lis: "fits d \<and> wants (c_mx s) Ev_read d = Some 0 \<and> (\<forall>j \<in> opens ?v. ?rd j \<noteq> d)" if "sv_listen v = Some d" for d
  proof -
    have "fits d" "wants (sv_mx v) Ev_read d = Some 0" "\<forall>j \<in> opens v. ?rd j \<noteq> d"
      using old(2) that by (simp_all add: fds_ok_def)
    moreover from this have "wants (c_mx s) Ev_read d = wants (sv_mx v) Ev_read d"
      using fr iop by (cases "c_released (sv_conns v i)") (auto simp: away_def)
    ultimately show ?thesis using op by auto
  qed
  have "c_fds s = set_option (sv_listen v) \<union> ?rd ` opens ?v"
  proof (cases "c_released s \<and> \<not> c_released (sv_conns v i)")
    case True
    then have i: "i \<in> opens v" using iop by simp
    then have "?rd ` (opens v - {i}) = ?rd ` opens v - {?rd i}"
      using inj_on_image_set_diff [OF inj, of "opens v" "{i}"] by simp
    moreover have "?rd i \<notin> set_option (sv_listen v)"
      using old(2) i by (auto simp: fds_ok_def)
    ultimately show ?thesis
      using True fr fds op by auto
  next
    case False
    then show ?thesis using fr fds op iop by auto
  qed
  moreover have "inj_on ?rd (opens ?v)"
    using inj op by (auto simp: inj_on_def)
  ultimately show ?thesis
    using owners lis unfolding fds_ok_def rd by simp
qed

lemma put_ok:
  assumes "sgood v" "i \<in> known v" "frame ok wants fits i (load i v) s"
  shows "sgood (put_conn i s v)"
proof -
  have "good i s" "c_recursive s = 0"
    using assms by (simp_all add: frame_def sv_ok_def conns_ok_def)
  then have "conns_ok ok wants fits (put_conn i s v)"
    using put_other [OF assms] assms(1) unfolding conns_ok_def sv_ok_def by (auto simp: load_put)
  moreover have "ok (c_mx s)"
    using \<open>good i s\<close> by (auto simp: conn_ok_def idle_def registered_def)
  ultimately show ?thesis
    using put_fds [OF assms] put_use [OF _ assms(2,3)] assms(1) by (simp add: sv_ok_def)
qed

lemma happen_ok:
  assumes "sgood v" "i \<in> known v" "happening_law x"
  shows "sgood (put_conn i (happen M i x (load i v)) v)"
    and "flowing (happen M i x (load i v)) \<Longrightarrow> flowing (load i v)"
proof -
  have "good i (load i v)" "c_recursive (load i v) = 0"
    using assms(1,2) by (simp_all add: sv_ok_def conns_ok_def)
  from happen_step [OF assms(3) this]
  show "sgood (put_conn i (happen M i x (load i v)) v)" "flowing (happen M i x (load i v)) \<Longrightarrow> flowing (load i v)"
    using put_ok [OF assms(1,2)] by (auto simp: emits_def)
qed

section \<open>A new client\<close>

text \<open>A descriptor that is not open is not watched.\<close>

lemma not_watched:
  assumes "sgood v" "d \<notin> sv_fds v"
  shows "wants (sv_mx v) e d = None"
proof (rule ccontr)
  assume "wants (sv_mx v) e d \<noteq> None"
  then obtain h where h: "wants (sv_mx v) e d = Some h" by blast
  have fds: "fds_ok wants fits v" using assms(1) by (simp add: sv_ok_def)
  then have "h \<in> opens v"
    using h assms(2) by (auto simp: fds_ok_def)
  then have "good h (load h v)" "\<not> c_released (load h v)" "c_rd (sv_conns v h) \<in> sv_fds v"
    using assms(1) fds by (auto simp: sv_ok_def conns_ok_def known_def opens_def fds_ok_def)
  then have "d = c_rd (sv_conns v h)"
    using h by (auto simp: conn_ok_def idle_def registered_def)
  with assms(2) \<open>c_rd (sv_conns v h) \<in> sv_fds v\<close> show False by simp
qed

lemma same_wants:
  assumes "sgood v" "ok m" "wants m = wants (sv_mx v)"
  shows "sgood (v\<lparr>sv_mx := m\<rparr>)"
proof -
  have "good i ((load i v)\<lparr>c_mx := m, c_fds := sv_fds v\<rparr>)" if "i \<in> known v" for i
  proof (rule conn_ok_away)
    show g: "good i (load i v)" using that assms(1) by (simp add: sv_ok_def conns_ok_def)
    show "c_rd (load i v) \<in> sv_fds v \<and> (\<forall>e. wants m e (c_rd (load i v)) = wants (c_mx (load i v)) e (c_rd (load i v)))"
      if "\<not> c_released (load i v)"
      using that g assms(3) by (auto simp: conn_ok_def idle_def is_open_def)
  qed (use assms in simp_all)
  then have "conns_ok ok wants fits (v\<lparr>sv_mx := m\<rparr>)"
    using assms(1) by (simp add: sv_ok_def conns_ok_def known_def load_def)
  moreover have "use_ok (v\<lparr>sv_mx := m\<rparr>)" "fds_ok wants fits (v\<lparr>sv_mx := m\<rparr>)"
    using assms(1,3) by (simp_all add: sv_ok_def use_ok_def fds_ok_def opens_def)
  ultimately show ?thesis
    using assms(2) by (simp add: sv_ok_def)
qed

lemma recycle_ok:
  assumes "sgood v"
  shows "sgood (v\<lparr>sv_pool := recycled (sv_pool v)\<rparr>)" and "opens (v\<lparr>sv_pool := recycled (sv_pool v)\<rparr>) = opens v"
proof -
  let ?v = "v\<lparr>sv_pool := recycled (sv_pool v)\<rparr>"
  have u: "use_ok v" using assms by (simp add: sv_ok_def)
  then show op: "opens ?v = opens v"
    by (auto simp: opens_def use_ok_def)
  have kn: "known ?v = known v"
    using u by (auto simp: known_def use_ok_def pool_ok_def)
  have "use_ok ?v"
    using u recycled_ok unfolding use_ok_def pool_ok_def by auto
  moreover have "conns_ok ok wants fits ?v"
    using assms by (simp add: sv_ok_def conns_ok_def kn load_def)
  moreover have "fds_ok wants fits ?v"
    using assms by (simp add: sv_ok_def fds_ok_def op)
  ultimately show "sgood ?v"
    using assms by (simp add: sv_ok_def)
qed

text \<open>A client that is turned away leaves nothing behind.\<close>

lemma close_ok:
  assumes "sgood v" "d \<notin> sv_fds v" "fits d"
  obtains v' where "server_close M d (v\<lparr>sv_fds := insert d (sv_fds v)\<rparr>) = (Inr (), v')" "sgood v'"
    "sv_pool v' = sv_pool v" "sv_conns v' = sv_conns v" "sv_fds v' = sv_fds v" "sv_max v' = sv_max v"
    "sv_listen v' = sv_listen v" "sv_started v' = sv_started v"
proof -
  let ?m = "mx_close M d (sv_mx v)"
  have "ok ?m" "wants ?m = wants (sv_mx v)"
    using close_law [OF _ assms(3) not_watched [OF assms(1,2)]] assms(1) by (auto simp: sv_ok_def)
  then have "sgood (v\<lparr>sv_mx := ?m\<rparr>)"
    by (rule same_wants [OF assms(1)])
  moreover have "server_close M d (v\<lparr>sv_fds := insert d (sv_fds v)\<rparr>) = (Inr (), v\<lparr>sv_mx := ?m\<rparr>)"
    using assms(2) by (simp add: server_close_def)
  ultimately show ?thesis by (intro that [of "v\<lparr>sv_mx := ?m\<rparr>"]) simp_all
qed

lemma taken_step:
  assumes "sgood v" "i \<in> pl_pooled (sv_pool v)" "d \<notin> sv_fds v" "fits d"
  obtains s where "assign M i d l a (load i (taken i d v)) = (Inr (), s)" "good i s" "c_rd s = d" "\<not> c_released s"
    "c_recursive s = 0" "c_fds s = insert d (sv_fds v)" "c_freed s = c_freed (sv_conns v i)"
    "away wants d (sv_mx v) (c_mx s)" "own wants i d (c_mx s)"
proof -
  let ?s = "load i (taken i d v)"
  have g: "good i (load i v)" "c_released (load i v)" "c_recursive (sv_conns v i) = 0"
    using assms(1,2) by (auto simp: sv_ok_def conns_ok_def known_def use_ok_def)
  have "idle ok wants i ?s"
    using g(1,2) by (auto simp: conn_ok_def is_open_def idle_def load_def)
  from assign_step [OF this _ assms(4), of l a] obtain s where s:
    "assign M i d l a ?s = (Inr (), s)" "good i s" "flowing s" "c_rd s = d" "c_wbuf s = []"
    "c_sent s = c_sent ?s" "c_recursive s = c_recursive ?s" "c_fds s = c_fds ?s" "c_freed s = c_freed ?s"
    "away wants d (c_mx ?s) (c_mx s)" "\<not> c_released s"
    using not_watched [OF assms(1,3)] by auto
  then show ?thesis
    using g(3) good_own [OF s(2,11)] by (intro that [of s]) simp_all
qed

lemma taken_use:
  assumes "use_ok v" "i \<in> pl_pooled (sv_pool v)" "pl_queue (sv_pool v) = {}"
    and "\<not> c_released s" "c_freed s = c_freed (sv_conns v i)"
  shows "use_ok (put_conn i s (taken i d v))"
  using assms unfolding use_ok_def pool_ok_def by (auto simp: put_queue)

lemma taken_opens:
  assumes "use_ok v" "i \<in> pl_pooled (sv_pool v)" "\<not> c_released s"
  shows "opens (put_conn i s (taken i d v)) = insert i (opens v)" and "i \<notin> opens v"
  using assms by (auto simp: opens_def use_ok_def pool_ok_def)

lemma taken_conns:
  assumes "sgood v" "i \<in> pl_pooled (sv_pool v)" "d \<notin> sv_fds v"
    and s: "good i s" "c_recursive s = 0" "c_fds s = insert d (sv_fds v)" "away wants d (sv_mx v) (c_mx s)"
      "own wants i d (c_mx s)"
  shows "conns_ok ok wants fits (put_conn i s (taken i d v))"
proof -
  have m: "ok (c_mx s)"
    using s(1) by (auto simp: conn_ok_def idle_def registered_def)
  have "good j ((load j v)\<lparr>c_mx := c_mx s, c_fds := c_fds s\<rparr>)" if j: "j \<in> known v" "j \<noteq> i" for j
  proof (rule conn_ok_away)
    show g: "good j (load j v)" using j assms(1) by (simp add: sv_ok_def conns_ok_def)
    show "wants (c_mx (load j v)) e d' = Some j" if "wants (c_mx s) e d' = Some j" for e d'
      using that s(4,5) j(2) unfolding own_def away_def load_sel by (metis option.distinct(1) option.inject)
    assume "\<not> c_released (load j v)"
    then have "c_rd (load j v) \<in> sv_fds v"
      using g by (auto simp: conn_ok_def idle_def is_open_def)
    then show "c_rd (load j v) \<in> c_fds s \<and> (\<forall>e. wants (c_mx s) e (c_rd (load j v)) = wants (c_mx (load j v)) e (c_rd (load j v)))"
      using assms(3) s(3,4) by (auto simp: away_def)
  qed (rule m)
  moreover have "known (taken i d v) = known v"
    using assms(2) by (auto simp: known_def)
  moreover have "load j (taken i d v) = (load j v)\<lparr>c_fds := insert d (sv_fds v)\<rparr>" for j
    by (simp add: load_def)
  ultimately show ?thesis
    using s(1,2) assms(1) by (auto simp: conns_ok_def sv_ok_def load_put)
qed

lemma taken_fds:
  assumes "sgood v" "i \<in> pl_pooled (sv_pool v)" "d \<notin> sv_fds v"
    and s: "c_rd s = d" "\<not> c_released s" "c_fds s = insert d (sv_fds v)" "away wants d (sv_mx v) (c_mx s)"
      "own wants i d (c_mx s)"
  shows "fds_ok wants fits (put_conn i s (taken i d v))"
proof -
  let ?v = "put_conn i s (taken i d v)"
  have old: "use_ok v" "fds_ok wants fits v" using assms(1) by (simp_all add: sv_ok_def)
  have op: "opens ?v = insert i (opens v)" "i \<notin> opens v"
    using taken_opens [OF old(1) assms(2) s(2)] by simp_all
  have rd: "(\<lambda>j. c_rd (sv_conns ?v j)) ` opens v = (\<lambda>j. c_rd (sv_conns v j)) ` opens v"
    using op(2) by (intro image_cong) auto
  have open_rd: "\<forall>j \<in> opens v. c_rd (sv_conns v j) \<noteq> d"
    using old(2) assms(3) by (auto simp: fds_ok_def)
  have "inj_on (\<lambda>j. c_rd (sv_conns ?v j)) (insert i (opens v))"
    using old(2) op(2) open_rd s(1) by (auto simp: fds_ok_def inj_on_def)
  moreover have "h \<in> insert i (opens v) \<or> h = 0 \<and> e = Ev_read \<and> sv_listen v = Some d'" if w: "wants (c_mx s) e d' = Some h" for e d' h
  proof (cases "d' = d")
    case True
    then show ?thesis using w s(5) unfolding own_def by (metis insertI1 option.distinct(1) option.inject)
  next
    case False
    then have "wants (sv_mx v) e d' = Some h" using w s(4) by (simp add: away_def)
    then show ?thesis using old(2) by (auto simp: fds_ok_def)
  qed
  moreover have "fits d' \<and> wants (c_mx s) Ev_read d' = Some 0 \<and> (\<forall>j \<in> insert i (opens v). c_rd (sv_conns ?v j) \<noteq> d')"
    if l: "sv_listen v = Some d'" for d'
  proof -
    have "d' \<noteq> d" using l old(2) assms(3) by (auto simp: fds_ok_def)
    then show ?thesis
      using l old(2) s(1,4) by (auto simp: fds_ok_def away_def)
  qed
  ultimately show ?thesis
    using old(2) op(1) rd s(1,3) by (auto simp: fds_ok_def)
qed

lemma taken_ok:
  assumes "sgood v" "i \<in> pl_pooled (sv_pool v)" "pl_queue (sv_pool v) = {}" "d \<notin> sv_fds v" "fits d"
  obtains s where "assign M i d l a (load i (taken i d v)) = (Inr (), s)" "sgood (put_conn i s (taken i d v))"
    "c_rd s = d" "opens (put_conn i s (taken i d v)) = insert i (opens v)" "c_fds s = insert d (sv_fds v)"
proof -
  obtain s where s: "assign M i d l a (load i (taken i d v)) = (Inr (), s)" "good i s" "c_rd s = d" "\<not> c_released s"
    "c_recursive s = 0" "c_fds s = insert d (sv_fds v)" "c_freed s = c_freed (sv_conns v i)"
    "away wants d (sv_mx v) (c_mx s)" "own wants i d (c_mx s)"
    by (rule taken_step [OF assms(1,2,4,5)])
  have u: "use_ok v" using assms(1) by (simp add: sv_ok_def)
  have "ok (c_mx s)" using s(2) by (auto simp: conn_ok_def idle_def registered_def)
  then have "sgood (put_conn i s (taken i d v))"
    using taken_use [OF u assms(2,3) s(4,7)] taken_conns [OF assms(1,2,4) s(2,5,6,8,9)]
      taken_fds [OF assms(1,2,4) s(3,4,6,8,9)] by (simp add: sv_ok_def)
  then show ?thesis
    using that s taken_opens [OF u assms(2) s(4)] by blast
qed

text \<open>A new connection object is as good as one of the pool.\<close>

lemma add_fresh:
  assumes "sgood v" "fresh \<notin> known v" "fresh \<noteq> 0" "idle ok wants fresh (proto\<lparr>c_mx := sv_mx v\<rparr>)" "c_recursive proto = 0"
  shows "sgood (v\<lparr>sv_conns := (sv_conns v)(fresh := proto),
      sv_pool := (sv_pool v)\<lparr>pl_pooled := insert fresh (pl_pooled (sv_pool v))\<rparr>\<rparr>)" (is "sgood ?v")
    and "opens (v\<lparr>sv_conns := (sv_conns v)(fresh := proto),
      sv_pool := (sv_pool v)\<lparr>pl_pooled := insert fresh (pl_pooled (sv_pool v))\<rparr>\<rparr>) = opens v"
proof -
  have fr: "fresh \<notin> pl_active (sv_pool v)" using assms(2) by (simp add: known_def)
  then show op: "opens ?v = opens v" by (auto simp: opens_def)
  have "idle ok wants fresh (load fresh ?v)" "c_released proto"
    using assms(4) by (auto simp: idle_def load_def)
  then have "conns_ok ok wants fits ?v"
    using assms(1,5) by (auto simp: sv_ok_def conns_ok_def known_def load_def conn_ok_def)
  moreover have "use_ok ?v"
    using assms(1,3) fr \<open>c_released proto\<close> unfolding sv_ok_def use_ok_def pool_ok_def by auto
  moreover have "(\<lambda>i. c_rd (sv_conns ?v i)) ` opens v = (\<lambda>i. c_rd (sv_conns v i)) ` opens v"
    "inj_on (\<lambda>i. c_rd (sv_conns ?v i)) (opens v) = inj_on (\<lambda>i. c_rd (sv_conns v i)) (opens v)"
    "\<forall>i \<in> opens v. c_rd (sv_conns ?v i) = c_rd (sv_conns v i)"
    using fr by (auto simp: opens_def inj_on_def)
  then have "fds_ok wants fits ?v"
    using assms(1) unfolding sv_ok_def fds_ok_def op by simp
  ultimately show "sgood ?v"
    using assms(1) by (simp add: sv_ok_def)
qed

lemma proto_idle:
  assumes "sgood v" "fresh \<notin> known v" "fresh \<noteq> 0" "proto_ok proto"
  shows "idle ok wants fresh (proto\<lparr>c_mx := sv_mx v\<rparr>)"
proof -
  have "wants (sv_mx v) e d \<noteq> Some fresh" for e d
    using assms(1-3) unfolding sv_ok_def fds_ok_def known_def opens_def by blast
  then show ?thesis
    using assms(1,4) by (auto simp: idle_def proto_ok_def sv_ok_def)
qed

lemma create_step:
  assumes "sgood v" "fresh \<notin> known v" "fresh \<noteq> 0" "proto_ok proto" "d \<notin> sv_fds v"
  obtains "server_create fresh proto (v\<lparr>sv_fds := insert d (sv_fds v)\<rparr>)
      = (Inr None, (v\<lparr>sv_fds := insert d (sv_fds v), sv_pool := recycled (sv_pool v)\<rparr>))"
      "pl_limit (sv_pool v) \<le> card (pl_active (sv_pool v) - pl_queue (sv_pool v))"
  | i w where "server_create fresh proto (v\<lparr>sv_fds := insert d (sv_fds v)\<rparr>) = (Inr (Some i), taken i d w)" "sgood w"
      "i \<in> pl_pooled (sv_pool w)" "pl_queue (sv_pool w) = {}" "sv_fds w = sv_fds v" "opens w = opens v"
      "pl_active (sv_pool w) = pl_active (sv_pool v) - pl_queue (sv_pool v)"
proof -
  let ?u = "v\<lparr>sv_pool := recycled (sv_pool v)\<rparr>" and ?p = "recycled (sv_pool v)"
  have u: "sgood ?u" "opens ?u = opens v" using recycle_ok [OF assms(1)] by simp_all
  have po: "pool_ok (sv_pool v)" "pool_ok ?p"
    using assms(1) recycled_ok by (auto simp: sv_ok_def use_ok_def)
  have pf: "process_free (sv_pool v) = (Inr (card (pl_active ?p)), ?p)"
    using process_free_ok [OF po(1)] by simp
  show ?thesis
  proof (cases "pl_pooled ?p = {}")
    case False
    define i where "i = Min (pl_pooled ?p)"
    have i: "i \<in> pl_pooled ?p"
      using False po(2) unfolding i_def by (intro Min_in) (auto simp: pool_ok_def)
    have "server_create fresh proto (v\<lparr>sv_fds := insert d (sv_fds v)\<rparr>) = (Inr (Some i), taken i d ?u)"
      using False by (simp add: server_create_def on_pool_def pool_create_def pf op_defs Let_def i_def [symmetric] taken_def del: recycled_sel)
    then show ?thesis using that(2) [of i ?u] u i by simp
  next
    case True
    note new = server_create_def on_pool_def pool_create_def pf op_defs True
    show ?thesis
    proof (cases "card (pl_active ?p) < pl_limit ?p")
      case False
      then have "server_create fresh proto (v\<lparr>sv_fds := insert d (sv_fds v)\<rparr>)
        = (Inr None, v\<lparr>sv_fds := insert d (sv_fds v), sv_pool := ?p\<rparr>)"
        by (simp add: new del: recycled_sel)
      then show ?thesis using that(1) False by simp
    next
      case lim: True
      let ?w = "?u\<lparr>sv_conns := (sv_conns ?u)(fresh := proto), sv_pool := ?p\<lparr>pl_pooled := insert fresh (pl_pooled ?p)\<rparr>\<rparr>"
      have "fresh \<notin> known ?u"
        using assms(2) po(1) by (auto simp: known_def pool_ok_def)
      from add_fresh [OF u(1) this assms(3)] proto_idle [OF u(1) this assms(3,4)]
      have w: "sgood ?w" "opens ?w = opens v"
        using assms(4) u(2) by (simp_all add: proto_ok_def)
      have "server_create fresh proto (v\<lparr>sv_fds := insert d (sv_fds v)\<rparr>) = (Inr (Some fresh), taken fresh d ?w)"
        using lim by (simp add: new taken_def del: recycled_sel)
      then show ?thesis using that(2) [of fresh ?w] w by simp
    qed
  qed
qed

lemma accept_ok:
  assumes "sgood v" "serving d0 n v" "fresh \<notin> known v" "fresh \<noteq> 0" "proto_ok proto" "d \<notin> sv_fds v" "fits d"
  obtains v' where "server_accept M fresh proto (Inr (Some (d, a))) v = (Inr None, v')" "sgood v'" "serving d0 n v'"
      "opens v' = opens v" "n \<le> card (pl_active (sv_pool v))" "sv_fds v' = sv_fds v"
  | i v' where "server_accept M fresh proto (Inr (Some (d, a))) v = (Inr (Some i), v')" "sgood v'" "serving d0 n v'"
      "opens v' = insert i (opens v)" "c_rd (sv_conns v' i) = d" "card (pl_active (sv_pool v)) < n"
      "sv_fds v' = insert d (sv_fds v)"
proof (cases "n \<le> card (pl_active (sv_pool v))")
  case True
  obtain v' where v': "server_close M d (v\<lparr>sv_fds := insert d (sv_fds v)\<rparr>) = (Inr (), v')" "sgood v'"
    "sv_pool v' = sv_pool v" "sv_conns v' = sv_conns v" "sv_fds v' = sv_fds v" "sv_max v' = sv_max v"
    "sv_listen v' = sv_listen v" "sv_started v' = sv_started v"
    by (rule close_ok [OF assms(1,6,7)])
  show ?thesis
  proof (rule that(1))
    show "server_accept M fresh proto (Inr (Some (d, a))) v = (Inr None, v')"
      using True assms(2) v'(1) by (simp add: server_accept_def op_defs serving_def)
    show "serving d0 n v'" using assms(2) v'(3,6-8) by (simp add: serving_def)
    show "opens v' = opens v" using v'(3,4) by (simp add: opens_def)
  qed (rule v'(2), rule True, rule v'(5))
next
  case False
  have le: "card (pl_active (sv_pool v) - pl_queue (sv_pool v)) \<le> card (pl_active (sv_pool v))"
    using assms(1) by (intro card_mono) (auto simp: sv_ok_def use_ok_def pool_ok_def)
  show ?thesis
  proof (rule create_step [OF assms(1,3,4,5,6)])
    assume "pl_limit (sv_pool v) \<le> card (pl_active (sv_pool v) - pl_queue (sv_pool v))"
    then show ?thesis
      using le False assms(2) by (simp add: serving_def)
  next
    fix i w
    assume w: "server_create fresh proto (v\<lparr>sv_fds := insert d (sv_fds v)\<rparr>) = (Inr (Some i), taken i d w)" "sgood w"
      "i \<in> pl_pooled (sv_pool w)" "pl_queue (sv_pool w) = {}" "sv_fds w = sv_fds v" "opens w = opens v"
      "pl_active (sv_pool w) = pl_active (sv_pool v) - pl_queue (sv_pool v)"
    then obtain s where s: "assign M i d (sv_local v) a (load i (taken i d w)) = (Inr (), s)"
      "sgood (put_conn i s (taken i d w))" "c_rd s = d" "opens (put_conn i s (taken i d w)) = insert i (opens w)"
      "c_fds s = insert d (sv_fds w)"
      using taken_ok [OF w(2-4) _ assms(7), of "sv_local v" a] assms(6) by metis
    have acc: "server_accept M fresh proto (Inr (Some (d, a))) v = (Inr (Some i), put_conn i s (taken i d w))"
      using False assms(2) w(1) s(1) by (simp add: server_accept_def op_defs on_conn_def serving_def)
    have "card (insert i (pl_active (sv_pool w))) \<le> Suc (card (pl_active (sv_pool w)))"
      by (rule card_insert_le_m1) simp_all
    then have "card (pl_active (sv_pool (taken i d w))) \<le> n"
      using le False w(7) by simp
    then have "serving d0 n (put_conn i s (taken i d w))"
      using assms(2) server_create_limits [OF w(1)] by (simp add: serving_def put_conn_def pool_free_def taken_def)
    then show ?thesis
      using that(2) [OF acc] s w(5,6) False by simp
  qed
qed

end

end
