(* ===== verification/Server_Runs.thy ===== *)
theory Server_Runs
  imports Server_Laws
begin

text \<open>
  Histories of a server: clients come, things happen to their connections, and in the end it is stopped.
\<close>

section \<open>Histories\<close>

text \<open>
  What the kernel and \<open>new\<close> promise: an accepted descriptor was not open, and a new object has an
  address of its own.
\<close>

definition event_law :: "(nat \<Rightarrow> bool) \<Rightarrow> 'm tcp_server \<Rightarrow> server_event \<Rightarrow> bool" where
  "event_law fits v x = (case x of
     Accepts fresh accepted \<Rightarrow> fresh \<noteq> 0 \<and> fresh \<notin> known v
       \<and> (case accepted of Inr (Some (d, a)) \<Rightarrow> d \<notin> sv_fds v \<and> fits d | _ \<Rightarrow> True)
   | Conn_event i y \<Rightarrow> i \<in> known v \<and> happening_law y)"

fun history_law :: "(nat \<Rightarrow> bool) \<Rightarrow> 'm imux \<Rightarrow> 'm conn \<Rightarrow> server_event list \<Rightarrow> 'm tcp_server \<Rightarrow> bool" where
  "history_law fits M proto [] v \<longleftrightarrow> True"
| "history_law fits M proto (x # xs) v \<longleftrightarrow>
     event_law fits v x \<and> history_law fits M proto xs (server_happen M proto x v)"

definition server_new :: "nat \<Rightarrow> nat \<Rightarrow> string \<Rightarrow> 'm conn \<Rightarrow> 'm \<Rightarrow> 'm tcp_server" where
  "server_new limit most local_address proto m =
     \<lparr>sv_started = False, sv_max = most, sv_listen = None, sv_local = local_address,
      sv_pool = \<lparr>pl_active = {}, pl_pooled = {}, pl_queue = {}, pl_limit = limit\<rparr>,
      sv_conns = (\<lambda>_. proto), sv_mx = m, sv_fds = {}\<rparr>"

text \<open>
  The connections that take no more output: every connection is one of them once it has been released,
  and the second release closes it.
\<close>

definition shut :: "'m tcp_server \<Rightarrow> nat set" where
  "shut v = {i. \<not> flowing (sv_conns v i)}"

definition winds_down :: "'m tcp_server \<Rightarrow> 'm tcp_server \<Rightarrow> bool" where
  "winds_down v v' \<longleftrightarrow> known v' = known v \<and> sv_listen v' = sv_listen v \<and> sv_started v' = sv_started v
     \<and> shut v \<subseteq> shut v' \<and> opens v' \<subseteq> opens v"

lemma winds_down_refl [simp]: "winds_down v v"
  by (simp add: winds_down_def)

lemma winds_down_trans: "winds_down v v' \<Longrightarrow> winds_down v' v'' \<Longrightarrow> winds_down v v''"
  by (auto simp: winds_down_def)

lemma flowing_load [simp]: "flowing (load i v) = flowing (sv_conns v i)"
  by (simp add: load_def flowing_def)

lemma put_winds_down:
  assumes "flowing s \<Longrightarrow> flowing (load i v)" "c_released (load i v) \<Longrightarrow> c_released s"
  shows "winds_down v (put_conn i s v)"
  using assms by (auto simp: winds_down_def shut_def opens_def)

context imux_laws
begin

lemma start_ok:
  assumes "ok m" "\<And>e d. wants m e d = None" "fits d" "most \<le> limit"
  obtains v where "server_start M d (server_new limit most l proto m) = (Inr (), v)" "sgood v"
    "serving d most v" "known v = {}"
proof -
  obtain old m' where m: "mx_set M Ev_read d 0 m = (Inr old, m')" "ok m'"
    "wants m' = (wants m)(Ev_read := (wants m Ev_read)(d := Some 0))"
    using setE [OF assms(1,3)] assms(2) by metis
  let ?v = "(server_new limit most l proto m)\<lparr>sv_listen := Some d, sv_fds := {d}, sv_mx := m', sv_started := True\<rparr>"
  have "server_start M d (server_new limit most l proto m) = (Inr (), ?v)"
    using m(1) by (simp add: server_start_def server_new_def op_defs on_server_mux_def)
  moreover have "sgood ?v"
    using m(2,3) assms(2,3)
    by (auto simp: sv_ok_def use_ok_def pool_ok_def conns_ok_def known_def fds_ok_def opens_def server_new_def
        split: if_splits)
  ultimately show ?thesis
    using assms(4) by (intro that [of ?v]) (simp_all add: serving_def server_new_def known_def)
qed

lemma server_happen_ok:
  assumes "sgood v" "serving d n v" "proto_ok proto" "event_law fits v x"
  shows "sgood (server_happen M proto x v) \<and> serving d n (server_happen M proto x v)"
proof (cases x)
  case (Conn_event i y)
  then have "i \<in> known v" "happening_law y" using assms(4) by (simp_all add: event_law_def)
  from happen_ok(1) [OF assms(1) this] show ?thesis
    using assms(2) Conn_event by (simp add: server_happen_def serving_def put_conn_def pool_free_def)
next
  case (Accepts fresh accepted)
  then have f: "fresh \<noteq> 0" "fresh \<notin> known v" using assms(4) by (simp_all add: event_law_def)
  show ?thesis
  proof (cases "\<exists>d a. accepted = Inr (Some (d, a))")
    case False
    then have "snd (server_accept M fresh proto accepted v) = v"
      by (auto simp: server_accept_def op_defs split: sum.splits option.splits)
    then show ?thesis using assms(1,2) Accepts by (simp add: server_happen_def)
  next
    case True
    then obtain d' a where acc: "accepted = Inr (Some (d', a))" by blast
    then have "d' \<notin> sv_fds v" "fits d'" using assms(4) Accepts by (simp_all add: event_law_def)
    then show ?thesis
      using accept_ok [OF assms(1,2) f(2,1) assms(3), of d' a] acc Accepts
      by (simp add: server_happen_def) (metis snd_conv)
  qed
qed

lemma server_happens_ok:
  "sgood v \<Longrightarrow> serving d n v \<Longrightarrow> proto_ok proto \<Longrightarrow> history_law fits M proto xs v \<Longrightarrow>
     sgood (server_happens M proto xs v) \<and> serving d n (server_happens M proto xs v)"
  by (induction xs arbitrary: v) (use server_happen_ok in auto)

section \<open>Stopping\<close>

lemma stop_listening_ok:
  assumes "sgood v"
  obtains v' where "stop_listening M v = (Inr (), v')" "sgood v'" "sv_listen v' = None" "sv_pool v' = sv_pool v"
    "sv_conns v' = sv_conns v" "sv_started v' = sv_started v"
proof (cases "sv_listen v")
  case None
  then show ?thesis using assms that [of v] by (simp add: stop_listening_def ret_def)
next
  case (Some d)
  have v: "ok (sv_mx v)" "fits d" "wants (sv_mx v) Ev_read d = Some 0" "d \<in> sv_fds v"
    "\<forall>i \<in> opens v. c_rd (sv_conns v i) \<noteq> d"
    and w: "\<And>e d h. wants (sv_mx v) e d = Some h \<Longrightarrow> h \<in> opens v \<or> h = 0 \<and> e = Ev_read \<and> sv_listen v = Some d"
    using assms Some by (auto simp: sv_ok_def fds_ok_def)
  obtain old m where m: "mx_reset M Ev_read d (sv_mx v) = (Inr old, m)" "ok m"
    "wants m = (wants (sv_mx v))(Ev_read := (wants (sv_mx v) Ev_read)(d := None))"
    using resetE [OF v(1-3)] .
  have none: "wants m e d = None" for e
  proof (rule ccontr)
    assume "wants m e d \<noteq> None"
    then obtain h where h: "wants (sv_mx v) e d = Some h" "e \<noteq> Ev_read"
      using m(3) by (auto split: if_splits)
    then have "h \<in> opens v" using w by blast
    then have "good h (load h v)" "\<not> c_released (load h v)"
      using assms by (auto simp: sv_ok_def conns_ok_def known_def opens_def)
    then have "d = c_rd (sv_conns v h)"
      using h(1) by (auto simp: conn_ok_def idle_def registered_def)
    then show False using v(5) \<open>h \<in> opens v\<close> by blast
  qed
  let ?m = "mx_close M d m"
  have m': "ok ?m" "wants ?m = wants m"
    using close_law [OF m(2) v(2) none] by auto
  let ?v = "v\<lparr>sv_mx := ?m, sv_fds := sv_fds v - {d}, sv_listen := None\<rparr>"
  have "stop_listening M v = (Inr (), ?v)"
    using Some m(1) v(4) by (simp add: stop_listening_def on_server_mux_def server_close_def op_defs)
  moreover have "good j ((load j v)\<lparr>c_mx := ?m, c_fds := sv_fds v - {d}\<rparr>)" if j: "j \<in> known v" for j
  proof (rule conn_ok_away)
    show g: "good j (load j v)" using j assms by (simp add: sv_ok_def conns_ok_def)
    show "wants (c_mx (load j v)) e d' = Some j" if "wants ?m e d' = Some j" for e d'
      using that m(3) m'(2) by (auto split: if_splits)
    assume n: "\<not> c_released (load j v)"
    then have "j \<in> opens v"
      using assms j by (auto simp: sv_ok_def use_ok_def opens_def known_def)
    moreover have "c_rd (load j v) \<in> sv_fds v"
      using g n by (auto simp: conn_ok_def idle_def is_open_def)
    ultimately show "c_rd (load j v) \<in> sv_fds v - {d} \<and> (\<forall>e. wants ?m e (c_rd (load j v)) = wants (c_mx (load j v)) e (c_rd (load j v)))"
      using v(5) m(3) m'(2) by auto
  qed (rule m'(1))
  then have "conns_ok ok wants fits ?v"
    using assms by (simp add: sv_ok_def conns_ok_def known_def load_def)
  moreover have "h \<in> opens v" if "wants ?m e d' = Some h" for e d' h
    using that w [of e d' h] Some m(3) m'(2) by (auto split: if_splits)
  then have "fds_ok wants fits ?v"
    using assms Some v(5) unfolding sv_ok_def fds_ok_def opens_def by auto
  moreover have "use_ok ?v" using assms by (simp add: sv_ok_def use_ok_def)
  ultimately show ?thesis
    using m'(1) by (intro that [of ?v]) (simp_all add: sv_ok_def)
qed

lemma release_one:
  assumes "sgood v" "i \<in> known v"
  obtains b v' where "on_conn i (release M) v = (Inr b, v')" "sgood v'" "winds_down v v'" "i \<in> shut v'"
    "pl_active (sv_pool v') = pl_active (sv_pool v)" "i \<in> shut v \<longrightarrow> i \<notin> opens v'"
proof -
  have "good i (load i v)" using assms by (simp add: sv_ok_def conns_ok_def)
  from release_step [OF this] obtain b s where s: "release M (load i v) = (Inr b, s)" "frame ok wants fits i (load i v) s"
    "\<not> flowing (load i v) \<longrightarrow> c_released s" "\<not> flowing s" .
  have "winds_down v (put_conn i s v)"
    using s(2,4) by (intro put_winds_down) (auto simp: frame_def)
  then show ?thesis
    using put_ok [OF assms s(2)] s by (intro that [of b "put_conn i s v"]) (auto simp: on_conn_def shut_def opens_def)
qed

lemma release_items_ok:
  "sgood v \<Longrightarrow> set is \<subseteq> known v \<Longrightarrow> \<exists>v'. release_items M is v = (Inr (), v') \<and> sgood v' \<and> winds_down v v'
     \<and> set is \<subseteq> shut v' \<and> pl_active (sv_pool v') = pl_active (sv_pool v) \<and> opens v' \<inter> set is \<inter> shut v = {}"
proof (induction "is" arbitrary: v)
  case Nil
  then show ?case by (simp add: ret_def)
next
  case (Cons i "is")
  obtain b u where u: "on_conn i (release M) v = (Inr b, u)" "sgood u" "winds_down v u" "i \<in> shut u"
    "pl_active (sv_pool u) = pl_active (sv_pool v)" "i \<in> shut v \<longrightarrow> i \<notin> opens u"
    using release_one [OF Cons.prems(1)] Cons.prems(2) by (metis list.set_intros(1) subsetD)
  have "set is \<subseteq> known u" using Cons.prems(2) u(3) by (simp add: winds_down_def)
  from Cons.IH [OF u(2) this] obtain w where w: "release_items M is u = (Inr (), w)" "sgood w" "winds_down u w"
    "set is \<subseteq> shut w" "pl_active (sv_pool w) = pl_active (sv_pool u)" "opens w \<inter> set is \<inter> shut u = {}" by blast
  have "release_items M (i # is) v = (Inr (), w)"
    using u(1) w(1) by (simp add: op_defs)
  moreover have "opens w \<inter> set (i # is) \<inter> shut v = {}"
    using u(3,6) w(3,6) by (auto simp: winds_down_def)
  moreover have "set (i # is) \<subseteq> shut w"
    using u(4) w(3,4) by (auto simp: winds_down_def)
  ultimately show ?case
    using w(2,5) u(5) winds_down_trans [OF u(3) w(3)] by blast
qed

text \<open>What \<open>process_free\<close> leaves in use, and what it counts, are the connections that are open.\<close>

lemma process_free_step:
  assumes "sgood v"
  obtains v' where "on_pool process_free v = (Inr (card (opens v)), v')" "sgood v'" "winds_down v v'"
    "pl_active (sv_pool v') = opens v'" "opens v' = opens v" "sv_fds v' = sv_fds v" "sv_conns v' = sv_conns v"
proof -
  let ?v = "v\<lparr>sv_pool := recycled (sv_pool v)\<rparr>"
  have u: "use_ok v" using assms by (simp add: sv_ok_def)
  then have act: "pl_active (sv_pool v) - pl_queue (sv_pool v) = opens v"
    by (auto simp: use_ok_def opens_def)
  have "known ?v = known v"
    using u by (auto simp: known_def use_ok_def pool_ok_def)
  then have "winds_down v ?v"
    using recycle_ok(2) [OF assms] by (simp add: winds_down_def shut_def)
  moreover have "on_pool process_free v = (Inr (card (opens v)), ?v)"
    using process_free_ok [of "sv_pool v"] u act by (simp add: on_pool_def use_ok_def)
  ultimately show ?thesis
    using recycle_ok [OF assms] act by (intro that [of ?v]) simp_all
qed

lemma pool_release_ok:
  assumes "sgood v"
  obtains v' where "pool_release M v = (Inr (), v')" "sgood v'" "winds_down v v'" "opens v' \<subseteq> shut v'"
    "opens v \<subseteq> shut v \<longrightarrow> opens v' = {}"
proof -
  have fin: "finite (pl_pooled (sv_pool v))" "finite (pl_active (sv_pool v))" and pool: "pool_ok (sv_pool v)"
    using assms by (simp_all add: sv_ok_def use_ok_def pool_ok_def)
  obtain u where u: "release_items M (sorted_list_of_set (pl_pooled (sv_pool v))) v = (Inr (), u)" "sgood u" "winds_down v u"
    "pl_active (sv_pool u) = pl_active (sv_pool v)"
    using release_items_ok [OF assms, of "sorted_list_of_set (pl_pooled (sv_pool v))"] fin by (auto simp: known_def)
  obtain w where w: "release_items M (sorted_list_of_set (pl_active (sv_pool u))) u = (Inr (), w)" "sgood w" "winds_down u w"
    "pl_active (sv_pool u) \<subseteq> shut w" "opens w \<inter> pl_active (sv_pool u) \<inter> shut u = {}"
    "pl_active (sv_pool w) = pl_active (sv_pool u)"
    using release_items_ok [OF u(2), of "sorted_list_of_set (pl_active (sv_pool u))"] fin u(4) by (auto simp: known_def)
  obtain x where x: "on_pool process_free w = (Inr (card (opens w)), x)" "sgood x" "winds_down w x" "opens x = opens w"
    using process_free_step [OF w(2)] by metis
  have sub: "opens w \<subseteq> pl_active (sv_pool u)" "opens w \<subseteq> opens v"
    using u(3) w(3,6) by (auto simp: opens_def winds_down_def)
  have "pool_release M v = (Inr (), x)"
    using u(1) w(1) x(1) by (simp add: pool_release_def op_defs)
  moreover have "opens x \<subseteq> shut x"
    using x(3,4) sub(1) w(4) by (auto simp: winds_down_def)
  moreover have "opens x = {}" if "opens v \<subseteq> shut v"
    using that sub w(5) u(3) x(4) unfolding winds_down_def by blast
  ultimately show ?thesis
    using that x(2) winds_down_trans [OF winds_down_trans [OF u(3) w(3)] x(3)] by blast
qed

lemma report_all_ok:
  "sgood v \<Longrightarrow> list_all (\<lambda>(i, x). i \<in> known v \<and> happening_law x) evs \<Longrightarrow>
     sgood (report_all M evs v) \<and> winds_down v (report_all M evs v)"
proof (induction evs arbitrary: v)
  case (Cons ev evs)
  obtain i x where ev: "ev = (i, x)" "i \<in> known v" "happening_law x"
    using Cons.prems(2) by (cases ev) auto
  let ?s = "happen M i x (load i v)" let ?v = "put_conn i ?s v"
  have g: "sgood ?v" "good i (load i v)" "c_recursive (load i v) = 0"
    using happen_ok(1) [OF Cons.prems(1) ev(2,3)] Cons.prems(1) ev(2) by (simp_all add: sv_ok_def conns_ok_def)
  have "winds_down v ?v"
    using happen_step [OF ev(3) g(2,3)] by (intro put_winds_down) (auto simp: frame_def emits_def)
  moreover have "sgood (report_all M evs ?v) \<and> winds_down ?v (report_all M evs ?v)"
    using Cons.prems(2) ev(1) by (intro Cons.IH [OF g(1)]) simp
  ultimately show ?case
    using ev(1) winds_down_trans by auto
qed simp

lemma stop_ok:
  assumes "sgood v" "sv_started v" "list_all (\<lambda>(i, x). i \<in> known v \<and> happening_law x) evs"
  obtains v' where "server_stop M evs evss v = (Inr (), v')" "sgood v'" "\<not> sv_started v'" "sv_listen v' = None"
    "pl_active (sv_pool v') = {}" "opens v' = {}"
proof -
  let ?v0 = "v\<lparr>sv_started := False\<rparr>"
  have "sgood ?v0 = sgood v"
    by (simp add: sv_ok_def use_ok_def conns_ok_def fds_ok_def known_def opens_def load_def)
  then have "sgood ?v0" using assms(1) by simp
  then obtain v1 where v1: "stop_listening M ?v0 = (Inr (), v1)" "sgood v1" "sv_listen v1 = None" "sv_pool v1 = sv_pool ?v0"
    "sv_conns v1 = sv_conns ?v0" "sv_started v1 = sv_started ?v0"
    by (rule stop_listening_ok)
  obtain v2 where v2: "pool_release M v1 = (Inr (), v2)" "sgood v2" "winds_down v1 v2" "opens v2 \<subseteq> shut v2"
    using pool_release_ok [OF v1(2)] by metis
  have "known v2 = known v" using v1(4) v2(3) by (simp add: winds_down_def known_def)
  then have v3: "sgood (report_all M evs v2)" "winds_down v2 (report_all M evs v2)"
    using report_all_ok [OF v2(2)] assms(3) by auto
  obtain v4 where v4: "on_pool process_free (report_all M evs v2) = (Inr (card (opens (report_all M evs v2))), v4)"
    "sgood v4" "winds_down (report_all M evs v2) v4" "pl_active (sv_pool v4) = opens v4" "opens v4 = opens (report_all M evs v2)"
    using process_free_step [OF v3(1)] by metis
  have c4: "winds_down v1 v4" by (meson winds_down_trans v2(3) v3(2) v4(3))
  have fin: "finite (opens v4)"
    using v4(2,4) by (simp add: sv_ok_def use_ok_def pool_ok_def)
  note run = server_stop_def op_defs v1(1) v2(1) v4(1)
  show ?thesis
  proof (cases "opens v4 = {}")
    case True
    then have "server_stop M evs evss v = (Inr (), v4)"
      using assms(2) v4(5) by (simp add: run)
    then show ?thesis
      using that [of v4] v4(2,4) True c4 v1(3,6) by (simp add: winds_down_def)
  next
    case False
    have "opens v4 \<subseteq> shut v4"
      using v2(4) v3(2) v4(3) unfolding winds_down_def by blast
    then obtain v5 where v5: "pool_release M v4 = (Inr (), v5)" "sgood v5" "winds_down v4 v5" "opens v5 = {}"
      using pool_release_ok [OF v4(2)] by metis
    obtain v6 where v6: "on_pool process_free v5 = (Inr (card (opens v5)), v6)" "sgood v6" "winds_down v5 v6"
      "pl_active (sv_pool v6) = opens v6" "opens v6 = opens v5"
      using process_free_step [OF v5(2)] by metis
    have "wait_free M evss v5 = (Inr (), v6)"
      using v6(1) v5(4) by (cases evss) (simp_all add: op_defs)
    then have "server_stop M evs evss v = (Inr (), v6)"
      using assms(2) v4(5) False fin v5(1,4) v6(4,5) by (simp add: run card_gt_0_iff)
    moreover have "winds_down v1 v6" by (meson c4 winds_down_trans v5(3) v6(3))
    ultimately show ?thesis
      using that [of v6] v6(2,4,5) v5(4) v1(3,6) by (simp add: winds_down_def)
  qed
qed

end

section \<open>What holds of every server\<close>

text \<open>A new server is started on the descriptor \<open>d\<close>, and then things happen to it.\<close>

record 'm config =
  su_limit :: nat
  su_max :: nat
  su_local :: string
  su_proto :: "'m conn"
  su_mx :: 'm
  su_listen :: nat

definition setup_ok :: "('m \<Rightarrow> bool) \<Rightarrow> 'm view \<Rightarrow> (nat \<Rightarrow> bool) \<Rightarrow> 'm config \<Rightarrow> bool" where
  "setup_ok ok wants fits u \<longleftrightarrow> ok (su_mx u) \<and> (\<forall>e d. wants (su_mx u) e d = None) \<and> fits (su_listen u)
     \<and> su_max u \<le> su_limit u \<and> proto_ok (su_proto u)"

definition started :: "'m imux \<Rightarrow> 'm config \<Rightarrow> 'm tcp_server" where
  "started M u = snd (server_start M (su_listen u) (server_new (su_limit u) (su_max u) (su_local u) (su_proto u) (su_mx u)))"

lemma server_run:
  assumes "imux_laws M ok wants fits" "setup_ok ok wants fits u" "history_law fits M (su_proto u) xs (started M u)"
  shows "sv_ok ok wants fits (server_happens M (su_proto u) xs (started M u))"
    and "serving (su_listen u) (su_max u) (server_happens M (su_proto u) xs (started M u))"
proof -
  have u: "ok (su_mx u)" "\<And>e d. wants (su_mx u) e d = None" "fits (su_listen u)" "su_max u \<le> su_limit u" "proto_ok (su_proto u)"
    using assms(2) by (simp_all add: setup_ok_def)
  obtain v where "started M u = v" "sv_ok ok wants fits v" "serving (su_listen u) (su_max u) v"
    using imux_laws.start_ok [OF assms(1) u(1-4), of "su_local u" "su_proto u"] unfolding started_def by (metis snd_conv)
  then show "sv_ok ok wants fits (server_happens M (su_proto u) xs (started M u))"
    "serving (su_listen u) (su_max u) (server_happens M (su_proto u) xs (started M u))"
    using imux_laws.server_happens_ok [OF assms(1) _ _ u(5)] assms(3) by auto
qed

text \<open>
  A server under a \<open>selector\<close> for at most one connection: a client connects, and its connection breaks.
\<close>

definition example_setup :: "selector config" where
  "example_setup = \<lparr>su_limit = 10, su_max = 1, su_local = [], su_proto = conn_new 0 0 True selector_new {},
     su_mx = selector_new, su_listen = 3\<rparr>"

definition example_events :: "server_event list" where
  "example_events = [Accepts 1 (Inr (Some (5, []))), Conn_event 1 Broken]"

lemma example_setup_ok: "setup_ok sl_ok sl_wants (\<lambda>d. d < FD_SETSIZE) example_setup"
  by (simp add: setup_ok_def example_setup_def proto_ok_def conn_new_def selector_new_def sl_ok_def sl_wants_def FD_SETSIZE_def)

lemma example_start:
  "sv_fds (started selector_mux example_setup) = {3} \<and> known (started selector_mux example_setup) = {}
   \<and> known (server_happen selector_mux (su_proto example_setup) (Accepts 1 (Inr (Some (5, []))))
       (started selector_mux example_setup)) = {1}"
  by code_simp

lemma example_law:
  "history_law (\<lambda>d. d < FD_SETSIZE) selector_mux (su_proto example_setup) example_events (started selector_mux example_setup)"
  using example_start by (simp add: example_events_def event_law_def FD_SETSIZE_def)

definition example_server :: "selector tcp_server" where
  "example_server = server_happens selector_mux (su_proto example_setup) example_events (started selector_mux example_setup)"

lemma example_full:
  "sv_started example_server \<and> sv_max example_server = 1 \<and> sv_fds example_server = {3}
   \<and> pl_active (sv_pool example_server) = {1} \<and> opens example_server = {}"
  by code_simp





text \<open>
  A server that has once been full stays full. The connections that are in use are counted before those
  that were released are taken out of the count, which only the creation of another connection does (or
  the end of the server): from then on every client is turned away, even when no connection is open any more.\<close>

lemma full_server_stays_full:
  assumes "sv_started v" and "sv_max v \<le> card (pl_active (sv_pool v))"
  shows "pl_active (sv_pool (server_happens M proto xs v)) = pl_active (sv_pool v)
    \<and> fst (server_accept M fresh proto (Inr (Some (d, a))) (server_happens M proto xs v)) = Inr None"
proof -
  have full: "sv_started w \<and> sv_max w \<le> card (pl_active (sv_pool w)) \<Longrightarrow>
      fst (server_accept M f proto (Inr (Some (c, b))) w) = Inr None
      \<and> sv_pool (snd (server_accept M f proto q w)) = sv_pool w \<and> sv_started (snd (server_accept M f proto q w))
      \<and> sv_max (snd (server_accept M f proto q w)) = sv_max w" for w f c b q
    by (auto simp: server_accept_def server_close_def op_defs split: sum.splits option.splits)
  have "sv_started (server_happens M proto xs v) \<and> pl_active (sv_pool (server_happens M proto xs v)) = pl_active (sv_pool v)
      \<and> sv_max (server_happens M proto xs v) = sv_max v"
    using assms
  proof (induction xs arbitrary: v)
    case (Cons x xs)
    let ?w = "server_happen M proto x v"
    have "sv_started ?w \<and> pl_active (sv_pool ?w) = pl_active (sv_pool v) \<and> sv_max ?w = sv_max v"
      using full [of v] Cons.prems by (simp add: server_happen_def split: server_event.splits)
    then show ?case
      using Cons.IH [of ?w] Cons.prems by simp
  qed simp
  then show ?thesis
    using full [of "server_happens M proto xs v" fresh d a] assms by simp
qed

end
