(* ===== verification/Fronts.thy ===== *)
theory Fronts
  imports Server_Runs
begin

text \<open>
  The threads that accept the clients of the main port. \<open>spawn_threads\<close> of \<open>common/multiserver.hpp\<close> starts, beside
  the server \<open>srvmain\<close>, further servers with multiplexers of their own on the same listening socket
  (\<open>start_on_same_socket\<close>, \<open>fas/inet/server.hpp\<close>). A client that waits wakes all of them; the first that calls
  \<open>accept\<close> gets it, and the others, since the socket does not block, get nothing.

  The servers run at the same time but share nothing but the listening socket, so a history is a sequence of
  their steps. \<open>sv_fds\<close> of a server are the descriptors it uses, of which the process has the union. The
  clients that wait are in the queue \<open>fr_backlog\<close> of the kernel; \<open>fr_accepts\<close> are the calls of
  \<open>accept\<close> that returned one, with the number of the thread.
\<close>

section \<open>Model\<close>

definition start_on_same_socket :: "'m imux \<Rightarrow> nat \<Rightarrow> ('m tcp_server, unit) op" where
  "start_on_same_socket M d v =
     (if sv_started v then ret () v
      else seqS (upd (\<lambda>v. v\<lparr>sv_listen := Some d, sv_fds := insert d (sv_fds v)\<rparr>))
        (seqS (on_server_mux (mx_set M Ev_read d 0)) (upd (\<lambda>v. v\<lparr>sv_started := True\<rparr>))) v)"

record 'm fronts =
  fr_servers :: "'m tcp_server list"
  fr_backlog :: "string list"
  fr_accepts :: "(nat \<times> string) list"

text \<open>The main server has been started as \<open>u\<close> says; each of the others has a multiplexer of the list \<open>ms\<close>.\<close>

definition spawn_fronts :: "'m imux \<Rightarrow> 'm config \<Rightarrow> 'm list \<Rightarrow> 'm fronts" where
  "spawn_fronts M u ms =
     \<lparr>fr_servers = started M u # map (\<lambda>m. snd (start_on_same_socket M (su_listen u)
        (server_new (su_limit u) (su_max u) [] (su_proto u) m))) ms, fr_backlog = [], fr_accepts = []\<rparr>"

text \<open>
  A client connects; a thread wakes and accepts, \<open>fresh\<close> being the address of a new connection object and
  \<open>d\<close> the descriptor the kernel gives; something happens to a connection of a thread.
\<close>

datatype fronts_event = Client_waits string | Wakes nat nat nat | Thread_conn nat nat happening

definition server_step :: "'m imux \<Rightarrow> 'm conn \<Rightarrow> nat \<Rightarrow> server_event \<Rightarrow> 'm fronts \<Rightarrow> 'm fronts" where
  "server_step M proto i x F = F\<lparr>fr_servers := (fr_servers F)[i := server_happen M proto x (fr_servers F ! i)]\<rparr>"

definition fronts_happen :: "'m imux \<Rightarrow> 'm conn \<Rightarrow> fronts_event \<Rightarrow> 'm fronts \<Rightarrow> 'm fronts" where
  "fronts_happen M proto x F = (case x of
     Client_waits a \<Rightarrow> F\<lparr>fr_backlog := fr_backlog F @ [a]\<rparr>
   | Wakes i fresh d \<Rightarrow> (case fr_backlog F of
       [] \<Rightarrow> server_step M proto i (Accepts fresh (Inr None)) F
     | a # q \<Rightarrow> server_step M proto i (Accepts fresh (Inr (Some (d, a))))
         (F\<lparr>fr_backlog := q, fr_accepts := fr_accepts F @ [(i, a)]\<rparr>))
   | Thread_conn i j y \<Rightarrow> server_step M proto i (Conn_event j y) F)"

fun fronts_happens :: "'m imux \<Rightarrow> 'm conn \<Rightarrow> fronts_event list \<Rightarrow> 'm fronts \<Rightarrow> 'm fronts" where
  "fronts_happens M proto [] F = F"
| "fronts_happens M proto (x # xs) F = fronts_happens M proto xs (fronts_happen M proto x F)"

section \<open>The invariant\<close>

definition process_fds :: "'m fronts \<Rightarrow> nat set" where
  "process_fds F = (\<Union>v \<in> set (fr_servers F). sv_fds v)"

text \<open>What the kernel and \<open>new\<close> promise, as for one server.\<close>

definition fronts_law :: "(nat \<Rightarrow> bool) \<Rightarrow> 'm fronts \<Rightarrow> fronts_event \<Rightarrow> bool" where
  "fronts_law fits F x = (case x of
     Client_waits a \<Rightarrow> True
   | Wakes i fresh d \<Rightarrow> i < length (fr_servers F) \<and> fresh \<noteq> 0 \<and> fresh \<notin> known (fr_servers F ! i)
       \<and> d \<notin> process_fds F \<and> fits d
   | Thread_conn i j y \<Rightarrow> i < length (fr_servers F) \<and> j \<in> known (fr_servers F ! i) \<and> happening_law y)"

fun fronts_laws :: "(nat \<Rightarrow> bool) \<Rightarrow> 'm imux \<Rightarrow> 'm conn \<Rightarrow> fronts_event list \<Rightarrow> 'm fronts \<Rightarrow> bool" where
  "fronts_laws fits M proto [] F \<longleftrightarrow> True"
| "fronts_laws fits M proto (x # xs) F \<longleftrightarrow>
     fronts_law fits F x \<and> fronts_laws fits M proto xs (fronts_happen M proto x F)"

fun client_of :: "fronts_event \<Rightarrow> string list" where
  "client_of (Client_waits a) = [a]" | "client_of (Wakes i fresh d) = []" | "client_of (Thread_conn i j y) = []"

definition fronts_ok ::
  "('m \<Rightarrow> bool) \<Rightarrow> 'm view \<Rightarrow> (nat \<Rightarrow> bool) \<Rightarrow> nat \<Rightarrow> nat \<Rightarrow> 'm fronts \<Rightarrow> bool" where
  "fronts_ok ok wants fits d n F \<longleftrightarrow>
     (\<forall>v \<in> set (fr_servers F). sv_ok ok wants fits v \<and> serving d n v)
     \<and> (\<forall>i < length (fr_servers F). \<forall>j < length (fr_servers F). i \<noteq> j \<longrightarrow>
          sv_fds (fr_servers F ! i) \<inter> sv_fds (fr_servers F ! j) = {d})"

lemma serving_listens: "sv_ok ok wants fits v \<Longrightarrow> serving d n v \<Longrightarrow> d \<in> sv_fds v"
  by (simp add: sv_ok_def fds_ok_def serving_def)

lemma same_start: "start_on_same_socket M d v = server_start M d v"
  by (simp add: start_on_same_socket_def server_start_def)

context imux_laws
begin

text \<open>A step of a server adds at most the descriptor that was accepted.\<close>

lemma server_happen_fds:
  assumes "sgood v" "serving d n v" "proto_ok proto" "event_law fits v x"
  shows "sv_fds (server_happen M proto x v) \<subseteq>
    sv_fds v \<union> (case x of Accepts fresh (Inr (Some (c, a))) \<Rightarrow> {c} | _ \<Rightarrow> {})"
proof (cases x)
  case (Conn_event i y)
  then have i: "i \<in> known v" "happening_law y" using assms(4) by (simp_all add: event_law_def)
  then have "good i (load i v)" "c_recursive (load i v) = 0" using assms(1) by (simp_all add: sv_ok_def conns_ok_def)
  from happen_step [OF i(2) this] have "c_fds (happen M i y (load i v)) \<subseteq> sv_fds v"
    by (auto simp: frame_def split: if_splits)
  then show ?thesis using Conn_event by (simp add: server_happen_def)
next
  case (Accepts fresh accepted)
  then have f: "fresh \<noteq> 0" "fresh \<notin> known v" using assms(4) by (simp_all add: event_law_def)
  show ?thesis
  proof (cases "\<exists>c a. accepted = Inr (Some (c, a))")
    case False
    then have "snd (server_accept M fresh proto accepted v) = v"
      by (auto simp: server_accept_def op_defs split: sum.splits option.splits)
    then show ?thesis using Accepts by (simp add: server_happen_def)
  next
    case True
    then obtain c a where acc: "accepted = Inr (Some (c, a))" by blast
    then have c: "c \<notin> sv_fds v" "fits c" using assms(4) Accepts by (simp_all add: event_law_def)
    show ?thesis
      using accept_ok [OF assms(1,2) f(2,1) assms(3) c, of a] acc Accepts
      by (simp add: server_happen_def) (metis snd_conv subset_insertI subset_refl)
  qed
qed

text \<open>The step of one thread.\<close>

lemma server_step_ok:
  assumes "fronts_ok ok wants fits d n F" "i < length (fr_servers F)" "proto_ok proto"
    and "event_law fits (fr_servers F ! i) x"
    and "case x of Accepts fresh (Inr (Some (c, a))) \<Rightarrow> c \<notin> process_fds F | _ \<Rightarrow> True"
  shows "fronts_ok ok wants fits d n (server_step M proto i x F)"
proof -
  let ?v = "fr_servers F ! i" let ?w = "server_happen M proto x ?v"
  have v: "sgood ?v" "serving d n ?v" using assms(1,2) by (simp_all add: fronts_ok_def)
  have w: "sgood ?w" "serving d n ?w" using server_happen_ok [OF v assms(3,4)] by simp_all
  have "sv_fds ?w \<inter> sv_fds (fr_servers F ! j) = {d}" if j: "j < length (fr_servers F)" "j \<noteq> i" for j
  proof -
    have u: "sgood (fr_servers F ! j)" "serving d n (fr_servers F ! j)" using assms(1) j(1) by (simp_all add: fronts_ok_def)
    have "sv_fds (fr_servers F ! j) \<subseteq> process_fds F" using nth_mem [OF j(1)] by (auto simp: process_fds_def)
    then have "sv_fds ?w \<inter> sv_fds (fr_servers F ! j) \<subseteq> sv_fds ?v \<inter> sv_fds (fr_servers F ! j)"
      using server_happen_fds [OF v assms(3,4)] assms(5)
      by (cases x rule: server_event.exhaust) (auto split: sum.splits option.splits)
    moreover have "sv_fds ?v \<inter> sv_fds (fr_servers F ! j) = {d}" using assms(1,2) j by (auto simp: fronts_ok_def)
    ultimately show ?thesis using serving_listens [OF w] serving_listens [OF u] by blast
  qed
  then show ?thesis
    using assms(1,2) w unfolding fronts_ok_def server_step_def
    by (auto simp: nth_list_update Int_commute dest!: set_update_subset_insert [THEN subsetD])
qed

lemma fronts_happen_ok:
  assumes "fronts_ok ok wants fits d n F" "proto_ok proto" "fronts_law fits F x"
  shows "fronts_ok ok wants fits d n (fronts_happen M proto x F)"
proof (cases x)
  case (Client_waits a)
  then show ?thesis using assms(1) by (simp add: fronts_happen_def fronts_ok_def)
next
  case (Wakes i fresh c)
  then have law: "i < length (fr_servers F)" "fresh \<noteq> 0" "fresh \<notin> known (fr_servers F ! i)" "c \<notin> process_fds F" "fits c"
    using assms(3) by (simp_all add: fronts_law_def)
  then have c: "c \<notin> sv_fds (fr_servers F ! i)" by (auto simp: process_fds_def)
  show ?thesis
  proof (cases "fr_backlog F")
    case Nil
    then show ?thesis
      using server_step_ok [OF assms(1) law(1) assms(2), of "Accepts fresh (Inr None)"] law Wakes
      by (simp add: fronts_happen_def event_law_def)
  next
    case (Cons a q)
    let ?F = "F\<lparr>fr_backlog := q, fr_accepts := fr_accepts F @ [(i, a)]\<rparr>"
    have "fronts_ok ok wants fits d n ?F" using assms(1) by (simp add: fronts_ok_def)
    from server_step_ok [OF this _ assms(2), of i "Accepts fresh (Inr (Some (c, a)))"] show ?thesis
      using law c Wakes Cons by (simp add: fronts_happen_def event_law_def process_fds_def)
  qed
next
  case (Thread_conn i j y)
  then show ?thesis
    using server_step_ok [OF assms(1) _ assms(2), of i "Conn_event j y"] assms(3)
    by (simp add: fronts_happen_def fronts_law_def event_law_def)
qed

lemma fronts_happens_ok:
  "fronts_ok ok wants fits d n F \<Longrightarrow> proto_ok proto \<Longrightarrow> fronts_laws fits M proto xs F \<Longrightarrow>
     fronts_ok ok wants fits d n (fronts_happens M proto xs F)"
  by (induction xs arbitrary: F) (simp_all add: fronts_happen_ok)

lemma spawn_ok:
  assumes "setup_ok ok wants fits u" "list_all (\<lambda>m. ok m \<and> (\<forall>e d. wants m e d = None)) ms"
  shows "fronts_ok ok wants fits (su_listen u) (su_max u) (spawn_fronts M u ms)"
proof -
  let ?d = "su_listen u" let ?n = "su_max u"
  let ?start = "\<lambda>l m. snd (server_start M ?d (server_new (su_limit u) ?n l (su_proto u) m))"
  have one: "sgood (?start l m) \<and> serving ?d ?n (?start l m) \<and> sv_fds (?start l m) = {?d}"
    if m: "ok m" "\<And>e d. wants m e d = None" for l m
  proof -
    obtain v where v: "server_start M ?d (server_new (su_limit u) ?n l (su_proto u) m) = (Inr (), v)" "sgood v"
      "serving ?d ?n v" "known v = {}"
      using start_ok [OF m, of ?d ?n "su_limit u" l "su_proto u"] assms(1) by (auto simp: setup_ok_def)
    then have "sv_fds v = {?d}" by (simp add: sv_ok_def fds_ok_def serving_def opens_def known_def)
    with v show ?thesis by simp
  qed
  have "\<forall>v \<in> set (fr_servers (spawn_fronts M u ms)). sgood v \<and> serving ?d ?n v \<and> sv_fds v = {?d}"
    using one assms by (auto simp: spawn_fronts_def started_def same_start setup_ok_def list_all_iff)
  then show ?thesis
    by (simp add: fronts_ok_def)
qed

end

text \<open>Who is accepted, in which order.\<close>

lemma fronts_happen_queue:
  "map snd (fr_accepts (fronts_happen M proto x F)) @ fr_backlog (fronts_happen M proto x F) =
     map snd (fr_accepts F) @ fr_backlog F @ client_of x"
  by (cases x) (auto simp: fronts_happen_def server_step_def split: list.splits)

lemma fronts_happens_queue:
  "map snd (fr_accepts (fronts_happens M proto xs F)) @ fr_backlog (fronts_happens M proto xs F) =
     map snd (fr_accepts F) @ fr_backlog F @ concat (map client_of xs)"
  by (induction xs arbitrary: F) (auto simp: fronts_happen_queue simp flip: append_assoc)

lemma fronts_backlog:
  "fr_backlog (fronts_happens M proto (map (\<lambda>(i, f, c). Wakes i f c) ws) F) = drop (length ws) (fr_backlog F)"
proof (induction ws arbitrary: F)
  case (Cons w ws)
  obtain i f c where w: "w = (i, f, c)" by (cases w)
  have "fr_backlog (fronts_happen M proto (Wakes i f c) F) = drop 1 (fr_backlog F)"
    by (simp add: fronts_happen_def server_step_def split: list.splits)
  then show ?case using Cons.IH w by simp
qed simp

lemma fronts_servers_length [simp]: "length (fr_servers (fronts_happens M proto xs F)) = length (fr_servers F)"
proof (induction xs arbitrary: F)
  case (Cons x xs)
  have "length (fr_servers (fronts_happen M proto x F)) = length (fr_servers F)"
    by (simp add: fronts_happen_def server_step_def split: fronts_event.splits list.splits)
  then show ?case using Cons.IH by simp
qed simp

section \<open>What the threads guarantee\<close>

text \<open>Two threads under \<open>selector\<close>s; two clients come, both threads wake, one of them twice.\<close>

definition example_fronts :: "selector fronts" where
  "example_fronts = spawn_fronts selector_mux (example_setup\<lparr>su_max := 4\<rparr>) [selector_new]"

definition example_wakes :: "fronts_event list" where
  "example_wakes = [Client_waits ''A'', Wakes 1 1 5, Wakes 0 1 6, Client_waits ''B'', Wakes 0 1 6]"

lemma example_fronts_setup: "setup_ok sl_ok sl_wants (\<lambda>d. d < FD_SETSIZE) (example_setup\<lparr>su_max := 4\<rparr>)"
  using example_setup_ok by (simp add: setup_ok_def example_setup_def)

lemma example_fronts_mux: "list_all (\<lambda>m. sl_ok m \<and> (\<forall>e d. sl_wants m e d = None)) [selector_new]"
  by (simp add: selector_new_def sl_ok_def sl_wants_def)

lemma example_wakes_fds:
  "map (\<lambda>xs. map (\<lambda>v. (sv_fds v, known v)) (fr_servers (fronts_happens selector_mux (su_proto example_setup) xs example_fronts)))
     [[], take 1 example_wakes, take 2 example_wakes, take 3 example_wakes, take 4 example_wakes, example_wakes] =
   [[({3}, {}), ({3}, {})], [({3}, {}), ({3}, {})], [({3}, {}), ({3, 5}, {1})], [({3}, {}), ({3, 5}, {1})],
    [({3}, {}), ({3, 5}, {1})], [({3, 6}, {1}), ({3, 5}, {1})]]"
  by code_simp

lemma example_fronts_law:
  "fronts_laws (\<lambda>d. d < FD_SETSIZE) selector_mux (su_proto example_setup) example_wakes example_fronts"
  using example_wakes_fds
  by (auto simp: example_wakes_def fronts_law_def process_fds_def FD_SETSIZE_def map_eq_Cons_conv)

text \<open>
  C16. The threads of the main port share out the clients. Over any history, the clients that were accepted, in the
  order of the calls, and those that still wait are the clients that came: each is taken by one thread, none
  twice. No two threads have a descriptor in common but that of the listening socket, which every thread goes
  on to watch; so each connection is watched by the thread that accepted it and by no other.\<close>

theorem fronts_share_clients:
  assumes "imux_laws M ok wants fits" and "setup_ok ok wants fits u"
    and "list_all (\<lambda>m. ok m \<and> (\<forall>e d. wants m e d = None)) ms"
    and "fronts_laws fits M (su_proto u) xs (spawn_fronts M u ms)"
    and "F = fronts_happens M (su_proto u) xs (spawn_fronts M u ms)"
    and "i \<le> length ms" and "j \<le> length ms" and "i \<noteq> j"
  shows "map snd (fr_accepts F) @ fr_backlog F = concat (map client_of xs)
    \<and> sv_fds (fr_servers F ! i) \<inter> sv_fds (fr_servers F ! j) = {su_listen u}
    \<and> wants (sv_mx (fr_servers F ! i)) Ev_read (su_listen u) = Some 0
    \<and> (\<forall>e d h. wants (sv_mx (fr_servers F ! i)) e d = Some h \<longrightarrow> d \<in> sv_fds (fr_servers F ! i))"
proof -
  let ?v = "fr_servers F ! i"
  have p: "proto_ok (su_proto u)" using assms(2) by (simp add: setup_ok_def)
  have ok: "fronts_ok ok wants fits (su_listen u) (su_max u) F"
    using imux_laws.fronts_happens_ok [OF assms(1) imux_laws.spawn_ok [OF assms(1-3)] p assms(4)] assms(5) by simp
  have len: "length (fr_servers F) = Suc (length ms)"
    using assms(5) by (simp add: spawn_fronts_def)
  then have v: "sv_ok ok wants fits ?v" "serving (su_listen u) (su_max u) ?v"
    using ok assms(6) by (simp_all add: fronts_ok_def)
  moreover have "d \<in> sv_fds ?v" if "wants (sv_mx ?v) e d = Some h" for e d h
    using imux_laws.not_watched [OF assms(1) v(1), of d e] that by fastforce
  moreover have "map snd (fr_accepts F) @ fr_backlog F = concat (map client_of xs)"
    using fronts_happens_queue [of M "su_proto u" xs "spawn_fronts M u ms"] assms(5) by (simp add: spawn_fronts_def)
  moreover have "sv_fds ?v \<inter> sv_fds (fr_servers F ! j) = {su_listen u}"
    using ok len assms(6-8) by (simp add: fronts_ok_def)
  ultimately show ?thesis
    by (simp add: sv_ok_def fds_ok_def serving_def)
qed

theorem fronts_share_clients_witness:
  "map snd (fr_accepts (fronts_happens selector_mux (su_proto example_setup) example_wakes example_fronts))
     @ fr_backlog (fronts_happens selector_mux (su_proto example_setup) example_wakes example_fronts) = [''A'', ''B'']
   \<and> sv_fds (fr_servers (fronts_happens selector_mux (su_proto example_setup) example_wakes example_fronts) ! 0)
     \<inter> sv_fds (fr_servers (fronts_happens selector_mux (su_proto example_setup) example_wakes example_fronts) ! 1) = {3}"
  using fronts_share_clients [OF sel.imux_laws_axioms example_fronts_setup example_fronts_mux _ refl, of example_wakes 0 1]
    example_fronts_law by (simp add: example_fronts_def example_wakes_def example_setup_def)

text \<open>
  No client is left waiting: once the threads have woken as often as clients wait, whichever of them it
  was, all have been accepted.\<close>

lemma fronts_accept_all:
  assumes "length (fr_backlog F) \<le> length ws"
  shows "fr_backlog (fronts_happens M proto (map (\<lambda>(i, f, c). Wakes i f c) ws) F) = []"
  using assms by (simp add: fronts_backlog)

end
