(* ===== verification/Udp.thy ===== *)
theory Udp
  imports Framing
begin

text \<open>
  The UDP server, \<open>common/udp.hpp\<close>. It has one socket, one splitter and one address: a datagram is
  read together with the address of its sender, its bytes go through the splitter of \<open>Framing\<close>, and
  whatever the methods write goes to the address of the last datagram.

  The methods are a parameter \<open>g\<close>: from a message and the state of the program to the new state and
  the texts that are written. A datagram is what \<open>recvfrom\<close> returned, \<open>None\<close> when it failed. The server
  overrides \<open>release\<close> to do nothing, so \<open>clear\<close> is never called while a message is handled.
\<close>

section \<open>The server\<close>

record ('a, 'w) server_udp =
  u_buf :: string
  u_remote :: 'a
  u_sent :: "('a \<times> string) list"
  u_app :: 'w

definition udp_write :: "string \<Rightarrow> ('a, 'w) server_udp \<Rightarrow> ('a, 'w) server_udp" where
  "udp_write d u = u\<lparr>u_sent := u_sent u @ [(u_remote u, d)]\<rparr>"

definition udp_input :: "(string \<Rightarrow> 'w \<Rightarrow> 'w \<times> string list) \<Rightarrow> string \<Rightarrow> ('a, 'w) server_udp \<Rightarrow> ('a, 'w) server_udp" where
  "udp_input g m u = (case g m (u_app u) of (w, outs) \<Rightarrow> fold udp_write outs (u\<lparr>u_app := w\<rparr>))"

definition udp_ready_read ::
  "(string \<Rightarrow> 'w \<Rightarrow> 'w \<times> string list) \<Rightarrow> ('a \<times> string) option \<Rightarrow> ('a, 'w) server_udp \<Rightarrow> ('a, 'w) server_udp" where
  "udp_ready_read g r u = (case r of
     None \<Rightarrow> u
   | Some (a, d) \<Rightarrow>
       (case splitter (\<lambda>m u. (udp_input g m u, False)) (u_buf u) d (u\<lparr>u_remote := a\<rparr>) of
          (b, u) \<Rightarrow> u\<lparr>u_buf := b\<rparr>))"

fun udp_run ::
  "(string \<Rightarrow> 'w \<Rightarrow> 'w \<times> string list) \<Rightarrow> ('a \<times> string) option list \<Rightarrow> ('a, 'w) server_udp \<Rightarrow> ('a, 'w) server_udp" where
  "udp_run g [] u = u"
| "udp_run g (r # rs) u = udp_run g rs (udp_ready_read g r u)"

section \<open>What it should do\<close>

text \<open>Each message of each datagram is handled, and answered to the one who sent it.\<close>

fun answer_all :: "(string \<Rightarrow> 'w \<Rightarrow> 'w \<times> string list) \<Rightarrow> ('a \<times> string) list \<Rightarrow> 'w \<Rightarrow> 'w \<times> ('a \<times> string) list" where
  "answer_all g [] w = (w, [])"
| "answer_all g ((a, m) # ms) w =
     (case g m w of (w, outs) \<Rightarrow> case answer_all g ms w of (w, rest) \<Rightarrow> (w, map (Pair a) outs @ rest))"

lemma answer_all_append:
  "answer_all g (xs @ ys) w =
     (case answer_all g xs w of (w, o1) \<Rightarrow> case answer_all g ys w of (w, o2) \<Rightarrow> (w, o1 @ o2))"
  by (induction g xs w rule: answer_all.induct) (auto split: prod.splits)

lemma write_all: "fold udp_write outs u = u\<lparr>u_sent := u_sent u @ map (Pair (u_remote u)) outs\<rparr>"
  by (induction outs arbitrary: u) (simp_all add: udp_write_def)

lemma handle_all:
  "fold (udp_input g) ms u = u\<lparr>u_app := fst (answer_all g (map (Pair (u_remote u)) ms) (u_app u)),
     u_sent := u_sent u @ snd (answer_all g (map (Pair (u_remote u)) ms) (u_app u))\<rparr>"
  by (induction ms arbitrary: u) (simp_all add: udp_input_def write_all split: prod.splits)

text \<open>One datagram, whatever is in the buffer.\<close>

lemma ready_read_frames:
  assumes "fst (frames (u_buf u)) = []" and "frames (u_buf u @ d) = (ms, rest)"
  shows "udp_ready_read g (Some (a, d)) u = u\<lparr>u_buf := rest, u_remote := a,
     u_app := fst (answer_all g (map (Pair a) ms) (u_app u)),
     u_sent := u_sent u @ snd (answer_all g (map (Pair a) ms) (u_app u))\<rparr>"
proof -
  have "frames (u_buf u) = ([], u_buf u)"
    using assms(1) frames_all by (cases "frames (u_buf u)") auto
  then have "splitter (\<lambda>m u. (udp_input g m u, False)) (u_buf u) d (u\<lparr>u_remote := a\<rparr>)
      = (rest, fold (udp_input g) ms (u\<lparr>u_remote := a\<rparr>))"
    using read_stream_frames [of "u_buf u" "udp_input g" "[d]" "u\<lparr>u_remote := a\<rparr>"] assms(2)
    by (simp split: prod.splits)
  then show ?thesis
    by (simp add: udp_ready_read_def handle_all)
qed

section \<open>Whole datagrams, and parts of messages\<close>

text \<open>The datagrams of a list of senders, each with whole messages, and their messages one by one.\<close>

definition datagram :: "('a \<times> string list) option \<Rightarrow> ('a \<times> string) option" where
  "datagram = map_option (\<lambda>(a, ms). (a, concat (map rn_write ms)))"

definition messages :: "('a \<times> string list) option \<Rightarrow> ('a \<times> string) list" where
  "messages r = (case r of None \<Rightarrow> [] | Some (a, ms) \<Rightarrow> map (\<lambda>m. (a, rn_write m)) ms)"

definition whole :: "('a \<times> string list) option \<Rightarrow> bool" where
  "whole r \<longleftrightarrow> (\<forall>(a, ms) \<in> set_option r. \<forall>m \<in> set ms. fst (frames (m @ [CR])) = [])"

lemma whole_datagram:
  assumes "u_buf u = []" and "whole r"
  shows "u_buf (udp_ready_read g (datagram r) u) = []"
    and "u_app (udp_ready_read g (datagram r) u) = fst (answer_all g (messages r) (u_app u))"
    and "u_sent (udp_ready_read g (datagram r) u) = u_sent u @ snd (answer_all g (messages r) (u_app u))"
proof (atomize (full), cases r)
  case None
  then show "u_buf (udp_ready_read g (datagram r) u) = []
      \<and> u_app (udp_ready_read g (datagram r) u) = fst (answer_all g (messages r) (u_app u))
      \<and> u_sent (udp_ready_read g (datagram r) u) = u_sent u @ snd (answer_all g (messages r) (u_app u))"
    using assms(1) by (simp add: datagram_def messages_def udp_ready_read_def)
next
  case (Some x)
  obtain a ms where x: "x = (a, ms)" by force
  have "frames (u_buf u @ concat (map rn_write ms)) = (map rn_write ms, [])"
    using assms Some x frames_messages [of ms] by (simp add: whole_def)
  from ready_read_frames [OF _ this, of g a] show "u_buf (udp_ready_read g (datagram r) u) = []
      \<and> u_app (udp_ready_read g (datagram r) u) = fst (answer_all g (messages r) (u_app u))
      \<and> u_sent (udp_ready_read g (datagram r) u) = u_sent u @ snd (answer_all g (messages r) (u_app u))"
    using assms(1) Some x by (simp add: datagram_def messages_def comp_def)
qed


definition echo :: "string \<Rightarrow> nat \<Rightarrow> nat \<times> string list" where
  "echo m n = (n + 1, [m])"


text \<open>
  A datagram with only a part of a message spoils the request of someone else. The part stays in the
  buffer, the next datagram is appended to it whoever sent it, and what comes out is handled as one message
  and answered to the second sender; the message that this one sent is never handled.\<close>

lemma udp_mixes_peers:
  assumes "u_buf u = []" and "fst (frames x) = []" and "fst (frames (x @ m @ [CR])) = []"
  shows "u_app (udp_run g [Some (a, x), Some (b, rn_write m)] u) = fst (g (rn_write (x @ m)) (u_app u))
    \<and> u_sent (udp_run g [Some (a, x), Some (b, rn_write m)] u)
      = u_sent u @ map (Pair b) (snd (g (rn_write (x @ m)) (u_app u)))"
proof -
  have x: "frames (u_buf u @ x) = ([], x)"
    using assms(1,2) frames_all [of x] by (cases "frames x") auto
  from ready_read_frames [OF _ x, of g a] assms(1)
  have first: "udp_ready_read g (Some (a, x)) u = u\<lparr>u_buf := x, u_remote := a\<rparr>" by simp
  have "frames (x @ rn_write m) = ([rn_write (x @ m)], [])"
    using frames_message [of "x @ m" "[]"] assms(3) by (simp add: rn_write_def)
  from ready_read_frames [of "u\<lparr>u_buf := x, u_remote := a\<rparr>", OF _ _, of "rn_write m" "[rn_write (x @ m)]" "[]" g b] this
  show ?thesis
    using first assms(2) by (simp split: prod.splits)
qed

end
