(* ===== verification/Statistics.thy ===== *)
theory Statistics
  imports Prelude "HOL-Library.Signed_Division"
begin

text \<open>
  The statistics of the calls: the clock advices (\<open>fas/adv/ad_clock.hpp\<close>), \<open>command_stat\<close> and
  \<open>common_stat\<close> (\<open>fas/misc/stat.hpp\<close>) and their versions under a mutex (\<open>common/fas_statistics.hpp\<close>).

  A \<open>timeval\<close> has two \<open>long\<close>s; the numbers here are durations and counts of calls, far from the limits
  of a \<open>long\<close>, so they are integers. The results of \<open>gettimeofday\<close> are arguments. The text that
  \<open>get_statistics\<close> writes is in \<open>Stat_Report\<close>.
\<close>

section \<open>Time\<close>

record timeval =
  tv_sec :: int
  tv_usec :: int

definition tv_zero :: timeval where "tv_zero = \<lparr>tv_sec = 0, tv_usec = 0\<rparr>"

definition tv_less :: "timeval \<Rightarrow> timeval \<Rightarrow> bool" where
  "tv_less l r = (if tv_sec l < tv_sec r then True
     else if tv_sec l = tv_sec r then tv_usec l < tv_usec r else False)"

text \<open>\<open>get_span\<close> of \<open>ad_clock_start\<close>, for the time \<open>start\<close> that it has stored.\<close>

definition get_span :: "timeval \<Rightarrow> timeval \<Rightarrow> timeval" where
  "get_span start now =
     \<lparr>tv_sec = tv_sec now - (tv_sec start + (if tv_usec start > tv_usec now then 1 else 0)),
      tv_usec = (if tv_usec start < tv_usec now then tv_usec now - tv_usec start else tv_usec start - tv_usec now)\<rparr>"

section \<open>The statistics of one method\<close>

function tv_correct :: "timeval \<Rightarrow> timeval" where
  "tv_correct tv = (if tv_usec tv \<ge> 1000000
     then tv_correct (tv\<lparr>tv_sec := tv_sec tv + 1, tv_usec := tv_usec tv - 1000000\<rparr>) else tv)"
  by pat_completeness auto
termination by (relation "measure (\<lambda>tv. nat (tv_usec tv))") auto

declare tv_correct.simps [simp del]

definition rate :: "timeval \<Rightarrow> timeval" where
  "rate tv =
     (if tv_sec tv = 0 \<and> tv_usec tv = 0 then tv_zero
      else let rate_1000 = 1000000000 sdiv (tv_sec tv * 1000000 + tv_usec tv); s = rate_1000 sdiv 1000
           in \<lparr>tv_sec = s, tv_usec = (rate_1000 - s * 1000) * 1000\<rparr>)"

record command_stat =
  last_span :: timeval
  max_span :: timeval
  min_span :: timeval
  average_span :: timeval
  sum_span :: timeval
  st_count :: int
  middle_count :: int
  middle_max :: int
  middle_start :: timeval
  middle_rate :: timeval

definition LONG_MAX :: int where "LONG_MAX = 2 ^ 63 - 1"

definition command_stat_new :: "timeval \<Rightarrow> command_stat" where
  "command_stat_new now =
     \<lparr>last_span = tv_zero, max_span = tv_zero, min_span = \<lparr>tv_sec = LONG_MAX, tv_usec = LONG_MAX\<rparr>,
      average_span = tv_zero, sum_span = tv_zero, st_count = 0, middle_count = 0, middle_max = 2,
      middle_start = now, middle_rate = tv_zero\<rparr>"

text \<open>The first part of \<open>span\<close>, the real rate; the clock is read twice, with the results \<open>now\<close> and \<open>now'\<close>.\<close>

definition since :: "timeval \<Rightarrow> timeval \<Rightarrow> timeval" where
  "since start now =
     (if tv_usec now \<ge> tv_usec start
      then \<lparr>tv_sec = tv_sec now - tv_sec start, tv_usec = tv_usec now - tv_usec start\<rparr>
      else \<lparr>tv_sec = tv_sec now - tv_sec start - 1, tv_usec = 1000000 + tv_usec now - tv_usec start\<rparr>)"

definition middle_rate_of :: "int \<Rightarrow> timeval \<Rightarrow> timeval" where
  "middle_rate_of m d =
     (let r = rate d;
          rate_1000 = (tv_sec r * 1000 + tv_usec r sdiv 1000) sdiv m;
          s = rate_1000 sdiv 1000
      in \<lparr>tv_sec = s, tv_usec = (rate_1000 - s * 1000) * 1000\<rparr>)"

definition span_middle :: "timeval \<Rightarrow> timeval \<Rightarrow> command_stat \<Rightarrow> command_stat" where
  "span_middle now now' s =
     (if middle_count s = middle_max s
      then let d = tv_correct (since (middle_start s) now);
               m = (if tv_sec d > 0 then middle_max s sdiv 2 else middle_max s * 2)
           in s\<lparr>middle_rate := middle_rate_of (middle_max s) d, middle_count := 0, middle_start := now',
                middle_max := (if m < 2 then 2 else m)\<rparr>
      else s\<lparr>middle_count := middle_count s + 1\<rparr>)"

definition average_step :: "timeval \<Rightarrow> timeval \<Rightarrow> timeval" where
  "average_step tv a = tv_correct
     (if tv_sec a = 0 \<and> tv_usec a = 0 then tv
      else \<lparr>tv_sec = (tv_sec a + tv_sec tv) sdiv 2, tv_usec = (tv_usec a + tv_usec tv) sdiv 2\<rparr>)"

definition stat_span :: "timeval \<Rightarrow> timeval \<Rightarrow> timeval \<Rightarrow> command_stat \<Rightarrow> command_stat" where
  "stat_span now now' tv0 s0 =
     (let s = span_middle now now' s0; tv = tv_correct tv0
      in s\<lparr>st_count := st_count s + 1, last_span := tv,
           max_span := (if tv_less (max_span s) tv then tv else max_span s),
           min_span := (if tv_less tv (min_span s) then tv else min_span s),
           average_span := average_step tv (average_span s),
           sum_span := tv_correct \<lparr>tv_sec = tv_sec (sum_span s) + tv_sec tv, tv_usec = tv_usec (sum_span s) + tv_usec tv\<rparr>\<rparr>)"

definition get_min :: "command_stat \<Rightarrow> timeval" where
  "get_min s = (if tv_sec (min_span s) \<noteq> LONG_MAX then min_span s else tv_zero)"

section \<open>The statistics of all methods\<close>

record common_stat =
  stat_list :: "command_stat list"
  imark :: int

definition common_stat_new :: common_stat where
  "common_stat_new = \<lparr>stat_list = [], imark = -1\<rparr>"

definition stat_resize :: "timeval \<Rightarrow> nat \<Rightarrow> command_stat list \<Rightarrow> command_stat list" where
  "stat_resize now n xs = (if n < length xs then xs else xs @ replicate (n + 1 - length xs) (command_stat_new now))"

definition stat_at :: "timeval \<Rightarrow> nat \<Rightarrow> common_stat \<Rightarrow> command_stat" where
  "stat_at now i c = (if i \<ge> length (stat_list c) then command_stat_new now else stat_list c ! i)"

definition stat_mark :: "int \<Rightarrow> common_stat \<Rightarrow> common_stat" where
  "stat_mark i c = c\<lparr>imark := i\<rparr>"

text \<open>\<open>clk\<close> are the times read on the way: for a new entry, and for the rate.\<close>

definition marked_span :: "timeval \<times> timeval \<times> timeval \<Rightarrow> timeval \<Rightarrow> common_stat \<Rightarrow> bool \<times> common_stat" where
  "marked_span clk tv c = (case clk of (t0, t1, t2) \<Rightarrow>
     if imark c = -1 then (False, c)
     else let i = nat (imark c); xs = stat_resize t0 i (stat_list c)
          in (True, c\<lparr>stat_list := xs[i := stat_span t1 t2 tv (xs ! i)], imark := -1\<rparr>))"

text \<open>
  What a thread does to the statistics at the end of a call (\<open>ad_invoke::_invoke\<close>): it marks the method,
  and then registers the span. Each of the two is done under the mutex.
\<close>

datatype stat_op = Mark nat | Span "timeval \<times> timeval \<times> timeval" timeval

definition stat_do :: "stat_op \<Rightarrow> common_stat \<Rightarrow> common_stat" where
  "stat_do x c = (case x of Mark i \<Rightarrow> stat_mark (int i) c | Span clk tv \<Rightarrow> snd (marked_span clk tv c))"

section \<open>Exactness\<close>

definition micro :: "timeval \<Rightarrow> int" where
  "micro tv = tv_sec tv * 1000000 + tv_usec tv"

definition normal :: "timeval \<Rightarrow> bool" where
  "normal tv \<longleftrightarrow> 0 \<le> tv_usec tv \<and> tv_usec tv < 1000000"

lemma tv_correct_micro: "micro (tv_correct tv) = micro tv"
proof (induction tv rule: tv_correct.induct)
  case (1 tv)
  then show ?case by (subst tv_correct.simps) (simp add: micro_def)
qed

lemma tv_correct_normal: "0 \<le> tv_usec tv \<Longrightarrow> normal (tv_correct tv)"
proof (induction tv rule: tv_correct.induct)
  case (1 tv)
  then show ?case by (subst tv_correct.simps) (simp add: normal_def)
qed

lemma tv_less_micro: "normal l \<Longrightarrow> normal r \<Longrightarrow> tv_less l r \<longleftrightarrow> micro l < micro r"
  by (auto simp: tv_less_def normal_def micro_def)

lemma zero_normal [simp]: "normal tv_zero" "micro tv_zero = 0"
  by (simp_all add: normal_def micro_def tv_zero_def)

text \<open>The times that can be measured: not negative, and less than \<open>LONG_MAX\<close> seconds.\<close>

definition duration :: "timeval \<Rightarrow> bool" where
  "duration tv \<longleftrightarrow> 0 \<le> tv_sec tv \<and> 0 \<le> tv_usec tv \<and> micro tv < LONG_MAX * 1000000"

type_synonym spans = "(timeval \<times> timeval \<times> timeval) list"

fun stat_spans :: "spans \<Rightarrow> command_stat \<Rightarrow> command_stat" where
  "stat_spans [] s = s"
| "stat_spans ((now, now', tv) # xs) s = stat_spans xs (stat_span now now' tv s)"

definition stat_inv :: "int list \<Rightarrow> command_stat \<Rightarrow> bool" where
  "stat_inv us s \<longleftrightarrow> st_count s = int (length us)
     \<and> normal (sum_span s) \<and> micro (sum_span s) = sum_list us
     \<and> normal (max_span s) \<and> micro (max_span s) = Max (insert 0 (set us))
     \<and> (if us = [] then min_span s = \<lparr>tv_sec = LONG_MAX, tv_usec = LONG_MAX\<rparr>
        else normal (min_span s) \<and> micro (min_span s) = Min (set us) \<and> micro (min_span s) < LONG_MAX * 1000000)
     \<and> 2 \<le> middle_max s \<and> 0 \<le> middle_count s \<and> middle_count s \<le> middle_max s"

lemma stat_inv_new: "stat_inv [] (command_stat_new now)"
  by (simp add: stat_inv_def command_stat_new_def)

lemma span_middle_keeps:
  "st_count (span_middle now now' s) = st_count s" "sum_span (span_middle now now' s) = sum_span s"
  "max_span (span_middle now now' s) = max_span s" "min_span (span_middle now now' s) = min_span s"
  "average_span (span_middle now now' s) = average_span s"
  by (simp_all add: span_middle_def Let_def)

lemma span_middle_bounds:
  assumes "2 \<le> middle_max s" "0 \<le> middle_count s" "middle_count s \<le> middle_max s"
  shows "2 \<le> middle_max (span_middle now now' s) \<and> 0 \<le> middle_count (span_middle now now' s)
    \<and> middle_count (span_middle now now' s) \<le> middle_max (span_middle now now' s)"
  using assms by (simp add: span_middle_def Let_def)

lemma normal_sec: "normal tv \<Longrightarrow> micro tv < LONG_MAX * 1000000 \<Longrightarrow> tv_sec tv < LONG_MAX"
  by (simp add: normal_def micro_def LONG_MAX_def)

lemma stat_span_inv:
  assumes "stat_inv us s" and "duration tv"
  shows "stat_inv (us @ [micro tv]) (stat_span now now' tv s)"
proof -
  let ?t = "tv_correct tv" let ?s = "stat_span now now' tv s"
  have t: "normal ?t" "micro ?t = micro tv" "0 \<le> micro tv" "micro tv < LONG_MAX * 1000000"
    using assms(2) tv_correct_normal tv_correct_micro by (auto simp: duration_def micro_def)
  note s = assms(1) [unfolded stat_inv_def]
  let ?w = "\<lparr>tv_sec = tv_sec (sum_span s) + tv_sec ?t, tv_usec = tv_usec (sum_span s) + tv_usec ?t\<rparr>"
  have "sum_span ?s = tv_correct ?w"
    by (simp add: stat_span_def Let_def span_middle_keeps)
  moreover have "micro ?w = micro (sum_span s) + micro ?t"
    by (simp add: micro_def)
  moreover have "0 \<le> tv_usec ?w"
    using s t(1) by (simp add: normal_def)
  ultimately have sum: "normal (sum_span ?s) \<and> micro (sum_span ?s) = sum_list us + micro tv"
    using s t(2) tv_correct_normal [of ?w] tv_correct_micro [of ?w] by simp
  have "max_span ?s = (if tv_less (max_span s) ?t then ?t else max_span s)"
    by (simp add: stat_span_def Let_def span_middle_keeps)
  moreover have "tv_less (max_span s) ?t \<longleftrightarrow> micro (max_span s) < micro tv"
    using s t(1,2) tv_less_micro [of "max_span s" ?t] by simp
  moreover have "insert 0 (set (us @ [micro tv])) = insert (micro tv) (insert 0 (set us))"
    by auto
  then have "Max (insert 0 (set (us @ [micro tv]))) = max (micro tv) (micro (max_span s))"
    using Max_insert [of "insert 0 (set us)" "micro tv"] s by simp
  moreover have "normal (max_span s)" using s by simp
  ultimately have max: "normal (max_span ?s) \<and> micro (max_span ?s) = Max (insert 0 (set (us @ [micro tv])))"
    using t(1,2) by (simp add: max_def del: Max_insert)
  have mins: "min_span ?s = (if tv_less ?t (min_span s) then ?t else min_span s)"
    by (simp add: stat_span_def Let_def span_middle_keeps)
  have min: "normal (min_span ?s) \<and> micro (min_span ?s) = Min (set (us @ [micro tv]))
      \<and> micro (min_span ?s) < LONG_MAX * 1000000"
  proof (cases "us = []")
    case True
    then have "tv_less ?t (min_span s)"
      using s normal_sec [OF t(1)] t(2,4) by (simp add: tv_less_def)
    with True t mins show ?thesis by simp
  next
    case False
    then have m: "normal (min_span s)" "micro (min_span s) = Min (set us)" "micro (min_span s) < LONG_MAX * 1000000"
      using s by simp_all
    have "Min (set (us @ [micro tv])) = min (micro tv) (micro (min_span s))"
      using False m(2) by simp
    then show ?thesis
      using mins m(1,3) t tv_less_micro [OF t(1) m(1)] by (simp add: min_def)
  qed
  have "st_count ?s = int (length (us @ [micro tv]))"
    using s by (simp add: stat_span_def Let_def span_middle_keeps)
  moreover have "2 \<le> middle_max ?s \<and> 0 \<le> middle_count ?s \<and> middle_count ?s \<le> middle_max ?s"
    using s span_middle_bounds by (simp add: stat_span_def Let_def)
  ultimately show ?thesis
    using sum max min unfolding stat_inv_def by simp
qed

lemma stat_spans_inv:
  "stat_inv us s \<Longrightarrow> \<forall>x \<in> set xs. duration (snd (snd x)) \<Longrightarrow>
     stat_inv (us @ map (micro \<circ> snd \<circ> snd) xs) (stat_spans xs s)"
proof (induction xs arbitrary: us s)
  case (Cons x xs)
  obtain now now' tv where x: "x = (now, now', tv)" by (cases x) auto
  have "stat_inv (us @ [micro tv]) (stat_span now now' tv s)"
    using Cons.prems x by (intro stat_span_inv) simp_all
  then show ?case
    using Cons.IH [of "us @ [micro tv]" "stat_span now now' tv s"] Cons.prems(2) x by simp
qed simp

text \<open>
  C36. The statistics of a method are exact where they are sums and extremes: after any calls, the count is
  their number, the sum the sum of their spans, the maximum and the minimum the greatest and the least of
  them, and the sum and the extremes are normalised (less than a million microseconds beside the
  seconds). The counter of the rate stays within its bound, and no division is by zero.\<close>

theorem statistics_exact:
  assumes "xs \<noteq> []" and "\<forall>x \<in> set xs. duration (snd (snd x))"
    and "s = stat_spans xs (command_stat_new t)" and "us = map (micro \<circ> snd \<circ> snd) xs"
  shows "st_count s = int (length xs) \<and> micro (sum_span s) = sum_list us
    \<and> micro (max_span s) = Max (set us) \<and> micro (get_min s) = Min (set us)
    \<and> normal (sum_span s) \<and> normal (max_span s) \<and> normal (get_min s)
    \<and> 2 \<le> middle_max s \<and> middle_count s \<le> middle_max s"
proof -
  have inv: "stat_inv us s"
    using stat_spans_inv [OF stat_inv_new assms(2), of t] assms(3,4) by simp
  have us: "us \<noteq> []" "\<forall>u \<in> set us. 0 \<le> u"
    using assms(1,2,4) by (auto simp: duration_def micro_def)
  then obtain u where "u \<in> set us" "0 \<le> u" by (cases us) auto
  then have "0 \<le> Max (set us)"
    by (meson List.finite_set Max_ge order_trans)
  then have max: "Max (insert 0 (set us)) = Max (set us)"
    using us(1) by (simp add: max_def)
  have "tv_sec (min_span s) < LONG_MAX"
    using inv us(1) normal_sec by (auto simp: stat_inv_def)
  then have "get_min s = min_span s"
    by (simp add: get_min_def)
  then show ?thesis
    using inv us(1) max assms(4) by (simp add: stat_inv_def)
qed

theorem statistics_exact_witness:
  "micro (sum_span (stat_spans [(tv_zero, tv_zero, \<lparr>tv_sec = 1, tv_usec = 600000\<rparr>),
      (tv_zero, tv_zero, \<lparr>tv_sec = 0, tv_usec = 700000\<rparr>)] (command_stat_new tv_zero))) = 2300000"
proof -
  let ?xs = "[(tv_zero, tv_zero, \<lparr>tv_sec = 1, tv_usec = 600000\<rparr>), (tv_zero, tv_zero, \<lparr>tv_sec = 0, tv_usec = 700000\<rparr>)]"
  have "\<forall>x \<in> set ?xs. duration (snd (snd x))"
    by (simp add: duration_def micro_def LONG_MAX_def)
  from statistics_exact [OF _ this refl refl, of tv_zero] show ?thesis
    by (simp add: micro_def)
qed

text \<open>
  C37. The clock is wrong when a call crosses a second. The span is exact when the microseconds have not
  wrapped; when they have, the code borrows a second but takes the distance of the microseconds instead
  of its complement, and the span is off by up to one second, in either direction.\<close>

theorem get_span_error:
  assumes "normal start" and "normal now"
  shows "micro (get_span start now) = micro now - micro start
      + (if tv_usec start > tv_usec now then 2 * (tv_usec start - tv_usec now) - 1000000 else 0)
    \<and> normal (get_span start now)"
  using assms by (auto simp: get_span_def micro_def normal_def)

theorem get_span_error_witness:
  "micro (get_span \<lparr>tv_sec = 7, tv_usec = 999990\<rparr> \<lparr>tv_sec = 8, tv_usec = 10\<rparr>) = 999980"
  using get_span_error [of "\<lparr>tv_sec = 7, tv_usec = 999990\<rparr>" "\<lparr>tv_sec = 8, tv_usec = 10\<rparr>"]
  by (simp add: normal_def micro_def)

text \<open>The average is not one: it can be less than the least span. A second and nine tenths give 0.45.\<close>

lemma average_below_minimum:
  "average_span (stat_spans [(t, t, \<lparr>tv_sec = 1, tv_usec = 0\<rparr>), (t, t, \<lparr>tv_sec = 0, tv_usec = 900000\<rparr>)] (command_stat_new t))
     = \<lparr>tv_sec = 0, tv_usec = 450000\<rparr>"
  by (simp add: stat_span_def Let_def span_middle_keeps average_step_def tv_correct.simps command_stat_new_def
      tv_zero_def signed_divide_int_def)

section \<open>Calls\<close>

text \<open>The end of a call, when no other thread comes in between.\<close>

definition finish_call :: "nat \<times> (timeval \<times> timeval \<times> timeval) \<times> timeval \<Rightarrow> common_stat \<Rightarrow> common_stat" where
  "finish_call x c = (case x of (i, clk, tv) \<Rightarrow> stat_do (Span clk tv) (stat_do (Mark i) c))"

lemma finish_call_count:
  "st_count (stat_at t j (finish_call (i, clk, tv) c)) = st_count (stat_at t j c) + (if j = i then 1 else 0)
   \<and> imark (finish_call (i, clk, tv) c) = -1"
proof -
  obtain t0 t1 t2 where clk: "clk = (t0, t1, t2)" by (cases clk) auto
  have "st_count (stat_span t1 t2 tv s) = st_count s + 1" for s
    by (simp add: stat_span_def Let_def span_middle_keeps)
  then show ?thesis
    by (auto simp: finish_call_def stat_do_def stat_mark_def marked_span_def clk Let_def stat_at_def stat_resize_def
        nth_append nth_list_update command_stat_new_def)
qed

text \<open>
  Calls that end one after the other are counted for their own methods: the count of a method is
  the number of its calls. When two ends are interleaved (each takes the mutex twice) it is not so: the
  second mark overwrites the first, one span is booked for the other method and the other span is lost.\<close>

lemma calls_counted:
  "st_count (stat_at t j (fold finish_call calls common_stat_new)) = int (length (filter (\<lambda>x. fst x = j) calls))
   \<and> st_count (stat_at t 0 (fold stat_do [Mark 0, Mark 1, Span clk x, Span clk' y] common_stat_new)) = 0
   \<and> st_count (stat_at t 1 (fold stat_do [Mark 0, Mark 1, Span clk x, Span clk' y] common_stat_new)) = 1"
proof -
  have "st_count (stat_at t j (fold finish_call calls c)) = st_count (stat_at t j c) + int (length (filter (\<lambda>x. fst x = j) calls))" for c
  proof (induction calls arbitrary: c)
    case (Cons x calls)
    obtain i clk tv where "x = (i, clk, tv)" by (cases x) auto
    then show ?case
      using Cons.IH [of "finish_call x c"] finish_call_count [of t j i clk tv c] by simp
  qed simp
  moreover have "st_count (stat_at t j common_stat_new) = 0"
    by (simp add: stat_at_def common_stat_new_def command_stat_new_def)
  moreover obtain t0 t1 t2 where "clk = (t0, t1, t2)" by (cases clk) auto
  moreover obtain u0 u1 u2 where "clk' = (u0, u1, u2)" by (cases clk') auto
  ultimately show ?thesis
    by (simp add: stat_do_def stat_mark_def marked_span_def common_stat_new_def stat_resize_def stat_at_def
        command_stat_new_def stat_span_def Let_def span_middle_keeps numeral_2_eq_2)
qed

end
