(* ===== verification/Client.thy ===== *)
theory Client
  imports Server_Laws
begin

text \<open>
  The connection of a slave to its master: \<open>client\<close>, \<open>mux_client_base\<close> and \<open>mux_client\<close> of
  \<open>fas/inet/client.hpp\<close> over the connection of \<open>Connection\<close>, the calls of \<open>fas/system/inet.hpp\<close> that it
  makes, and the loop of \<open>src/daemon.cpp\<close> that keeps the slave connected.

  A client is a connection with five more members. The virtual function \<open>release\<close> that the code of the
  connection calls is here \<open>mux_client_base::_release\<close>: when the release of the connection succeeds, it
  runs \<open>client::_close\<close>. Nothing in the connection reads the members that this changes, so
  it is done at the end of the call, as \<open>pool::free\<close> in theory \<open>Server\<close>: \<open>c_freed\<close> counts the releases.
  Its \<open>shutdown\<close> ignores errors and finds the descriptor closed already. The advice
  \<open>on_connection_close\<close> of the slave calls \<open>close\<close> at the end of \<open>connection::_close\<close>; within a release that
  does nothing, since the connection is marked as released.

  The address of the peer is resolved by the C library: \<open>resolve\<close>. The answers of the kernel to one
  attempt to connect are the record \<open>dial\<close>. The advices \<open>_on_client_connect_\<close> and
  \<open>_on_client_connected_\<close> are stubs, \<open>on_connect_error\<close> of \<open>src/fas_methods.hpp\<close> calls \<open>close\<close>.
\<close>

section \<open>Sockets\<close>

text \<open>The codes on Linux, where \<open>EWOULDBLOCK\<close> is \<open>EAGAIN\<close>.\<close>

definition EINPROGRESS :: errno where "EINPROGRESS = Eother 115"
definition ECONNABORTED :: errno where "ECONNABORTED = Eother 103"

definition inet_connect :: "errno option \<Rightarrow> bool res" where
  "inet_connect r = (case r of
     None \<Rightarrow> Inr True
   | Some e \<Rightarrow> if e = EINPROGRESS then Inr False else Inl (Runtime_error ''fas::system::inet::connect: ''))"

definition inet_accept :: "errno + nat \<times> string \<Rightarrow> (nat \<times> string) option res" where
  "inet_accept r = (case r of
     Inr x \<Rightarrow> Inr (Some x)
   | Inl e \<Rightarrow> if e = EWOULDBLOCK \<or> e = EAGAIN \<or> e = ECONNABORTED \<or> e = EINTR then Inr None
              else Inl (Runtime_error ''fas::system::inet::accept: ''))"

text \<open>The error that \<open>getsockopt\<close> reports, and the answer to a \<open>send\<close> of no bytes.\<close>

definition check_socket :: "errno option res \<Rightarrow> errno option \<Rightarrow> bool res" where
  "check_socket so snt = (case so of
     Inl e \<Rightarrow> Inl (Runtime_error ''fas::system::inet::check_socket1: '')
   | Inr None \<Rightarrow> (case snt of
       None \<Rightarrow> Inr True
     | Some e \<Rightarrow> if e = EWOULDBLOCK \<or> e = EAGAIN \<or> e = EINTR \<or> e = ENOTCONN then Inr False
                 else Inl (Runtime_error ''fas::system::inet::check_socket2: ''))
   | Inr (Some v) \<Rightarrow>
       if v = EINPROGRESS then Inr False
       else if v = EWOULDBLOCK \<or> v = EAGAIN \<or> v = EINTR then Inr True
       else Inl (Runtime_error ''fas::system::inet::check_socket3: ''))"

section \<open>State\<close>

record 'm client =
  cl_conn :: "'m conn"
  cl_nonblock :: bool
  cl_nonblock_connect :: bool
  cl_progress :: bool
  cl_buffers :: "string list"
  cl_socket :: "nat option"
  cl_address :: string
  cl_bind :: string

definition client_new :: "'m conn \<Rightarrow> 'm client" where
  "client_new s = \<lparr>cl_conn = s, cl_nonblock = False, cl_nonblock_connect = False, cl_progress = False,
     cl_buffers = [], cl_socket = None, cl_address = [], cl_bind = []\<rparr>"

definition set_nonblock :: "bool \<Rightarrow> bool \<Rightarrow> 'm client \<Rightarrow> 'm client" where
  "set_nonblock nb nbc c = c\<lparr>cl_nonblock := nb, cl_nonblock_connect := nbc\<rparr>"

definition client_status :: "'m client \<Rightarrow> bool" where
  "client_status c \<longleftrightarrow> cl_progress c \<or> \<not> c_released (cl_conn c)"

text \<open>A call of the connection, with what \<open>mux_client_base::_release\<close> adds to a release.\<close>

definition conn_to_client :: "'m conn \<Rightarrow> 'm client \<Rightarrow> 'm client" where
  "conn_to_client s c =
     (if c_freed (cl_conn c) < c_freed s
      then c\<lparr>cl_conn := s, cl_buffers := [], cl_progress := False, cl_socket := None\<rparr>
      else c\<lparr>cl_conn := s\<rparr>)"

definition on_client :: "('m conn, 'a) op \<Rightarrow> ('m client, 'a) op" where
  "on_client f c = (case f (cl_conn c) of (r, s) \<Rightarrow> (r, conn_to_client s c))"

definition lift_res :: "'a res \<Rightarrow> ('s, 'a) op" where
  "lift_res r s = (r, s)"

section \<open>Connecting\<close>

text \<open>
  What the kernel answers: the new socket, the calls between \<open>socket\<close> and \<open>connect\<close> (\<open>bind\<close>, \<open>nonblock\<close>,
  \<open>tcp_nodelay\<close>), \<open>connect\<close>, and those after it (\<open>getsockname\<close>, \<open>nonblock\<close>).
\<close>

record dial =
  dl_socket :: "nat res"
  dl_before :: "unit res"
  dl_connect :: "errno option"
  dl_after :: "string res"

text \<open>\<open>__write_buffer\<close>: what was written while the connection was being made.\<close>

fun write_buffers ::
  "'m imux \<Rightarrow> nat \<Rightarrow> (nat \<Rightarrow> nat \<Rightarrow> sysret) \<Rightarrow> nat \<Rightarrow> string list \<Rightarrow> int \<Rightarrow> ('m client, int) op" where
  "write_buffers M h nets i [] n = seqS (upd (\<lambda>c. c\<lparr>cl_buffers := []\<rparr>)) (ret n)"
| "write_buffers M h nets i (b # bs) n = bindS (on_client (mux_write_data M h (nets i) b)) (\<lambda>wr.
     if wr \<noteq> int (length b) then raise (Runtime_error ''client::__write_buffer: error write buffer'')
     else write_buffers M h nets (i + 1) bs (n + wr))"

definition write_buffer :: "'m imux \<Rightarrow> nat \<Rightarrow> (nat \<Rightarrow> nat \<Rightarrow> sysret) \<Rightarrow> ('m client, int) op" where
  "write_buffer M h nets c =
     (if cl_buffers c \<noteq> [] then write_buffers M h nets 0 (cl_buffers c) 0 c else ret (-1) c)"

text \<open>The end of an attempt that failed or is given up.\<close>

definition drop_socket :: "'m imux \<Rightarrow> ('m client, unit) op" where
  "drop_socket M c =
     seqS (upd (\<lambda>c. c\<lparr>cl_progress := False, cl_buffers := []\<rparr>))
       (seqS (case cl_socket c of Some k \<Rightarrow> if k \<noteq> 0 then on_client (inet_close M k) else ret () | None \<Rightarrow> ret ())
         (upd (\<lambda>c. c\<lparr>cl_socket := None\<rparr>))) c"

text \<open>\<open>_connect_ready\<close> with the code -1, as it is called to cancel an attempt.\<close>

definition give_up_connect :: "'m imux \<Rightarrow> ('m client, unit) op" where
  "give_up_connect M c =
     (if cl_progress c then seqS (on_client (reset_write_handler M True)) (drop_socket M) c else ret () c)"

definition client_release :: "'m imux \<Rightarrow> ('m client, bool) op" where
  "client_release M = seqS (give_up_connect M) (on_client (release M))"

definition client_close :: "'m imux \<Rightarrow> bool \<Rightarrow> ('m client, bool) op" where
  "client_close M hard = bindS (client_release M) (\<lambda>r.
     if \<not> r \<and> hard then seqS (client_release M) (ret r) else ret r)"

definition on_connect_error :: "'m imux \<Rightarrow> ('m client, unit) op" where
  "on_connect_error M = seqS (client_close M False) (ret ())"

definition on_connection_close :: "'m imux \<Rightarrow> ('m client, unit) op" where
  "on_connection_close M = seqS (client_close M False) (ret ())"

text \<open>The end of a connection attempt: \<open>err\<close> is 0, an error code, -1 to cancel, -2 for other errors.\<close>

definition connect_ready ::
  "'m imux \<Rightarrow> nat \<Rightarrow> string res \<Rightarrow> string res \<Rightarrow> (nat \<Rightarrow> nat \<Rightarrow> sysret) \<Rightarrow> nat option \<Rightarrow> int \<Rightarrow> ('m client, int) op" where
  "connect_ready M h sockname peername nets d err c =
     (if d \<noteq> cl_socket c then raise (Runtime_error ''client::_connect_ready: invalid socket'') c
      else if cl_progress c
      then if err = 0
           then seqS (upd (\<lambda>c. c\<lparr>cl_progress := False\<rparr>))
             (bindS (lift_res sockname) (\<lambda>l. bindS (lift_res peername) (\<lambda>a.
                seqS (on_client (assign M h (the d) l a)) (write_buffer M h nets)))) c
           else seqS (drop_socket M)
             (seqS (if err > 0 \<or> err = -2 then on_connect_error M else ret ()) (ret (-1))) c
      else write_buffer M h nets c)"

text \<open>\<open>client::_close\<close>, called directly.\<close>

definition client_base_close :: "'m imux \<Rightarrow> ('m client, unit) op" where
  "client_base_close M =
     seqS (upd (\<lambda>c. c\<lparr>cl_buffers := [], cl_progress := False, cl_socket := None\<rparr>))
       (\<lambda>c. if \<not> c_closed (cl_conn c)
            then seqS (on_client (connection_close M)) (on_connection_close M) c else ret () c)"

text \<open>\<open>client::_connect\<close>\<close>

definition client_connect :: "'m imux \<Rightarrow> nat \<Rightarrow> dial \<Rightarrow> string \<Rightarrow> string \<Rightarrow> ('m client, bool) op" where
  "client_connect M h k remote baddr =
     (if remote = [] then raise (Logic_error ''fas::inet::client::_connect: remote address is empty'')
      else seqS (upd (\<lambda>c. c\<lparr>cl_address := remote, cl_bind := baddr\<rparr>))
        (seqS (\<lambda>c. if cl_progress c then drop_socket M c
                   else if client_status c then client_base_close M c else ret () c)
        (seqS (upd (\<lambda>c. c\<lparr>cl_buffers := []\<rparr>))
        (bindS (lift_res (dl_socket k)) (\<lambda>d.
         seqS (upd (\<lambda>c. c\<lparr>cl_socket := Some d, cl_conn := (cl_conn c)\<lparr>c_fds := insert d (c_fds (cl_conn c))\<rparr>\<rparr>))
        (seqS (lift_res (dl_before k))
          (case inet_connect (dl_connect k) of
             Inl e \<Rightarrow> seqS (on_client (inet_close M d))
                        (seqS (upd (\<lambda>c. c\<lparr>cl_socket := None\<rparr>)) (seqS (on_connect_error M) (ret False)))
           | Inr cr \<Rightarrow>
               seqS (upd (\<lambda>c. c\<lparr>cl_progress := \<not> cr\<rparr>))
                 (bindS (lift_res (dl_after k)) (\<lambda>l.
                    seqS (if cr then on_client (assign M h d l remote) else ret ()) (ret cr))))))))))"

section \<open>The client and the multiplexer\<close>

definition release_twice :: "'m imux \<Rightarrow> ('m client, unit) op" where
  "release_twice M c =
     (if client_status c
      then bindS (client_release M) (\<lambda>r. if \<not> r then seqS (client_release M) (ret ()) else ret ()) c
      else ret () c)"

definition mux_client_connect ::
  "'m imux \<Rightarrow> nat \<Rightarrow> (string \<Rightarrow> nat \<Rightarrow> string res) \<Rightarrow> dial \<Rightarrow> string \<Rightarrow> nat \<Rightarrow> ('m client, bool) op" where
  "mux_client_connect M h resolve k host port =
     seqS (give_up_connect M) (seqS (release_twice M) (\<lambda>c.
       if cl_progress c then ret False c
       else if client_status c then ret True c
       else bindS (bindS (lift_res (resolve host port)) (\<lambda>a. client_connect M h k a [])) (\<lambda>r c.
              if cl_progress c
              then seqS (upd (\<lambda>c. c\<lparr>cl_conn := set_rd (the (cl_socket c)) (set_wd (the (cl_socket c)) (cl_conn c))\<rparr>))
                     (seqS (on_client (set_write_handler M h)) (ret r)) c
              else ret r c) c))"

definition client_ready_read ::
  "'m imux \<Rightarrow> (string \<Rightarrow> ('m conn, unit) op) \<Rightarrow> sysread \<Rightarrow> nat \<Rightarrow> ('m client, unit) op" where
  "client_ready_read M on_read inp d c =
     (if cl_progress c
      then raise (Logic_error ''fas::inet::mux_client_base::_ready_read: ready read for progress connect'') c
      else on_client (ready_read M on_read inp d) c)"

text \<open>\<open>so\<close> is the answer of \<open>getsockerror\<close>.\<close>

definition client_ready_write ::
  "'m imux \<Rightarrow> nat \<Rightarrow> int res \<Rightarrow> string res \<Rightarrow> string res \<Rightarrow> (nat \<Rightarrow> nat \<Rightarrow> sysret) \<Rightarrow> nat \<Rightarrow> ('m client, unit) op" where
  "client_ready_write M h so sockname peername nets d c =
     (if cl_progress c
      then seqS (on_client (reset_write_handler M True))
             (bindS (lift_res so) (\<lambda>err.
                seqS (connect_ready M h sockname peername nets (Some d) err) (ret ()))) c
      else on_client (ready_write M h (nets 0) d) c)"

text \<open>
  An error while the connection is being made: the release that \<open>mux_filter_base::_ready_error\<close> calls is
  that of the client, within the frame that theory \<open>Connection\<close> calls \<open>guarded\<close>.
\<close>

definition client_guarded :: "'m imux \<Rightarrow> ('m client, unit) op \<Rightarrow> ('m client, unit) op" where
  "client_guarded M body = catchS
     (\<lambda>c. if c_recursive (cl_conn c) \<noteq> 0 then raise (Logic_error ''recursive call forbidden'') c
          else let enter = upd (\<lambda>c. c\<lparr>cl_conn := (cl_conn c)\<lparr>c_recursive := c_recursive (cl_conn c) + 1\<rparr>\<rparr>);
                   leave = upd (\<lambda>c. c\<lparr>cl_conn := (cl_conn c)\<lparr>c_recursive := c_recursive (cl_conn c) - 1\<rparr>\<rparr>)
               in seqS enter (seqS (catchS body (\<lambda>e. seqS leave (raise e))) leave) c)
     (\<lambda>e. seqS (client_release M) (seqS (client_release M) (raise e)))"

definition failed_connect :: "'m imux \<Rightarrow> nat \<Rightarrow> int res \<Rightarrow> nat \<Rightarrow> ('m client, unit) op" where
  "failed_connect M h so d =
     seqS (on_client (reset_write_handler M True)) (bindS (lift_res so) (\<lambda>err.
       seqS (connect_ready M h (Inr []) (Inr []) (\<lambda>_ _. Ret 0) (Some d) (if err \<noteq> 0 then err else -2)) (ret ())))"

definition client_ready_error :: "'m imux \<Rightarrow> nat \<Rightarrow> int res \<Rightarrow> nat \<Rightarrow> ('m client, unit) op" where
  "client_ready_error M h so d c =
     (if cl_progress c
      then seqS (\<lambda>c. if d \<noteq> c_wd (cl_conn c) \<or> d \<noteq> c_rd (cl_conn c)
                     then seqS (client_release M) (seqS (client_release M)
                            (raise (Logic_error ''mux_filter::_ready_error''))) c
                     else client_guarded M (seqS (client_release M) (ret ())) c)
             (\<lambda>c. if cl_progress c then failed_connect M h so d c else ret () c) c
      else on_client (ready_error M d) c)"

definition client_ready_urgent :: "'m imux \<Rightarrow> nat \<Rightarrow> int res \<Rightarrow> nat \<Rightarrow> ('m client, unit) op" where
  "client_ready_urgent M h so d c =
     (if cl_progress c then failed_connect M h so d c else on_client (ready_urgent M d) c)"

text \<open>\<open>client::_write\<close> with data; \<open>chk\<close> is the answer of \<open>check_socket\<close>.\<close>

definition client_write_data ::
  "'m imux \<Rightarrow> nat \<Rightarrow> bool res \<Rightarrow> string res \<Rightarrow> string res \<Rightarrow> (nat \<Rightarrow> nat \<Rightarrow> sysret) \<Rightarrow> (nat \<Rightarrow> sysret) \<Rightarrow> string
   \<Rightarrow> ('m client, int) op" where
  "client_write_data M h chk sockname peername nets net d =
     seqS (\<lambda>c. if cl_progress c
               then bindS (lift_res chk) (\<lambda>b. if b
                      then seqS (\<lambda>c. connect_ready M h sockname peername nets (cl_socket c) 0 c) (ret ())
                      else ret ()) c
               else ret () c)
       (\<lambda>c. if \<not> cl_progress c then on_client (mux_write_data M h net d) c
            else seqS (upd (\<lambda>c. if d \<noteq> [] then c\<lparr>cl_buffers := cl_buffers c @ [d]\<rparr> else c)) (ret (-1)) c)"

section \<open>Keeping the slave connected\<close>

text \<open>
  The lambda \<open>client_connect\<close> of \<open>main\<close>: \<open>req\<close> is the request that announces the slave. The record
  \<open>attempt\<close> has what the kernel answers on the way: to \<open>keepalive\<close>, to the calls of \<open>_check_and_write\<close> if
  the connection is still being made, and to the write of the request.
\<close>

record attempt =
  at_dial :: dial
  at_resolve :: "string \<Rightarrow> nat \<Rightarrow> string res"
  at_keepalive :: "unit res"
  at_check :: "bool res"
  at_sockname :: "string res"
  at_peername :: "string res"
  at_nets :: "nat \<Rightarrow> nat \<Rightarrow> sysret"
  at_net :: "nat \<Rightarrow> sysret"

record replication_config =
  rc_id :: string
  rc_host :: string
  rc_port :: nat

definition keepalive :: "nat option \<Rightarrow> unit res \<Rightarrow> ('s, unit) op" where
  "keepalive d ka = (if d = None \<or> isl ka then raise (Runtime_error ''fas::system::inet::keepalive: '') else ret ())"

definition slave_connect ::
  "'m imux \<Rightarrow> nat \<Rightarrow> replication_config \<Rightarrow> string \<Rightarrow> attempt \<Rightarrow> ('m client, unit) op" where
  "slave_connect M h cfg req k =
     seqS (client_close M False)
       (seqS (upd (\<lambda>c. c\<lparr>cl_conn := (cl_conn c)\<lparr>c_has_mux := True\<rparr>\<rparr>))
       (seqS (mux_client_connect M h (at_resolve k) (at_dial k) (rc_host cfg) (rc_port cfg))
       (seqS (upd (set_nonblock True False))
       (seqS (\<lambda>c. keepalive (cl_socket c) (at_keepalive k) c)
       (seqS (client_write_data M h (at_check k) (at_sockname k) (at_peername k) (at_nets k) (at_net k) req) (ret ()))))))"

text \<open>After each call of \<open>select\<close>; every exception is caught.\<close>

definition slave_tick ::
  "'m imux \<Rightarrow> nat \<Rightarrow> replication_config \<Rightarrow> string \<Rightarrow> attempt \<Rightarrow> 'm client \<Rightarrow> 'm client" where
  "slave_tick M h cfg req k c =
     (if rc_id cfg \<noteq> [] \<and> \<not> client_status c then snd (slave_connect M h cfg req k c) else c)"

datatype slave_event = Slave_event happening | Tick attempt

text \<open>What happens to the connection of a client that is not being connected.\<close>

definition client_happen :: "'m imux \<Rightarrow> nat \<Rightarrow> happening \<Rightarrow> 'm client \<Rightarrow> 'm client" where
  "client_happen M h x c = (case x of
     Writes d net \<Rightarrow> snd (client_write_data M h (Inr False) (Inr []) (Inr []) (\<lambda>_ _. Ret 0) net d c)
   | Releases \<Rightarrow> snd (client_release M c)
   | Readable inp cb \<Rightarrow>
       if c_mux_read (cl_conn c)
       then snd (client_ready_read M (\<lambda>d. run_cmds M h (cb d)) inp (c_rd (cl_conn c)) c) else c
   | Writable net \<Rightarrow>
       if c_mux_write (cl_conn c)
       then snd (client_ready_write M h (Inr 0) (Inr []) (Inr []) (\<lambda>_. net) (c_wd (cl_conn c)) c) else c
   | Broken \<Rightarrow>
       if c_mux_read (cl_conn c) \<or> c_mux_write (cl_conn c)
       then snd (client_ready_error M h (Inr 0) (c_rd (cl_conn c)) c) else c)"

definition slave_happen ::
  "'m imux \<Rightarrow> nat \<Rightarrow> replication_config \<Rightarrow> string \<Rightarrow> slave_event \<Rightarrow> 'm client \<Rightarrow> 'm client" where
  "slave_happen M h cfg req x c = (case x of
     Slave_event y \<Rightarrow> client_happen M h y c | Tick k \<Rightarrow> slave_tick M h cfg req k c)"

fun slave_happens ::
  "'m imux \<Rightarrow> nat \<Rightarrow> replication_config \<Rightarrow> string \<Rightarrow> slave_event list \<Rightarrow> 'm client \<Rightarrow> 'm client" where
  "slave_happens M h cfg req [] c = c"
| "slave_happens M h cfg req (x # xs) c = slave_happens M h cfg req xs (slave_happen M h cfg req x c)"

end
