(* ===== verification/Client_Laws.thy ===== *)
theory Client_Laws
  imports Client
begin

text \<open>
  What the connection of a slave keeps over any number of connections to its master, lost and made
  again: its descriptor is open exactly while it is connected, it is watched exactly then, and a
  master that accepts is reached at the next attempt.
\<close>

section \<open>The invariant\<close>

text \<open>\<open>F\<close> are the descriptors of the rest of the process.\<close>

definition client_ok :: "('m \<Rightarrow> bool) \<Rightarrow> 'm view \<Rightarrow> (nat \<Rightarrow> bool) \<Rightarrow> nat \<Rightarrow> nat set \<Rightarrow> 'm client \<Rightarrow> bool" where
  "client_ok ok wants fits h F c \<longleftrightarrow>
     conn_ok ok wants fits h (cl_conn c) \<and> c_recursive (cl_conn c) = 0 \<and> \<not> cl_progress c \<and> cl_buffers c = []
     \<and> (\<forall>e d. wants (c_mx (cl_conn c)) e d \<noteq> None \<longrightarrow> d \<in> c_fds (cl_conn c))
     \<and> (if c_released (cl_conn c) then cl_socket c = None \<and> c_fds (cl_conn c) = F
        else cl_socket c = Some (c_rd (cl_conn c)) \<and> c_rd (cl_conn c) \<notin> F \<and> c_fds (cl_conn c) = insert (c_rd (cl_conn c)) F)"

lemma conn_to_client_same [simp]: "conn_to_client (cl_conn c) c = c"
  by (simp add: conn_to_client_def)

lemma conn_to_client_sel:
  "cl_conn (conn_to_client s c) = s" "cl_progress (conn_to_client s c) = (cl_progress c \<and> \<not> c_freed (cl_conn c) < c_freed s)"
  "cl_buffers (conn_to_client s c) = (if c_freed (cl_conn c) < c_freed s then [] else cl_buffers c)"
  "cl_socket (conn_to_client s c) = (if c_freed (cl_conn c) < c_freed s then None else cl_socket c)"
  by (simp_all add: conn_to_client_def)

text \<open>A client that is not being connected does what its connection does.\<close>

lemma client_happen_conn: "\<not> cl_progress c \<Longrightarrow> client_happen M h x c = conn_to_client (happen M h x (cl_conn c)) c"
  by (cases x)
    (auto simp: client_happen_def happen_def client_write_data_def client_release_def give_up_connect_def
      client_ready_read_def client_ready_write_def client_ready_error_def on_client_def op_defs split: prod.splits)

text \<open>To close a connection that is released does nothing.\<close>

lemma closed_idle:
  assumes "c_released (cl_conn c)" "\<not> cl_progress c"
  shows "client_close M False c = (Inr False, c)"
proof -
  have "release M (cl_conn c) = (Inr False, cl_conn c)"
    using assms(1) by (simp add: release_def mux_connection_release_def mux_filter_release_def op_defs)
  then show ?thesis
    using assms(2) by (simp add: client_close_def client_release_def give_up_connect_def on_client_def op_defs)
qed

text \<open>What the kernel and the library promise of one attempt.\<close>

definition attempt_law :: "(nat \<Rightarrow> bool) \<Rightarrow> nat set \<Rightarrow> attempt \<Rightarrow> bool" where
  "attempt_law fits fds k \<longleftrightarrow>
     (case dl_socket (at_dial k) of Inl e \<Rightarrow> True | Inr d \<Rightarrow> d \<notin> fds \<and> fits d)
     \<and> dl_before (at_dial k) = Inr () \<and> dl_connect (at_dial k) \<noteq> Some EINPROGRESS
     \<and> \<not> isl (dl_after (at_dial k)) \<and> write_law (at_net k)"

text \<open>The outcome of an attempt: connected with nothing sent yet, or not connected.\<close>

definition dialled ::
  "('m \<Rightarrow> bool) \<Rightarrow> 'm view \<Rightarrow> (nat \<Rightarrow> bool) \<Rightarrow> nat \<Rightarrow> nat set \<Rightarrow> 'm client \<Rightarrow> (bool res \<times> 'm client) \<Rightarrow> bool" where
  "dialled ok wants fits h F c rc \<longleftrightarrow> (case rc of (r, c') \<Rightarrow> client_ok ok wants fits h F c' \<and>
     (r \<noteq> Inr True \<longrightarrow> c_released (cl_conn c')) \<and>
     (r = Inr True \<longrightarrow> flowing (cl_conn c') \<and> \<not> c_released (cl_conn c') \<and> pending (cl_conn c') = c_sent (cl_conn c)))"

text \<open>What happens to a slave: events of its connection, and attempts to connect it.\<close>

definition slave_law :: "(nat \<Rightarrow> bool) \<Rightarrow> nat set \<Rightarrow> slave_event \<Rightarrow> bool" where
  "slave_law fits fds x = (case x of Slave_event y \<Rightarrow> happening_law y | Tick k \<Rightarrow> attempt_law fits fds k)"

fun slave_history ::
  "(nat \<Rightarrow> bool) \<Rightarrow> 'm imux \<Rightarrow> nat \<Rightarrow> replication_config \<Rightarrow> string \<Rightarrow> slave_event list \<Rightarrow> 'm client \<Rightarrow> bool" where
  "slave_history fits M h cfg req [] c \<longleftrightarrow> True"
| "slave_history fits M h cfg req (x # xs) c \<longleftrightarrow>
     slave_law fits (c_fds (cl_conn c)) x \<and> slave_history fits M h cfg req xs (slave_happen M h cfg req x c)"

text \<open>The multiplexer when the daemon starts: it watches open descriptors, none for the slave.\<close>

definition slave_start :: "('m \<Rightarrow> bool) \<Rightarrow> 'm view \<Rightarrow> nat \<Rightarrow> nat set \<Rightarrow> 'm \<Rightarrow> bool" where
  "slave_start ok wants h F m \<longleftrightarrow> ok m \<and> (\<forall>e d. wants m e d \<noteq> None \<longrightarrow> d \<in> F) \<and> (\<forall>e d. wants m e d \<noteq> Some h)"

lemma conn_ok_watched:
  "conn_ok ok wants fits h s \<Longrightarrow> wants (c_mx s) e d = Some h \<Longrightarrow> \<not> c_released s \<and> d = c_rd s"
  by (auto simp: conn_ok_def idle_def registered_def is_open_def)

context imux_laws
begin

abbreviation "cgood \<equiv> client_ok ok wants fits"

lemma conn_to_client_ok:
  assumes "cgood h F c" "frame ok wants fits h (cl_conn c) s"
  shows "cgood h F (conn_to_client s c)"
proof -
  let ?s = "cl_conn c"
  note fr = assms(2) [unfolded frame_def]
  have rel: "c_freed ?s < c_freed s \<longleftrightarrow> c_released s \<and> \<not> c_released ?s" "c_released ?s \<longrightarrow> c_released s"
    using fr by auto
  have own: "d \<in> c_fds s" if w: "wants (c_mx s) e d \<noteq> None" for e d
  proof (cases "c_released ?s \<or> d \<noteq> c_rd ?s")
    case True
    then have "wants (c_mx ?s) e d \<noteq> None"
      using w fr by (auto simp: away_def)
    then have "d \<in> c_fds ?s" using assms(1) by (simp add: client_ok_def)
    then show ?thesis using True fr by auto
  next
    case False
    then have "own wants h d (c_mx s)"
      using fr by simp
    then have "wants (c_mx s) e d = Some h"
      using w unfolding own_def by metis
    then have "\<not> c_released s"
      using fr by (auto simp: conn_ok_def idle_def is_open_def)
    moreover have "good h s" using fr by simp
    ultimately have "c_rd s \<in> c_fds s"
      by (auto simp: conn_ok_def idle_def is_open_def)
    then show ?thesis
      using False fr by simp
  qed
  then show ?thesis
    using assms(1) fr rel unfolding client_ok_def conn_to_client_sel
    by (cases "c_released ?s"; cases "c_released s") auto
qed

lemma client_happen_ok:
  assumes "cgood h F c" "happening_law x"
  shows "cgood h F (client_happen M h x c)"
proof -
  have "frame ok wants fits h (cl_conn c) (happen M h x (cl_conn c))"
    using happen_step [OF assms(2), of h "cl_conn c"] assms(1) by (simp add: client_ok_def)
  then show ?thesis
    using client_happen_conn [of c M h x] conn_to_client_ok [OF assms(1)] assms(1) by (simp add: client_ok_def)
qed

section \<open>An attempt to connect\<close>

text \<open>A connection that could not be made leaves nothing behind.\<close>

lemma refused_ok:
  assumes "cgood h F c" "c_released (cl_conn c)" "d \<notin> c_fds (cl_conn c)" "fits d"
    and "s = (cl_conn c)\<lparr>c_fds := insert d (c_fds (cl_conn c))\<rparr>"
  obtains s' where "inet_close M d s = (Inr (), s')" "cgood h F (c\<lparr>cl_conn := s'\<rparr>)" "c_freed s' = c_freed s"
    "c_released s'"
proof -
  let ?s = "cl_conn c" let ?m = "mx_close M d (c_mx ?s)"
  have c: "idle ok wants h ?s" "c_fds ?s = F" "cl_socket c = None"
    "\<And>e d. wants (c_mx ?s) e d \<noteq> None \<Longrightarrow> d \<in> F" "c_recursive ?s = 0" "cl_buffers c = []" "\<not> cl_progress c"
    using assms(1,2) by (auto simp: client_ok_def conn_ok_def is_open_def)
  have "wants (c_mx ?s) e d = None" for e
    using c(2,4) assms(3) by blast
  then have m: "ok ?m" "wants ?m = wants (c_mx ?s)"
    using close_law [of "c_mx ?s" d] assms(4) c(1) by (auto simp: idle_def)
  let ?t = "?s\<lparr>c_fds := F, c_mx := ?m\<rparr>"
  have "inet_close M d s = (Inr (), ?t)"
    using assms(3,5) c(2) by (simp add: inet_close_def)
  moreover have "idle ok wants h ?t"
    using c(1) m by (simp add: idle_def)
  then have "cgood h F (c\<lparr>cl_conn := ?t\<rparr>)"
    using c m(2) assms(2) by (auto simp: client_ok_def conn_ok_def)
  ultimately show ?thesis
    using that [of ?t] assms(2,5) by simp
qed

lemma connected_ok:
  assumes "cgood h F c" "c_released (cl_conn c)" "d \<notin> c_fds (cl_conn c)" "fits d"
    and "s = (cl_conn c)\<lparr>c_fds := insert d (c_fds (cl_conn c))\<rparr>"
  obtains s' where "assign M h d l a s = (Inr (), s')" "c_freed s' = c_freed s" "\<not> c_released s'" "flowing s'"
    "c_rd s' = d" "pending s' = c_sent (cl_conn c)"
    "cgood h F (c\<lparr>cl_conn := s', cl_socket := Some d\<rparr>)" "c_wbuf s' = []"
proof -
  let ?s = "cl_conn c"
  have c: "idle ok wants h ?s" "c_fds ?s = F"
    "\<And>e d. wants (c_mx ?s) e d \<noteq> None \<Longrightarrow> d \<in> F" "c_recursive ?s = 0" "cl_buffers c = []" "\<not> cl_progress c"
    using assms(1,2) by (auto simp: client_ok_def conn_ok_def is_open_def)
  have s: "idle ok wants h s" "d \<in> c_fds s"
    using c(1) assms(5) by (simp_all add: idle_def)
  have none: "wants (c_mx s) e d = None" for e
    using c(2) c(3) [of e d] assms(3,5) by (cases "wants (c_mx ?s) e d") auto
  from assign_step [OF s(1,2) assms(4) none, of l a] obtain s' where s':
    "assign M h d l a s = (Inr (), s')" "good h s'" "flowing s'" "c_rd s' = d" "c_wbuf s' = []"
    "c_sent s' = c_sent s" "c_recursive s' = c_recursive s" "c_fds s' = c_fds s" "c_freed s' = c_freed s"
    "away wants d (c_mx s) (c_mx s')" "\<not> c_released s'" .
  have "d' \<in> insert d F" if "wants (c_mx s') e d' \<noteq> None" for e d'
    using that s'(10) c(3) assms(5) by (cases "d' = d") (auto simp: away_def)
  then have "cgood h F (c\<lparr>cl_conn := s', cl_socket := Some d\<rparr>)"
    using s' c assms(3,5) by (auto simp: client_ok_def)
  then show ?thesis
    using that [of s'] s' assms(5) by (simp add: pending_def)
qed

lemma client_connect_ok:
  assumes "cgood h F c" "c_released (cl_conn c)" "attempt_law fits (c_fds (cl_conn c)) k"
  shows "dialled ok wants fits h F c (client_connect M h (at_dial k) a [] c)"
proof (cases "a = []")
  case True
  then show ?thesis using assms(1,2) by (simp add: client_connect_def op_defs dialled_def)
next
  case a: False
  let ?c = "c\<lparr>cl_address := a, cl_bind := [], cl_buffers := []\<rparr>"
  have c: "cgood h F ?c" "\<not> cl_progress c" "\<not> client_status c"
    using assms(1,2) unfolding client_ok_def client_status_def by auto
  have law: "dl_before (at_dial k) = Inr ()" "dl_connect (at_dial k) \<noteq> Some EINPROGRESS"
    using assms(3) by (simp_all add: attempt_law_def)
  obtain l where l: "dl_after (at_dial k) = Inr l"
    using assms(3) by (cases "dl_after (at_dial k)") (auto simp: attempt_law_def)
  note run = client_connect_def lift_res_def op_defs a c(2,3) law(1) l client_status_def
  show ?thesis
  proof (cases "dl_socket (at_dial k)")
    case (Inl e)
    then have "client_connect M h (at_dial k) a [] c = (Inl e, ?c)"
      using c(2,3) by (simp add: run)
    then show ?thesis using c(1) assms(2) by (simp add: dialled_def)
  next
    case (Inr d)
    then have d: "d \<notin> c_fds (cl_conn c)" "fits d"
      using assms(3) by (simp_all add: attempt_law_def)
    let ?s = "(cl_conn c)\<lparr>c_fds := insert d (c_fds (cl_conn c))\<rparr>"
    show ?thesis
    proof (cases "dl_connect (at_dial k)")
      case (Some e)
      obtain s' where s': "inet_close M d ?s = (Inr (), s')" "cgood h F (?c\<lparr>cl_conn := s'\<rparr>)" "c_freed s' = c_freed ?s" "c_released s'"
        using refused_ok [OF c(1), of d ?s] assms(2) d by auto
      have "client_connect M h (at_dial k) a [] c
        = (Inr False, ?c\<lparr>cl_conn := s', cl_socket := None\<rparr>)"
        using Inr Some law(2) s'(1,3,4) assms(2) c(2,3)
        by (simp add: run inet_connect_def on_connect_error_def closed_idle on_client_def conn_to_client_def)
      moreover have "cgood h F (?c\<lparr>cl_conn := s', cl_socket := None\<rparr>)"
        using s'(2,4) unfolding client_ok_def by auto
      ultimately show ?thesis using s'(4) by (simp add: dialled_def)
    next
      case None
      obtain s' where s': "assign M h d l a ?s = (Inr (), s')" "c_freed s' = c_freed ?s" "\<not> c_released s'" "flowing s'"
        "c_rd s' = d" "pending s' = c_sent (cl_conn c)" "cgood h F (?c\<lparr>cl_conn := s', cl_socket := Some d\<rparr>)"
        using connected_ok [OF c(1), of d ?s l a] assms(2) d by auto
      have "client_connect M h (at_dial k) a [] c = (Inr True, ?c\<lparr>cl_conn := s', cl_socket := Some d, cl_progress := False\<rparr>)"
        using Inr None s'(1,2) assms(2) c(2,3) by (simp add: run inet_connect_def on_client_def conn_to_client_def)
      moreover have "cgood h F (?c\<lparr>cl_conn := s', cl_socket := Some d, cl_progress := False\<rparr>)"
        using s'(3,7) unfolding client_ok_def by auto
      ultimately show ?thesis using s'(3,4,6) by (simp add: dialled_def)
    qed
  qed
qed

lemma mux_connect_ok:
  assumes "cgood h F c" "c_released (cl_conn c)" "attempt_law fits (c_fds (cl_conn c)) k"
  shows "dialled ok wants fits h F c (mux_client_connect M h (at_resolve k) (at_dial k) host port c)"
proof -
  have c: "\<not> cl_progress c" "\<not> client_status c"
    using assms(1,2) by (simp_all add: client_ok_def client_status_def)
  note run = mux_client_connect_def give_up_connect_def release_twice_def lift_res_def op_defs c
  show ?thesis
  proof (cases "at_resolve k host port")
    case (Inl e)
    then show ?thesis using assms(1,2) by (simp add: run dialled_def)
  next
    case (Inr a)
    have d: "dialled ok wants fits h F c (client_connect M h (at_dial k) a [] c)"
      by (rule client_connect_ok [OF assms])
    obtain r c' where rc: "client_connect M h (at_dial k) a [] c = (r, c')" by force
    then have "\<not> cl_progress c'"
      using d by (simp add: dialled_def client_ok_def)
    then have "mux_client_connect M h (at_resolve k) (at_dial k) host port c = (r, c')"
      using Inr rc by (simp add: run split: sum.splits)
    then show ?thesis using d rc by simp
  qed
qed

lemma write_taken:
  assumes "good h s" "flowing s" "d \<noteq> []" "takes net"
  obtains r s' where "mux_write_data M h net d s = (Inr r, s')" "frame ok wants fits h s s'" "flowing s'"
    "pending s' = pending s @ d" "\<not> c_released s'"
proof -
  have "\<exists>rt. system_write (net n) = Inr rt \<and> rt \<noteq> 0" if "0 < n" for n
    using assms(4) that by (auto simp: takes_def system_write_def dest!: spec [of _ n])
  from write_kept [OF assms(1-3) takes_write_law [OF assms(4)] this] obtain k s' where
    s': "mux_write_data M h net d s = (Inr k, s')" "frame ok wants fits h s s'" "emits d s True s'" "flowing s'" by blast
  then show ?thesis
    using that released_empty [OF frame_good [OF s'(2)]] by (auto simp: emits_def)
qed

text \<open>The request that follows, whether or not it can be sent.\<close>

lemma announce_ok:
  assumes "cgood h F c" "write_law net"
  shows "cgood h F (snd (client_write_data M h chk sn pn nets net d c))"
proof -
  have c: "\<not> cl_progress c" "good h (cl_conn c)" using assms(1) by (simp_all add: client_ok_def)
  obtain r s where w: "mux_write_data M h net d (cl_conn c) = (r, s)" by force
  then have "client_write_data M h chk sn pn nets net d c = (r, conn_to_client s c)"
    using c(1) by (simp add: client_write_data_def op_defs on_client_def)
  then show ?thesis
    using conn_to_client_ok [OF assms(1)] write_data_step [OF c(2) assms(2) w] by simp
qed

lemma slave_connect_start:
  assumes "c_released (cl_conn c)" "\<not> cl_progress c"
  shows "slave_connect M h cfg req k c =
    seqS (mux_client_connect M h (at_resolve k) (at_dial k) (rc_host cfg) (rc_port cfg))
       (seqS (upd (set_nonblock True False))
       (seqS (\<lambda>c. keepalive (cl_socket c) (at_keepalive k) c)
       (seqS (client_write_data M h (at_check k) (at_sockname k) (at_peername k) (at_nets k) (at_net k) req) (ret ()))))
      (c\<lparr>cl_conn := (cl_conn c)\<lparr>c_has_mux := True\<rparr>\<rparr>)"
proof -
  show ?thesis
    using closed_idle [OF assms] by (simp add: slave_connect_def bindS_def [of "client_close M False"]) (simp add: op_defs)
qed

lemma nonblock_ok: "cgood h F (set_nonblock a b c) = cgood h F c"
  by (simp add: client_ok_def set_nonblock_def)

lemma set_nonblock_sel [simp]: "cl_conn (set_nonblock a b c) = cl_conn c" "cl_progress (set_nonblock a b c) = cl_progress c"
  by (simp_all add: set_nonblock_def)

lemma slave_connect_ok:
  assumes "cgood h F (c\<lparr>cl_conn := (cl_conn c)\<lparr>c_has_mux := True\<rparr>\<rparr>)" "c_released (cl_conn c)"
    and "attempt_law fits (c_fds (cl_conn c)) k"
  shows "cgood h F (snd (slave_connect M h cfg req k c))"
proof -
  let ?c = "c\<lparr>cl_conn := (cl_conn c)\<lparr>c_has_mux := True\<rparr>\<rparr>"
  have start: "c_released (cl_conn c)" "\<not> cl_progress c"
    using assms(1,2) by (simp_all add: client_ok_def)
  obtain r c1 where c1: "mux_client_connect M h (at_resolve k) (at_dial k) (rc_host cfg) (rc_port cfg) ?c = (r, c1)" by force
  have "dialled ok wants fits h F ?c (r, c1)"
    using mux_connect_ok [OF assms(1), of k "rc_host cfg" "rc_port cfg"] assms(2,3) c1 by simp
  then have ok1: "cgood h F c1" by (simp add: dialled_def)
  have wl: "write_law (at_net k)" using assms(3) by (simp add: attempt_law_def)
  show ?thesis
  proof (cases "isl r \<or> cl_socket c1 = None \<or> isl (at_keepalive k)")
    case True
    then have "snd (slave_connect M h cfg req k c) = c1 \<or> snd (slave_connect M h cfg req k c) = set_nonblock True False c1"
      unfolding slave_connect_start [OF start] using c1
      by (cases r) (auto simp: op_defs keepalive_def set_nonblock_def)
    then show ?thesis using ok1 nonblock_ok by metis
  next
    case False
    then have "snd (slave_connect M h cfg req k c)
      = snd (client_write_data M h (at_check k) (at_sockname k) (at_peername k) (at_nets k) (at_net k) req (set_nonblock True False c1))"
      unfolding slave_connect_start [OF start] using c1
      by (cases r) (auto simp: op_defs keepalive_def set_nonblock_def split: sum.splits prod.splits)
    then show ?thesis
      using announce_ok [OF _ wl] ok1 nonblock_ok by metis
  qed
qed

section \<open>Histories\<close>

lemma client_ok_mux: "cgood h F c \<Longrightarrow> c\<lparr>cl_conn := (cl_conn c)\<lparr>c_has_mux := True\<rparr>\<rparr> = c"
  by (auto simp: client_ok_def conn_ok_def idle_def registered_def)

lemma slave_happen_ok:
  assumes "cgood h F c" "slave_law fits (c_fds (cl_conn c)) x"
  shows "cgood h F (slave_happen M h cfg req x c)"
proof (cases x)
  case (Slave_event y)
  then show ?thesis using assms client_happen_ok by (simp add: slave_happen_def slave_law_def)
next
  case (Tick k)
  have "c_released (cl_conn c)" if "\<not> client_status c"
    using that by (simp add: client_status_def)
  then show ?thesis
    using assms slave_connect_ok [of h F c k cfg req] Tick client_ok_mux [OF assms(1)]
    by (simp add: slave_happen_def slave_tick_def slave_law_def)
qed

lemma slave_happens_ok:
  "cgood h F c \<Longrightarrow> slave_history fits M h cfg req xs c \<Longrightarrow> cgood h F (slave_happens M h cfg req xs c)"
  by (induction xs arbitrary: c) (use slave_happen_ok in auto)

lemma slave_start_ok:
  assumes "slave_start ok wants h F m" "attempt_law fits F k" "rc_id cfg \<noteq> []"
  shows "cgood h F (slave_tick M h cfg req k (client_new (conn_new j j' False m F)))"
proof -
  let ?c = "client_new (conn_new j j' False m F)"
  have "cgood h F (?c\<lparr>cl_conn := (cl_conn ?c)\<lparr>c_has_mux := True\<rparr>\<rparr>)"
    using assms(1) by (auto simp: client_ok_def client_new_def conn_new_def conn_ok_def idle_def slave_start_def)
  moreover have "c_released (cl_conn ?c)" "c_fds (cl_conn ?c) = F" "\<not> client_status ?c"
    by (simp_all add: client_new_def conn_new_def client_status_def)
  ultimately show ?thesis
    using slave_connect_ok [of h F ?c k cfg req] assms(2,3) by (simp add: slave_tick_def)
qed

lemma slave_reached:
  assumes "cgood h F c" "\<not> client_status c" "attempt_law fits (c_fds (cl_conn c)) k" "rc_id cfg \<noteq> []"
    and "at_resolve k (rc_host cfg) (rc_port cfg) = Inr a" "a \<noteq> []" "dl_socket (at_dial k) = Inr d"
    and "dl_connect (at_dial k) = None" "at_keepalive k = Inr ()" "takes (at_net k)" "req \<noteq> []"
  defines "c' \<equiv> slave_tick M h cfg req k c"
  shows "client_status c' \<and> flowing (cl_conn c') \<and> cl_socket c' = Some d \<and> pending (cl_conn c') = c_sent (cl_conn c) @ req"
proof -
  have c: "c_released (cl_conn c)" "\<not> cl_progress c"
    using assms(1,2) by (simp_all add: client_status_def client_ok_def)
  have d: "d \<notin> c_fds (cl_conn c)" "fits d"
    using assms(3,7) by (simp_all add: attempt_law_def)
  obtain l where l: "dl_after (at_dial k) = Inr l"
    using assms(3) by (cases "dl_after (at_dial k)") (auto simp: attempt_law_def)
  let ?s = "(cl_conn c)\<lparr>c_fds := insert d (c_fds (cl_conn c))\<rparr>"
  obtain s where s: "assign M h d l a ?s = (Inr (), s)" "c_freed s = c_freed ?s" "\<not> c_released s" "flowing s"
    "c_rd s = d" "pending s = c_sent (cl_conn c)" "cgood h F (c\<lparr>cl_conn := s, cl_socket := Some d\<rparr>)" "c_wbuf s = []"
    using connected_ok [OF assms(1) c(1) d refl, of l a] by metis
  let ?c2 = "c\<lparr>cl_address := a, cl_bind := [], cl_buffers := [], cl_conn := s, cl_socket := Some d, cl_progress := False\<rparr>"
  have "client_connect M h (at_dial k) a [] c = (Inr True, ?c2)"
    using assms(3,6-8) c s(1,2) l
    by (simp add: client_connect_def lift_res_def op_defs client_status_def attempt_law_def inet_connect_def
        on_client_def conn_to_client_def)
  then have conn: "mux_client_connect M h (at_resolve k) (at_dial k) (rc_host cfg) (rc_port cfg) c = (Inr True, ?c2)"
    using assms(2,5) c by (simp add: mux_client_connect_def give_up_connect_def release_twice_def lift_res_def op_defs)
  have "good h s" using s(7) by (simp add: client_ok_def)
  then obtain r s' where s': "mux_write_data M h (at_net k) req s = (Inr r, s')" "frame ok wants fits h s s'" "flowing s'"
    "pending s' = pending s @ req" "\<not> c_released s'"
    using write_taken s(4) assms(10,11) by metis
  have fr: "c_freed s' = c_freed s" using s'(2,5) by (simp add: frame_def)
  have "c' = (set_nonblock True False ?c2)\<lparr>cl_conn := s'\<rparr>"
    unfolding c'_def slave_tick_def slave_connect_start [OF c] client_ok_mux [OF assms(1)]
    using assms(2,4,9) conn s'(1) fr
    by (simp add: op_defs keepalive_def client_write_data_def on_client_def conn_to_client_def set_nonblock_def)
  then show ?thesis
    using s'(3-5) s(6) by (simp add: client_status_def set_nonblock_def)
qed

end

section \<open>What holds of every slave\<close>

lemma slave_run:
  assumes "imux_laws M ok wants fits" and "slave_start ok wants h F m" and "rc_id cfg \<noteq> []"
    and "slave_history fits M h cfg req (Tick k # xs) (client_new (conn_new j j' False m F))"
  shows "client_ok ok wants fits h F (slave_happens M h cfg req (Tick k # xs) (client_new (conn_new j j' False m F)))"
proof -
  let ?c0 = "client_new (conn_new j j' False m F)"
  have "c_fds (cl_conn ?c0) = F" by (simp add: client_new_def conn_new_def)
  then have law: "attempt_law fits F k" "slave_history fits M h cfg req xs (slave_tick M h cfg req k ?c0)"
    using assms(4) by (simp_all add: slave_law_def slave_happen_def)
  have "client_ok ok wants fits h F (slave_tick M h cfg req k ?c0)"
    by (rule imux_laws.slave_start_ok [OF assms(1,2) law(1) assms(3)])
  then show ?thesis
    using imux_laws.slave_happens_ok [OF assms(1) _ law(2)] by (simp add: slave_happen_def)
qed

text \<open>A slave under a \<open>selector\<close>: its first attempt is refused, the second succeeds, the connection breaks.\<close>

definition example_config :: replication_config where
  "example_config = \<lparr>rc_id = ''slave'', rc_host = ''master'', rc_port = 22501\<rparr>"

definition example_attempt :: "errno option \<Rightarrow> attempt" where
  "example_attempt e = \<lparr>at_dial = \<lparr>dl_socket = Inr 7, dl_before = Inr (), dl_connect = e, dl_after = Inr []\<rparr>,
     at_resolve = (\<lambda>_ _. Inr ''address''), at_keepalive = Inr (), at_check = Inr True,
     at_sockname = Inr [], at_peername = Inr [], at_nets = (\<lambda>_ n. Ret n), at_net = (\<lambda>n. Ret n)\<rparr>"

definition example_slave :: "selector client" where
  "example_slave = slave_happens selector_mux 1 example_config ''rep_setstate''
     [Tick (example_attempt (Some (Eother 111))), Tick (example_attempt None), Slave_event Broken]
     (client_new (conn_new 0 0 False selector_new {0}))"

lemma example_attempt_law: "e \<noteq> Some EINPROGRESS \<Longrightarrow> attempt_law (\<lambda>d. d < FD_SETSIZE) {0} (example_attempt e)"
  by (simp add: attempt_law_def example_attempt_def FD_SETSIZE_def write_law_def)

lemma example_slave_start: "slave_start sl_ok sl_wants 1 {0} selector_new"
  by (simp add: slave_start_def selector_new_def sl_ok_def sl_wants_def)

lemma example_slave_fds:
  "c_fds (cl_conn (slave_happen selector_mux 1 example_config ''rep_setstate'' (Tick (example_attempt (Some (Eother 111))))
     (client_new (conn_new 0 0 False selector_new {0})))) = {0}"
  by code_simp

lemma example_slave_end:
  "c_fds (cl_conn example_slave) = {0} \<and> \<not> client_status example_slave \<and> c_sent (cl_conn example_slave) = ''rep_setstate''"
  by code_simp



text \<open>
  C22. A slave that has lost its master finds it again. Whatever has happened before, when the slave is not
  connected and the master accepts the next attempt, then after it the slave is connected, it is
  told of what the master sends, and the request that announces the slave is the first thing it sends, all
  of it sent or in the buffer.\<close>

theorem slave_reconnects:
  assumes "imux_laws M ok wants fits" and "slave_start ok wants h F m" and "rc_id cfg \<noteq> []"
    and "slave_history fits M h cfg req (Tick k0 # xs) (client_new (conn_new j j' False m F))"
    and "c = slave_happens M h cfg req (Tick k0 # xs) (client_new (conn_new j j' False m F))"
    and "\<not> client_status c" and "attempt_law fits (c_fds (cl_conn c)) k"
    and "at_resolve k (rc_host cfg) (rc_port cfg) = Inr a" and "a \<noteq> []" and "dl_socket (at_dial k) = Inr d"
    and "dl_connect (at_dial k) = None" and "at_keepalive k = Inr ()" and "takes (at_net k)" and "req \<noteq> []"
    and "c' = slave_tick M h cfg req k c"
  shows "client_status c' \<and> cl_socket c' = Some d \<and> wants (c_mx (cl_conn c')) Ev_read d = Some h
    \<and> c_sent (cl_conn c') @ c_wbuf (cl_conn c') = c_sent (cl_conn c) @ req"
proof -
  have c: "client_ok ok wants fits h F c"
    unfolding assms(5) by (rule slave_run [OF assms(1-4)])
  have c': "client_status c'" "flowing (cl_conn c')" "cl_socket c' = Some d" "pending (cl_conn c') = c_sent (cl_conn c) @ req"
    using imux_laws.slave_reached [OF assms(1) c assms(6,7,3,8-14)] assms(15) by blast+
  have "client_ok ok wants fits h F (slave_happen M h cfg req (Tick k) c)"
    by (rule imux_laws.slave_happen_ok [OF assms(1) c]) (simp add: slave_law_def assms(7))
  then have "client_ok ok wants fits h F c'"
    using assms(15) by (simp add: slave_happen_def)
  then have "wants (c_mx (cl_conn c')) Ev_read d = Some h"
    using c'(2,3) by (auto simp: client_ok_def conn_ok_def idle_def registered_def flowing_def split: if_splits)
  then show ?thesis
    using c' by (simp add: pending_def)
qed

theorem slave_reconnects_witness:
  "cl_socket (slave_tick selector_mux 1 example_config ''rep_setstate'' (example_attempt None) example_slave) = Some 7"
proof -
  have "slave_history (\<lambda>d. d < FD_SETSIZE) selector_mux 1 example_config ''rep_setstate''
    [Tick (example_attempt (Some (Eother 111))), Tick (example_attempt None), Slave_event Broken]
    (client_new (conn_new 0 0 False selector_new {0}))"
    using example_attempt_law [of "Some (Eother 111)"] example_attempt_law [of None] example_slave_fds
    by (simp add: slave_law_def EINPROGRESS_def client_new_def conn_new_def)
  from slave_reconnects [OF sel.imux_laws_axioms example_slave_start _ this example_slave_def, of "example_attempt None" "''address''" 7]
  show ?thesis
    using example_attempt_law [of None] example_slave_end
    by (simp add: example_config_def example_attempt_def takes_def)
qed

end
