(* ===== verification/Session.thy ===== *)
theory Session
  imports Connection_Runs Multiserver
begin

text \<open>
  A connection to the port for slaves, \<open>rserver_tcp\<close> of \<open>src/daemon.cpp\<close>, from the bytes that arrive to
  the bytes that are sent. The aspect \<open>json_aspect\<close> of \<open>src/fas_methods.hpp\<close> puts the parts together: the
  reader of the connection calls the splitter (\<open>rn_reader_advice\<close>), the splitter calls \<open>ad_invoke\<close>, the
  methods write their answers with \<open>ad_rn_writer\<close> to the same connection, errors are answered and end
  the connection (\<open>common/aspect/json_aspect.hpp\<close>), and a release clears the splitter and \<open>ad_invoke\<close>.

  The state of the connection is extended by the buffer of the splitter and the state of \<open>ad_invoke\<close>, so
  every operation of \<open>Connection\<close> is used as it is. How many bytes the socket takes is given for each
  write of a block (\<open>l_room\<close>), 0 when it is full. A socket that fails for good is treated in
  \<open>Connection_Runs\<close>.
\<close>

section \<open>Model\<close>

record ('m, 'w) link = "'m conn" +
  l_split :: string
  l_rpc :: "'w rpc"
  l_room :: "nat list"

definition room :: "nat list \<Rightarrow> nat \<Rightarrow> sysret" where
  "room ks n = (case ks of [] \<Rightarrow> Fail EAGAIN | k # _ \<Rightarrow> if k = 0 then Fail EAGAIN else Ret (min k n))"

definition link_put :: "'m imux \<Rightarrow> nat \<Rightarrow> string \<Rightarrow> (('m, 'w, 'z) link_scheme, unit) op" where
  "link_put M h d s =
     seqS (mux_write_data M h (room (l_room s)) d) (upd (\<lambda>s. s\<lparr>l_room := tl (l_room s)\<rparr>)) s"

text \<open>\<open>ad_rn_writer\<close>\<close>

definition link_write :: "'m imux \<Rightarrow> nat \<Rightarrow> string \<Rightarrow> (('m, 'w, 'z) link_scheme, unit) op" where
  "link_write M h d = link_put M h (rn_write d)"

fun link_writes :: "'m imux \<Rightarrow> nat \<Rightarrow> string list \<Rightarrow> (('m, 'w, 'z) link_scheme, unit) op" where
  "link_writes M h [] = ret ()"
| "link_writes M h (d # ds) = seqS (link_write M h d) (link_writes M h ds)"

text \<open>The advices that are called with an error: \<open>ad_invalid_json\<close>, \<open>ad_unknown_method\<close>, and stubs.\<close>

definition error_text :: "rpc_event \<Rightarrow> string option" where
  "error_text e = (case e of
     Invalid_json_event _ \<Rightarrow> Some ad_invalid_json | Unknown_method_event _ \<Rightarrow> Some ad_unknown_method | _ \<Rightarrow> None)"

definition link_error :: "'m imux \<Rightarrow> nat \<Rightarrow> string \<Rightarrow> (('m, 'w, 'z) link_scheme, unit) op" where
  "link_error M h d =
     seqS (upd (\<lambda>s. s\<lparr>l_rpc := (l_rpc s)\<lparr>in_ids := remove1 0 (in_ids (l_rpc s))\<rparr>\<rparr>))
       (seqS (link_write M h d) (seqS (release M) (ret ())))"

fun link_errors :: "'m imux \<Rightarrow> nat \<Rightarrow> rpc_event list \<Rightarrow> (('m, 'w, 'z) link_scheme, unit) op" where
  "link_errors M h [] = ret ()"
| "link_errors M h (e # es) =
     seqS (case error_text e of Some d \<Rightarrow> link_error M h d | None \<Rightarrow> ret ()) (link_errors M h es)"

text \<open>
  A message. An error ends the batch, so the answers of the requests before it are written first.
\<close>

definition link_receive :: "'m imux \<Rightarrow> nat \<Rightarrow> 'w meth list \<Rightarrow> string \<Rightarrow> (('m, 'w, 'z) link_scheme, unit) op" where
  "link_receive M h ms m s =
     (case ad_invoke ms m ((l_rpc s)\<lparr>sent := [], events := []\<rparr>) of
        Inl (e, c) \<Rightarrow> seqS (upd (\<lambda>s. s\<lparr>l_rpc := c\<rparr>)) (seqS (link_writes M h (sent c)) (raise e)) s
      | Inr (_, c) \<Rightarrow>
          seqS (upd (\<lambda>s. s\<lparr>l_rpc := c\<rparr>)) (seqS (link_writes M h (sent c)) (link_errors M h (events c))) s)"

text \<open>What the splitter calls (\<open>receive\<close> handles a message); an exception leaves the splitter, and the release that follows clears it.\<close>

definition link_receiver ::
  "(string \<Rightarrow> (('m, 'w, 'z) link_scheme, unit) op) \<Rightarrow> (('m, 'w, 'z) link_scheme \<times> exn option) receiver" where
  "link_receiver receive m = (\<lambda>(s, ex). case receive m s of
     (Inl e, s) \<Rightarrow> ((s, Some e), True) | (Inr _, s) \<Rightarrow> ((s, None), c_released s))"

definition link_on_read ::
  "(string \<Rightarrow> (('m, 'w, 'z) link_scheme, unit) op) \<Rightarrow> string \<Rightarrow> (('m, 'w, 'z) link_scheme, unit) op" where
  "link_on_read receive d s =
     (case splitter (link_receiver receive) (l_split s) d (s, None) of
        (buf, (s, ex)) \<Rightarrow> (case ex of Some e \<Rightarrow> Inl e | None \<Rightarrow> Inr (), s\<lparr>l_split := buf\<rparr>))"

text \<open>
  The cleaners, which a release calls: those of the splitter, of \<open>ad_invoke\<close> and of the methods (\<open>clr\<close>). No
  other message of the block is read after a release, so they run at the end of the event.
\<close>

definition link_clear :: "('w rpc \<Rightarrow> 'w rpc) \<Rightarrow> ('m, 'w, 'z) link_scheme \<Rightarrow> ('m, 'w, 'z) link_scheme" where
  "link_clear clr s = (if c_released s then s\<lparr>l_split := [], l_rpc := clr (clear_invoke (l_rpc s))\<rparr> else s)"

text \<open>
  What the multiplexer reports: a block has arrived, with the room for the answers to it; there is room for
  some bytes; the peer has closed.
\<close>

datatype link_event = Block string "nat list" | Room nat | Hangup

definition link_happen ::
  "'m imux \<Rightarrow> nat \<Rightarrow> 'w meth list \<Rightarrow> ('w rpc \<Rightarrow> 'w rpc) \<Rightarrow> link_event \<Rightarrow> ('m, 'w, 'z) link_scheme \<Rightarrow> ('m, 'w, 'z) link_scheme" where
  "link_happen M h ms clr x s = (case x of
     Block d ks \<Rightarrow>
       if c_mux_read s
       then link_clear clr (snd (ready_read M (link_on_read (link_receive M h ms)) (Data d) (c_rd s) (s\<lparr>l_room := ks\<rparr>))) else s
   | Room k \<Rightarrow> if c_mux_write s then link_clear clr (snd (ready_write M h (room [k]) (c_wd s) s)) else s
   | Hangup \<Rightarrow> if c_mux_read s
       then link_clear clr (snd (ready_read M (link_on_read (link_receive M h ms)) (Data []) (c_rd s) s)) else s)"

fun link_happens ::
  "'m imux \<Rightarrow> nat \<Rightarrow> 'w meth list \<Rightarrow> ('w rpc \<Rightarrow> 'w rpc) \<Rightarrow> link_event list \<Rightarrow> ('m, 'w, 'z) link_scheme \<Rightarrow> ('m, 'w, 'z) link_scheme" where
  "link_happens M h ms clr [] s = s"
| "link_happens M h ms clr (x # xs) s = link_happens M h ms clr xs (link_happen M h ms clr x s)"

text \<open>A descriptor is assigned to the connection, which clears what an earlier session left.\<close>

definition link_assign ::
  "'m imux \<Rightarrow> nat \<Rightarrow> ('w rpc \<Rightarrow> 'w rpc) \<Rightarrow> nat \<Rightarrow> string \<Rightarrow> string \<Rightarrow> ('m, 'w, 'z) link_scheme \<Rightarrow> ('m, 'w, 'z) link_scheme" where
  "link_assign M h clr d l a s =
     (snd (assign M h d l a s))\<lparr>l_split := [], l_rpc := clr (clear_invoke (l_rpc s))\<rparr>"

end
