(* ===== verification/Session_Laws.thy ===== *)
theory Session_Laws
  imports Session
begin

text \<open>
  What a session on the port for slaves promises its client: the answers to the messages of the stream,
  each once and in order, however the stream and the output are cut; and when a message is no request, an
  answer that says so before the connection is closed.
\<close>

section \<open>Specification\<close>

text \<open>
  The answers to a list of messages, the state of the methods behind them, and whether one of the messages
  ended the session; then the messages behind it are not answered.
\<close>

fun replies :: "'w meth list \<Rightarrow> string list \<Rightarrow> 'w rpc \<Rightarrow> string list \<times> 'w rpc \<times> bool" where
  "replies ms [] c = ([], c, False)"
| "replies ms (m # fs) c = (case ad_invoke ms m (c\<lparr>sent := [], events := []\<rparr>) of
     Inl (e, c) \<Rightarrow> (sent c, c, True)
   | Inr (_, c) \<Rightarrow> (case List.map_filter error_text (events c) of
       d # _ \<Rightarrow> (sent c @ [d], c, True)
     | [] \<Rightarrow> (case replies ms fs c of (xs, c', bad) \<Rightarrow> (sent c @ xs, c', bad))))"

abbreviation wire :: "string list \<Rightarrow> string" where
  "wire xs \<equiv> concat (map rn_write xs)"

section \<open>The operations of the connection leave the rest of the session alone\<close>

definition rest :: "('m, 'w, 'z) link_scheme \<Rightarrow> string \<times> 'w rpc \<times> nat list \<times> 'z" where
  "rest s = (l_split s, l_rpc s, l_room s, link.more s)"

lemma rest_fields [simp]:
  "rest (s\<lparr>c_rd := d\<rparr>) = rest s" "rest (s\<lparr>c_rstatus := b\<rparr>) = rest s" "rest (s\<lparr>c_wd := d\<rparr>) = rest s"
  "rest (s\<lparr>c_wstatus := b\<rparr>) = rest s" "rest (s\<lparr>c_rbuf := x\<rparr>) = rest s" "rest (s\<lparr>c_rlock := b\<rparr>) = rest s"
  "rest (s\<lparr>c_rclear := b\<rparr>) = rest s" "rest (s\<lparr>c_wbuf := x\<rparr>) = rest s" "rest (s\<lparr>c_sent := x\<rparr>) = rest s"
  "rest (s\<lparr>c_swh_count := n\<rparr>) = rest s" "rest (s\<lparr>c_recursive := n\<rparr>) = rest s" "rest (s\<lparr>c_mux_read := b\<rparr>) = rest s"
  "rest (s\<lparr>c_mux_write := b\<rparr>) = rest s" "rest (s\<lparr>c_mux_urgent := b\<rparr>) = rest s" "rest (s\<lparr>c_released := b\<rparr>) = rest s"
  "rest (s\<lparr>c_releasing := b\<rparr>) = rest s" "rest (s\<lparr>c_closed := b\<rparr>) = rest s" "rest (s\<lparr>c_mx := m\<rparr>) = rest s"
  "rest (s\<lparr>c_fds := F\<rparr>) = rest s" "rest (s\<lparr>c_freed := n\<rparr>) = rest s" "rest (s\<lparr>c_local := x\<rparr>) = rest s"
  "rest (s\<lparr>c_remote := x\<rparr>) = rest s"
  by (simp_all add: rest_def)

lemma rest_op [simp]:
  "rest (snd (ret x s)) = rest s" "rest (snd (raise e s)) = rest s" "rest (snd (upd f s)) = rest (f s)"
  by (simp_all add: op_defs)

lemma rest_bind [simp]:
  assumes "rest (snd (f s)) = rest s" and "\<And>x t. rest (snd (g x t)) = rest t"
  shows "rest (snd (bindS f g s)) = rest s"
  using assms by (auto simp: bindS_def split: prod.splits sum.splits)

lemma rest_catch [simp]:
  assumes "rest (snd (f s)) = rest s" and "\<And>e t. rest (snd (g e t)) = rest t"
  shows "rest (snd (catchS f g s)) = rest s"
  using assms by (auto simp: catchS_def split: prod.splits sum.splits)

lemma rest_on_mux [simp]: "rest (snd (on_mux f s)) = rest s"
  by (simp add: on_mux_def split: prod.splits sum.splits)

lemma rest_inet_close [simp]: "rest (snd (inet_close M d s)) = rest s"
  by (simp add: inet_close_def)

lemma rest_handlers [simp]:
  "rest (snd (set_write_handler M h s)) = rest s" "rest (snd (reset_write_handler M b s)) = rest s"
  "rest (snd (reset_urgent_handler M s)) = rest s" "rest (snd (stop_reading M s)) = rest s"
  "rest (snd (stop_writing M s)) = rest s"
  by (simp_all add: set_write_handler_def reset_write_handler_def reset_urgent_handler_def stop_reading_def stop_writing_def)

lemma rest_filter_release [simp]: "rest (filter_release s) = rest s"
  by (simp add: filter_release_def wclear_def rclear_def)

lemma rest_release_parts [simp]:
  "rest (snd (mux_filter_release M s)) = rest s" "rest (snd (connection_close M s)) = rest s"
  by (simp_all add: mux_filter_release_def connection_close_def)

lemma rest_release [simp]: "rest (snd (release M s)) = rest s"
  by (simp add: release_def mux_connection_release_def)

lemma rest_after_write [simp]:
  "rest (snd (set_write_handler_if_ready M h s)) = rest s" "rest (snd (release_if_wclosed M s)) = rest s"
  "rest (snd (release_if_rclosed M s)) = rest s" "rest (snd (ad_exception M e s)) = rest s"
  by (simp_all add: set_write_handler_if_ready_def release_if_wclosed_def release_if_rclosed_def ad_exception_def)

lemma rest_buffers [simp]: "rest (snd (buf_write net d s)) = rest s" "rest (snd (buf_flush net s)) = rest s"
  by (simp_all add: buf_write_def buf_flush_def binary_write_def ad_file_write_def Let_def split: sum.splits)

lemma rest_write [simp]: "rest (snd (mux_write_data M h net d s)) = rest s" "rest (snd (mux_write M h net s)) = rest s"
  by (simp_all add: mux_write_data_def mux_write_def)

section \<open>Messages\<close>

lemma room_law: "write_law (room ks)"
  by (auto simp: room_def write_law_def split: list.splits if_splits)

lemma room_never_fails: "\<not> isl (system_write (room ks n))"
  by (cases ks) (simp_all add: room_def system_write_def failed_def)

lemma room_writes: "0 < n \<Longrightarrow> \<exists>rt. system_write (room ks n) = Inr rt \<and> rt \<noteq> 0"
  by (auto simp: room_def system_write_def failed_def min_def split: list.splits)

lemma link_updates [simp]:
  "pending (s\<lparr>l_split := b\<rparr>) = pending s" "pending (s\<lparr>l_rpc := c\<rparr>) = pending s" "pending (s\<lparr>l_room := k\<rparr>) = pending s"
  "flowing (s\<lparr>l_split := b\<rparr>) = flowing s" "flowing (s\<lparr>l_rpc := c\<rparr>) = flowing s" "flowing (s\<lparr>l_room := k\<rparr>) = flowing s"
  "ending (s\<lparr>l_split := b\<rparr>) = ending s" "ending (s\<lparr>l_rpc := c\<rparr>) = ending s" "ending (s\<lparr>l_room := k\<rparr>) = ending s"
  "conn_ok ok wants fit h (s\<lparr>l_split := b\<rparr>) = conn_ok ok wants fit h s"
  "conn_ok ok wants fit h (s\<lparr>l_rpc := c\<rparr>) = conn_ok ok wants fit h s"
  "conn_ok ok wants fit h (s\<lparr>l_room := k\<rparr>) = conn_ok ok wants fit h s"
  by (simp_all add: pending_def conn_ok_def idle_def registered_def conn_defs)

lemma link_frames [simp]:
  "frame ok wants fit h t (s\<lparr>l_split := b\<rparr>) = frame ok wants fit h t s"
  "frame ok wants fit h t (s\<lparr>l_rpc := c\<rparr>) = frame ok wants fit h t s"
  "frame ok wants fit h t (s\<lparr>l_room := k\<rparr>) = frame ok wants fit h t s"
  "frame ok wants fit h (s\<lparr>l_split := b\<rparr>) t = frame ok wants fit h s t"
  "frame ok wants fit h (s\<lparr>l_rpc := c\<rparr>) t = frame ok wants fit h s t"
  "frame ok wants fit h (s\<lparr>l_room := k\<rparr>) t = frame ok wants fit h s t"
  "emits x t r (s\<lparr>l_split := b\<rparr>) = emits x t r s" "emits x t r (s\<lparr>l_rpc := c\<rparr>) = emits x t r s"
  "emits x t r (s\<lparr>l_room := k\<rparr>) = emits x t r s" "emits x (s\<lparr>l_split := b\<rparr>) r t = emits x s r t"
  "emits x (s\<lparr>l_rpc := c\<rparr>) r t = emits x s r t" "emits x (s\<lparr>l_room := k\<rparr>) r t = emits x s r t"
  by (simp_all add: frame_def emits_def)

lemma emits_quiet: "\<not> flowing s \<Longrightarrow> emits x s r s' \<Longrightarrow> emits y s r' s'"
  unfolding emits_def by (auto intro: prefix_order.trans)

text \<open>A client that sends and receives and does not hang up, and what it sends.\<close>

fun steady :: "link_event \<Rightarrow> bool" where
  "steady (Block d ks) \<longleftrightarrow> d \<noteq> []" | "steady (Room k) \<longleftrightarrow> True" | "steady Hangup \<longleftrightarrow> False"

fun link_data :: "link_event \<Rightarrow> string" where
  "link_data (Block d ks) = d" | "link_data (Room k) = []" | "link_data Hangup = []"

lemma replies_append:
  "replies ms (fs @ gs) c = (case replies ms fs c of (xs, c', bad) \<Rightarrow>
     if bad then (xs, c', True) else case replies ms gs c' of (ys, c'', bad') \<Rightarrow> (xs @ ys, c'', bad'))"
  by (induction fs arbitrary: c) (auto split: sum.splits list.splits prod.splits)

lemma link_happens_append: "link_happens M h ms clr (xs @ ys) s = link_happens M h ms clr ys (link_happens M h ms clr xs s)"
  by (induction xs arbitrary: s) simp_all

text \<open>What ends a session: everything is sent, or waits for a connection that is about to end.\<close>

definition winding :: "string \<Rightarrow> ('m, 'z) conn_scheme \<Rightarrow> bool" where
  "winding x s \<longleftrightarrow> c_released s \<and> c_sent s = x \<or> \<not> c_released s \<and> ending s \<and> c_wstatus s \<and> pending s = x"

text \<open>What a message does to a session that is in use: \<open>r\<close> is what \<open>ad_invoke\<close> made of it.\<close>

definition received :: "(unit, 'w) rpc_result \<Rightarrow> ('m, 'w, 'z) link_scheme \<Rightarrow> unit res \<Rightarrow> ('m, 'w, 'z) link_scheme \<Rightarrow> bool" where
  "received r s q s' \<longleftrightarrow> (case r of
     Inl (e, c) \<Rightarrow> q = Inl e \<and> emits (wire (sent c)) s True s'
   | Inr (_, c) \<Rightarrow> q = Inr () \<and> (case List.map_filter error_text (events c) of
       [] \<Rightarrow> emits (wire (sent c)) s True s' \<and> l_rpc s' = c \<and> (flowing s \<longrightarrow> flowing s')
     | d # ds \<Rightarrow> emits (wire (sent c @ [d])) s True s' \<and> \<not> flowing s'
         \<and> (flowing s \<longrightarrow> ds = [] \<longrightarrow> winding (pending s @ wire (sent c @ [d])) s')))"

lemma run_frames_link:
  "run_frames (link_receiver receive) (m # fs) (s, None) = (case receive m s of
     (Inl e, t) \<Rightarrow> ((t, Some e), True)
   | (Inr _, t) \<Rightarrow> if c_released t then ((t, None), True) else run_frames (link_receiver receive) fs (t, None))"
  by (auto simp: link_receiver_def [of receive m] split: prod.splits sum.splits)

lemma link_happen_block:
  "flowing s \<Longrightarrow> link_happen M h ms clr (Block d ks) s =
     link_clear clr (snd (ready_read M (link_on_read (link_receive M h ms)) (Data d) (c_rd s) (s\<lparr>l_room := ks\<rparr>)))"
  by (simp add: link_happen_def flowing_def)

lemma received_emits:
  assumes "received r s q s'"
  shows "\<exists>x. emits x s True s'"
proof (cases r)
  case (Inl x)
  then show ?thesis using assms by (cases x) (auto simp: received_def)
next
  case (Inr x)
  then obtain c where "r = Inr ((), c)" by (cases x) auto
  then show ?thesis using assms by (cases "List.map_filter error_text (events c)") (auto simp: received_def)
qed

text \<open>The state in which the reader is called, and the one after it.\<close>

definition entered :: "string \<Rightarrow> ('a, 'b, 'z) link_scheme \<Rightarrow> ('a, 'b, 'z) link_scheme" where
  "entered d s = (lock_buffer (s\<lparr>c_recursive := 1, c_rbuf := resize read_size (c_rbuf s)\<rparr>))
     \<lparr>c_rbuf := d @ drop (length d) (resize read_size (c_rbuf s))\<rparr>"

definition left_again :: "('a, 'b, 'z) link_scheme \<Rightarrow> ('a, 'b, 'z) link_scheme" where
  "left_again u = (unlock_buffer u)\<lparr>c_recursive := 0\<rparr>"

lemma entered_sel [simp]: "rest (entered d s) = rest s" "flowing (entered d s) = flowing s" "pending (entered d s) = pending s"
  by (simp_all add: entered_def lock_buffer_def flowing_def pending_def)

lemma left_again_sel [simp]:
  "rest (left_again u) = rest u" "flowing (left_again u) = flowing u" "winding x (left_again u) = winding x u"
  "c_released (left_again u) = c_released u"
  by (simp_all add: left_again_def unlock_buffer_def winding_def conn_defs pending_def)

context imux_laws
begin

lemma link_write_step:
  assumes "good h s"
  obtains s' where "link_write M h d s = (Inr (), s')" "frame ok wants fits h s s'" "emits (rn_write d) s True s'"
    "flowing s \<longrightarrow> flowing s'" "l_rpc s' = l_rpc s" "l_split s' = l_split s" "link.more s' = link.more s"
proof -
  let ?net = "room (l_room s)"
  obtain r t where t: "mux_write_data M h ?net (rn_write d) s = (r, t)" by force
  have step: "frame ok wants fits h s t" "emits (rn_write d) s (\<not> isl r) t" "\<not> isl r"
    using write_data_step [OF assms room_law t] room_never_fails [of "l_room s"]
    by (auto simp: isl_def)
  have "flowing t" if "flowing s"
    using write_kept [OF assms that _ room_law, of "rn_write d" "l_room s"] room_writes t by (auto simp: rn_write_def)
  moreover have "rest t = rest s"
    using rest_write(1) [of M h ?net "rn_write d" s] t by simp
  ultimately show ?thesis
    using step t that [of "t\<lparr>l_room := tl (l_room t)\<rparr>"]
    by (cases r) (simp_all add: link_write_def link_put_def op_defs rest_def)
qed

lemma link_writes_step:
  assumes "good h s"
  obtains s' where "link_writes M h ds s = (Inr (), s')" "frame ok wants fits h s s'" "emits (wire ds) s True s'"
    "flowing s \<longrightarrow> flowing s'" "l_rpc s' = l_rpc s" "l_split s' = l_split s" "link.more s' = link.more s"
  using assms
proof (induction ds arbitrary: s thesis)
  case Nil
  then show ?case by (simp add: ret_def frame_refl emits_refl)
next
  case (Cons d ds)
  obtain t where t: "link_write M h d s = (Inr (), t)" "frame ok wants fits h s t" "emits (rn_write d) s True t"
    "flowing s \<longrightarrow> flowing t" "l_rpc t = l_rpc s" "l_split t = l_split s" "link.more t = link.more s"
    using link_write_step [OF Cons.prems(2)] by metis
  obtain s' where s': "link_writes M h ds t = (Inr (), s')" "frame ok wants fits h t s'" "emits (wire ds) t True s'"
    "flowing t \<longrightarrow> flowing s'" "l_rpc s' = l_rpc t" "l_split s' = l_split t" "link.more s' = link.more t"
    using Cons.IH [OF _ frame_good [OF t(2)]] by metis
  show ?case
    using Cons.prems(1) [of s'] t s' frame_trans [OF t(2) s'(2)] emits_trans [OF t(3) s'(3)] by (simp add: op_defs)
qed

lemma release_winds:
  assumes "good h s"
  obtains b s' where "release M s = (Inr b, s')" "frame ok wants fits h s s'" "emits [] s True s'" "\<not> flowing s'"
    "flowing s \<longrightarrow> winding (pending s) s'"
proof -
  obtain b s' where s': "release M s = (Inr b, s')" "frame ok wants fits h s s'" "emits [] s True s'" "\<not> flowing s'"
    using release_step [OF assms] by metis
  moreover have "winding (pending s) s'" if "flowing s"
  proof -
    have s: "reg h s" "is_open s" "c_wbuf s \<noteq> [] \<longrightarrow> c_mux_write s" "\<not> c_releasing s" "c_wstatus s"
      using assms that by (auto simp: conn_ok_def idle_def conn_defs)
    have "c_sent s' = c_sent s" "\<not> c_released s' \<longrightarrow> ending s' \<and> c_wbuf s' = c_wbuf s \<and> c_wstatus s' = c_wstatus s"
      "c_released s' \<longleftrightarrow> c_releasing s \<or> \<not> c_mux_write s \<or> c_wbuf s = []"
      using release_any [OF s(1,2)] s'(1) by (metis prod.inject)+
    then show ?thesis
      using s(3-5) by (auto simp: winding_def pending_def)
  qed
  ultimately show ?thesis using that by blast
qed

lemma link_error_step:
  assumes "good h s"
  obtains s' where "link_error M h d s = (Inr (), s')" "frame ok wants fits h s s'" "emits (rn_write d) s True s'"
    "\<not> flowing s'" "flowing s \<longrightarrow> winding (pending s @ rn_write d) s'" "l_split s' = l_split s"
proof -
  let ?s = "s\<lparr>l_rpc := (l_rpc s)\<lparr>in_ids := remove1 0 (in_ids (l_rpc s))\<rparr>\<rparr>"
  obtain t where t: "link_write M h d ?s = (Inr (), t)" "frame ok wants fits h ?s t" "emits (rn_write d) ?s True t"
    "flowing ?s \<longrightarrow> flowing t" "l_split t = l_split ?s"
    using link_write_step [of h ?s] assms by (metis link_updates(11))
  obtain b s' where s': "release M t = (Inr b, s')" "frame ok wants fits h t s'" "emits [] t True s'" "\<not> flowing s'"
    "flowing t \<longrightarrow> winding (pending t) s'"
    using release_winds [OF frame_good [OF t(2)]] by metis
  have "rest s' = rest t" using rest_release [of M t] s'(1) by simp
  moreover have "pending t = pending s @ rn_write d" if "flowing s"
    using t(3,4) that by (simp add: emits_def)
  ultimately show ?thesis
    using that [of s'] t s' frame_trans [OF t(2) s'(2)] emits_trans [OF t(3) s'(3)]
    by (cases "flowing s") (simp_all add: link_error_def op_defs rest_def)
qed

lemma link_errors_step:
  assumes "good h s"
  obtains s' where "link_errors M h es s = (Inr (), s')" "frame ok wants fits h s s'" "l_split s' = l_split s"
    "emits (wire (take 1 (List.map_filter error_text es))) s True s'"
    "if List.map_filter error_text es = [] then s' = s else \<not> flowing s'"
    "\<forall>d. flowing s \<longrightarrow> List.map_filter error_text es = [d] \<longrightarrow> winding (pending s @ rn_write d) s'"
  using assms
proof (induction es arbitrary: s thesis)
  case Nil
  then show ?case by (simp add: ret_def frame_refl emits_refl map_filter_simps)
next
  case (Cons e es)
  show ?case
  proof (cases "error_text e")
    case None
    show ?thesis
      by (rule Cons.IH [OF Cons.prems(1) Cons.prems(2)]) (simp_all add: None op_defs map_filter_simps)
  next
    case (Some d)
    obtain t where t: "link_error M h d s = (Inr (), t)" "frame ok wants fits h s t" "emits (rn_write d) s True t"
      "\<not> flowing t" "l_split t = l_split s" "flowing s \<longrightarrow> winding (pending s @ rn_write d) t"
      using link_error_step [OF Cons.prems(2)] by metis
    obtain s' where s': "link_errors M h es t = (Inr (), s')" "frame ok wants fits h t s'" "l_split s' = l_split t"
      "emits (wire (take 1 (List.map_filter error_text es))) t True s'"
      "if List.map_filter error_text es = [] then s' = t else \<not> flowing s'"
      using Cons.IH [OF _ frame_good [OF t(2)]] by metis
    have "emits [] t True s'" "\<not> flowing s'"
      using emits_quiet [OF t(4) s'(4)] t(4) s'(4) by (auto simp: emits_def)
    then show ?thesis
      using Cons.prems(1) [of s'] Some t s' frame_trans [OF t(2) s'(2)] emits_trans [OF t(3), of "[]" True s']
      by (simp add: op_defs map_filter_simps)
  qed
qed

text \<open>One message, for a session that is in use.\<close>

lemma link_receive_step:
  assumes "good h s" "ad_invoke ms m ((l_rpc s)\<lparr>sent := [], events := []\<rparr>) = r"
  obtains q s' where "link_receive M h ms m s = (q, s')" "frame ok wants fits h s s'" "l_split s' = l_split s"
    "received r s q s'"
proof (cases r)
  case (Inl x)
  obtain e c where ec: "x = (e, c)" by force
  obtain t where t: "link_writes M h (sent c) (s\<lparr>l_rpc := c\<rparr>) = (Inr (), t)" "frame ok wants fits h s t"
    "emits (wire (sent c)) s True t" "l_split t = l_split s"
    using link_writes_step [of h "s\<lparr>l_rpc := c\<rparr>" "sent c"] assms(1) by auto
  then show ?thesis
    using that [of "Inl e" t] assms(2) Inl ec by (simp add: link_receive_def op_defs received_def)
next
  case (Inr x)
  obtain u c where uc: "x = (u, c)" by (cases x)
  obtain t where t: "link_writes M h (sent c) (s\<lparr>l_rpc := c\<rparr>) = (Inr (), t)" "frame ok wants fits h s t"
    "emits (wire (sent c)) s True t" "l_split t = l_split s" "l_rpc t = c" "flowing s \<longrightarrow> flowing t"
    using link_writes_step [of h "s\<lparr>l_rpc := c\<rparr>" "sent c"] assms(1) by auto
  obtain s' where s': "link_errors M h (events c) t = (Inr (), s')" "frame ok wants fits h t s'" "l_split s' = l_split t"
    "emits (wire (take 1 (List.map_filter error_text (events c)))) t True s'"
    "if List.map_filter error_text (events c) = [] then s' = t else \<not> flowing s'"
    "\<forall>d. flowing t \<longrightarrow> List.map_filter error_text (events c) = [d] \<longrightarrow> winding (pending t @ rn_write d) s'"
    using link_errors_step [OF frame_good [OF t(2)], of "events c"] by metis
  have "pending t = pending s @ wire (sent c)" if "flowing s"
    using t(3,6) that by (simp add: emits_def)
  then have wd: "\<forall>d. flowing s \<longrightarrow> List.map_filter error_text (events c) = [d] \<longrightarrow> winding (pending s @ wire (sent c @ [d])) s'"
    using s'(6) t(6) by auto
  have rc: "if List.map_filter error_text (events c) = [] then l_rpc s' = c \<and> (flowing s \<longrightarrow> flowing s') else \<not> flowing s'"
    using s'(5) t(5,6) by (auto split: if_splits)
  have "link_receive M h ms m s = (Inr (), s')"
    using assms(2) Inr uc t(1) s'(1) by (simp add: link_receive_def op_defs)
  then show ?thesis
    using that [of "Inr ()" s'] Inr uc t(4) s'(3) frame_trans [OF t(2) s'(2)] emits_trans [OF t(3) s'(4)] rc wd
    by (cases "List.map_filter error_text (events c)") (simp_all add: received_def)
qed

lemma run_ended:
  assumes "good h s" "\<not> flowing s" "run_frames (link_receiver (link_receive M h ms)) fs (s, None) = ((s', ex), flag)"
  shows "frame ok wants fits h s s' \<and> l_split s' = l_split s \<and> emits [] s True s'"
  using assms
proof (induction fs arbitrary: s)
  case Nil
  then show ?case by (simp add: frame_refl emits_refl)
next
  case (Cons m fs)
  let ?r = "ad_invoke ms m ((l_rpc s)\<lparr>sent := [], events := []\<rparr>)"
  obtain q t where q: "link_receive M h ms m s = (q, t)" "frame ok wants fits h s t" "l_split t = l_split s" "received ?r s q t"
    by (rule link_receive_step [OF Cons.prems(1) refl])
  have t: "emits [] s True t" "\<not> flowing t"
    using received_emits [OF q(4)] emits_quiet [OF Cons.prems(2)] Cons.prems(2) by (auto simp: emits_def)
  show ?case
  proof (cases "isl q \<or> c_released t")
    case True
    then have "s' = t"
      using Cons.prems(3) q(1) by (cases q) (auto simp: run_frames_link simp del: run_frames.simps(2))
    then show ?thesis using q t by simp
  next
    case False
    then have "run_frames (link_receiver (link_receive M h ms)) fs (t, None) = ((s', ex), flag)"
      using Cons.prems(3) q(1) by (cases q) (auto simp: run_frames_link simp del: run_frames.simps(2))
    from Cons.IH [OF frame_good [OF q(2)] t(2) this] show ?thesis
      using q(2,3) t(1) frame_trans [OF q(2)] emits_trans [OF t(1), of "[]" True s'] by auto
  qed
qed

lemma run_messages:
  assumes "good h s" "flowing s" "run_frames (link_receiver (link_receive M h ms)) fs (s, None) = ((s', ex), flag)"
    "replies ms fs (l_rpc s) = (xs, c, bad)"
  shows "frame ok wants fits h s s' \<and> l_split s' = l_split s \<and> emits (wire xs) s True s'
    \<and> (if bad then ex \<noteq> None \<or> \<not> flowing s' else ex = None \<and> \<not> flag \<and> flowing s' \<and> l_rpc s' = c)"
  using assms
proof (induction fs arbitrary: s xs)
  case Nil
  then show ?case by (auto simp: frame_refl emits_refl)
next
  case (Cons m fs)
  let ?r = "ad_invoke ms m ((l_rpc s)\<lparr>sent := [], events := []\<rparr>)"
  obtain q t where q: "link_receive M h ms m s = (q, t)" "frame ok wants fits h s t" "l_split t = l_split s" "received ?r s q t"
    by (rule link_receive_step [OF Cons.prems(1) refl])
  show ?case
  proof (cases ?r)
    case (Inl x)
    then show ?thesis
      using q Cons.prems(3,4) by (cases x) (auto simp: run_frames_link received_def simp del: run_frames.simps(2))
  next
    case (Inr x)
    then obtain c' where r: "?r = Inr ((), c')" by (cases x) auto
    show ?thesis
    proof (cases "List.map_filter error_text (events c')")
      case Nil
      have t: "emits (wire (sent c')) s True t" "l_rpc t = c'" "flowing t" "q = Inr ()"
        using q(4) r Nil Cons.prems(2) by (simp_all add: received_def)
      obtain ys where ys: "replies ms fs (l_rpc t) = (ys, c, bad)" "xs = sent c' @ ys"
        using Cons.prems(4) r Nil t(2) by (auto split: prod.splits)
      have "\<not> c_released t"
        using released_empty [OF frame_good [OF q(2)]] t(3) by blast
      then have "run_frames (link_receiver (link_receive M h ms)) fs (t, None) = ((s', ex), flag)"
        using Cons.prems(3) q(1) t(4) by (simp add: run_frames_link del: run_frames.simps(2))
      from Cons.IH [OF frame_good [OF q(2)] t(3) this ys(1)] show ?thesis
        using q(3) frame_trans [OF q(2)] emits_trans [OF t(1)] ys(2) by auto
    next
      case (Cons d ds)
      have t: "emits (wire (sent c' @ [d])) s True t" "\<not> flowing t" "q = Inr ()" "xs = sent c' @ [d]" "bad"
        using q(4) r Cons Cons.prems(4) by (auto simp: received_def)
      show ?thesis
      proof (cases "c_released t")
        case True
        then have "s' = t"
          using Cons.prems(3) q(1) t(3) by (auto simp: run_frames_link simp del: run_frames.simps(2))
        then show ?thesis using q t by simp
      next
        case False
        then have "run_frames (link_receiver (link_receive M h ms)) fs (t, None) = ((s', ex), flag)"
          using Cons.prems(3) q(1) t(3) by (simp add: run_frames_link del: run_frames.simps(2))
        from run_ended [OF frame_good [OF q(2)] t(2) this] show ?thesis
          using q(2,3) t frame_trans [OF q(2)] emits_trans [OF t(1), of "[]" True s'] by (auto simp: emits_def [of "[]"])
      qed
    qed
  qed
qed

section \<open>Events\<close>

lemma read_block:
  assumes "c_recursive s = 0" "d \<noteq> []" "good h u" "c_recursive u = 1"
    and "on_read d ((lock_buffer (s\<lparr>c_recursive := 1, c_rbuf := resize read_size (c_rbuf s)\<rparr>))
          \<lparr>c_rbuf := d @ drop (length d) (resize read_size (c_rbuf s))\<rparr>) = (r, u)"
  shows "snd (ready_read M on_read (Data d) (c_rd s) s) =
    (let v = (unlock_buffer u)\<lparr>c_recursive := 0\<rparr> in case r of Inr _ \<Rightarrow> v | Inl e \<Rightarrow> snd (ad_exception M e v))"
proof -
  have "release_if_rclosed M (unlock_buffer u) = (Inr (), unlock_buffer u)"
    using assms(3) by (auto simp: release_if_rclosed_def conn_ok_def idle_def conn_defs unlock_buffer_def op_defs)
  then show ?thesis
    using assms(1,2,4,5)
    by (cases r) (simp_all add: ready_read_def guarded_def mux_read_def buf_read_def binary_read_def ad_file_read_def
        system_read_def op_defs lock_buffer_def unlock_buffer_def Let_def)
qed

lemma entered_rbuffered: "rbuffered (s\<lparr>c_recursive := 1\<rparr>) (entered d s)"
  unfolding rbuffered_def entered_def lock_buffer_def
  by (rule exI [of _ "d @ drop (length d) (resize read_size (c_rbuf s))"], rule exI [of _ True],
      rule exI [of _ "c_rclear s"]) simp

lemma block_step:
  assumes "good h s" "c_recursive s = 0" "d \<noteq> []" "on_read d (entered d s) = (r, u)"
    "frame ok wants fits h (entered d s) u" "emits x (entered d s) True u"
  defines "s' \<equiv> snd (ready_read M on_read (Data d) (c_rd s) s)"
  shows "frame ok wants fits h s s' \<and> emits x s True s' \<and> rest s' = rest u
    \<and> (case r of Inr _ \<Rightarrow> s' = left_again u | Inl _ \<Rightarrow> c_released s')"
proof -
  let ?s = "s\<lparr>c_recursive := 1\<rparr>"
  have g: "good h ?s" using assms(1) by (simp add: recursive_good)
  have "c_recursive u = 1"
    using assms(5) by (simp add: frame_def entered_def lock_buffer_def)
  then have s': "s' = (case r of Inr _ \<Rightarrow> left_again u | Inl e \<Rightarrow> snd (ad_exception M e (left_again u)))"
    using read_block [OF assms(2,3) frame_good [OF assms(5)], of on_read r] assms(4)
    by (cases r) (simp_all add: s'_def left_again_def entered_def Let_def)
  have "frame ok wants fits h ?s (unlock_buffer u)"
    using frame_trans [OF rbuffered_frame [OF entered_rbuffered g] assms(5)]
      rbuffered_frame [OF rbuffered_unlock frame_good [OF assms(5)]] frame_trans by blast
  then have fr: "frame ok wants fits h s (left_again u)"
    using recursive_frame [of h 1 s] assms(2) by (simp add: left_again_def)
  have "emits x ?s True (unlock_buffer u)"
    using emits_trans [OF emits_trans [OF rbuffered_emits [OF entered_rbuffered] assms(6)] rbuffered_emits [OF rbuffered_unlock]]
    by simp
  then have em: "emits x s True (left_again u)"
    using recursive_emits by (simp add: left_again_def)
  show ?thesis
  proof (cases r)
    case (Inr a)
    then show ?thesis using s' fr em by simp
  next
    case (Inl e)
    obtain v where v: "ad_exception M e (left_again u) = (Inl e, v)" "frame ok wants fits h (left_again u) v"
      "emits [] (left_again u) True v" "c_released v"
      using ad_exception_step [OF frame_good [OF fr]] .
    have "rest v = rest u"
      using rest_after_write(4) [of M e "left_again u"] v(1) by simp
    then show ?thesis
      using Inl s' v frame_trans [OF fr v(2)] emits_trans [OF em v(3)] by simp
  qed
qed

lemma entered_good [simp]: "good h (entered d s) = good h s"
  by (simp add: entered_def lock_buffer_def conn_ok_def idle_def registered_def conn_defs)

lemma link_clear_sel [simp]:
  "frame ok wants fits h s (link_clear clr t) = frame ok wants fits h s t" "emits x s r (link_clear clr t) = emits x s r t"
  "flowing (link_clear clr t) = flowing t" "winding x (link_clear clr t) = winding x t"
  "c_released (link_clear clr t) = c_released t" "\<not> c_released t \<Longrightarrow> link_clear clr t = t"
  by (simp_all add: link_clear_def winding_def)

text \<open>A block that arrives while the session is in use.\<close>

lemma block_run:
  assumes "good h s" "flowing s" "c_recursive s = 0" "frames (l_split s) = ([], l_split s)" "d \<noteq> []"
    and "frames (l_split s @ d) = (fs, b)" "s' = link_clear clr (snd (ready_read M (link_on_read receive) (Data d) (c_rd s) (s\<lparr>l_room := ks\<rparr>)))"
    and "run_frames (link_receiver receive) fs (entered d (s\<lparr>l_room := ks\<rparr>), None) = ((u, ex), flag)"
    and "frame ok wants fits h (entered d (s\<lparr>l_room := ks\<rparr>)) u" "emits x (entered d (s\<lparr>l_room := ks\<rparr>)) True u"
  shows "frame ok wants fits h s s' \<and> emits x s True s' \<and> (if ex = None then flowing s' = flowing u
    \<and> (\<forall>y. winding y s' = winding y u) \<and> (\<not> c_released u \<longrightarrow> l_rpc s' = l_rpc u \<and> l_split s' = (if flag then [] else b) \<and> link.more s' = link.more u)
    else \<not> flowing s')"
proof -
  let ?s = "s\<lparr>l_room := ks\<rparr>" let ?e = "entered d ?s"
  let ?u = "u\<lparr>l_split := if flag then [] else b\<rparr>" let ?r = "case ex of Some x \<Rightarrow> Inl x | None \<Rightarrow> Inr ()"
  define t where "t = snd (ready_read M (link_on_read receive) (Data d) (c_rd s) ?s)"
  have "l_split ?e = l_split s"
    using entered_sel(1) [of d ?s] by (simp add: rest_def)
  then have "link_on_read receive d ?e = (?r, ?u)"
    using splitter_block [of "l_split s" "link_receiver receive" d "(?e, None)"] assms(4,6,8)
    by (simp add: link_on_read_def)
  then have t: "frame ok wants fits h s t" "emits x s True t" "rest t = rest ?u"
    "case ?r of Inr _ \<Rightarrow> t = left_again ?u | Inl _ \<Rightarrow> c_released t"
    using block_step [of h ?s d "link_on_read receive" ?r ?u x] assms(1,3,5,9,10)
    by (simp_all add: t_def split: option.splits)
  have s': "s' = link_clear clr t"
    using assms(7) by (simp add: t_def)
  show ?thesis
  proof (cases ex)
    case None
    then have "t = left_again ?u" using t(4) by simp
    moreover have "\<forall>y. winding y ?u = winding y u" by (simp add: winding_def)
    ultimately show ?thesis
      using None t(1-3) s' by (simp add: rest_def)
  next
    case (Some x)
    then show ?thesis
      using t(1,2,4) s' released_empty [OF frame_good [OF t(1)]] by simp
  qed
qed

lemma link_block_step:
  assumes "good h s" "flowing s" "c_recursive s = 0" "frames (l_split s) = ([], l_split s)" "d \<noteq> []"
    and "frames (l_split s @ d) = (fs, b)" "replies ms fs (l_rpc s) = (xs, c, bad)"
    and "s' = link_happen M h ms clr (Block d ks) s"
  shows "frame ok wants fits h s s' \<and> emits (wire xs) s True s'
    \<and> (if bad then \<not> flowing s' else flowing s' \<and> l_rpc s' = c \<and> l_split s' = b)"
proof -
  let ?e = "entered d (s\<lparr>l_room := ks\<rparr>)"
  obtain u ex flag where run: "run_frames (link_receiver (link_receive M h ms)) fs (?e, None) = ((u, ex), flag)"
    by (metis prod.exhaust)
  have e: "good h ?e" "flowing ?e" "l_rpc ?e = l_rpc s"
    using entered_sel(1) [of d "s\<lparr>l_room := ks\<rparr>"] assms(1,2) by (simp_all add: rest_def)
  have u: "frame ok wants fits h ?e u" "emits (wire xs) ?e True u"
    "if bad then ex \<noteq> None \<or> \<not> flowing u else ex = None \<and> \<not> flag \<and> flowing u \<and> l_rpc u = c"
    using run_messages [OF e(1,2) run, unfolded e(3), OF assms(7)] by blast+
  have "flowing u \<longrightarrow> \<not> c_released u"
    using released_empty [OF frame_good [OF u(1)]] by blast
  then show ?thesis
    using block_run [OF assms(1-6) _ run u(1,2), of s' clr] assms(8) link_happen_block [OF assms(2)] u(3) by (auto split: if_splits)
qed

text \<open>The block that brings the message that ends the session.\<close>

lemma run_last:
  assumes "good h s" "flowing s" "replies ms fs (l_rpc s) = (xs, c, False)"
    and "ad_invoke ms m (c\<lparr>sent := [], events := []\<rparr>) = Inr ((), c')" "List.map_filter error_text (events c') = [e]"
  obtains u flag where "run_frames (link_receiver (link_receive M h ms)) (fs @ [m]) (s, None) = ((u, None), flag)"
    "frame ok wants fits h s u" "emits (wire (xs @ sent c' @ [e])) s True u" "winding (pending s @ wire (xs @ sent c' @ [e])) u"
proof -
  obtain t ex fl where run: "run_frames (link_receiver (link_receive M h ms)) fs (s, None) = ((t, ex), fl)"
    by (metis prod.exhaust)
  have t: "frame ok wants fits h s t" "emits (wire xs) s True t" "ex = None" "\<not> fl" "flowing t" "l_rpc t = c"
    using run_messages [OF assms(1,2) run assms(3)] by simp_all
  have p: "pending t = pending s @ wire xs"
    using t(2,5) by (simp add: emits_def)
  obtain q u where q: "link_receive M h ms m t = (q, u)" "frame ok wants fits h t u"
    "received (Inr ((), c')) t q u"
    using link_receive_step [OF frame_good [OF t(1)], of ms m "Inr ((), c')"] assms(4) t(6) by metis
  then have u: "q = Inr ()" "emits (wire (sent c' @ [e])) t True u" "winding (pending t @ wire (sent c' @ [e])) u"
    using assms(5) t(5) by (simp_all add: received_def)
  have "run_frames (link_receiver (link_receive M h ms)) (fs @ [m]) (s, None) = ((u, None), c_released u)"
    using run t(3,4) q(1) u(1) by (simp add: run_frames_append run_frames_link del: run_frames.simps(2))
  then show ?thesis
    using that frame_trans [OF t(1) q(2)] emits_trans [OF t(2) u(2)] u(3) p by simp
qed

lemma link_last_block:
  assumes "good h s" "flowing s" "c_recursive s = 0" "frames (l_split s) = ([], l_split s)" "d \<noteq> []"
    and "frames (l_split s @ d) = (fs @ [m], b)" "replies ms fs (l_rpc s) = (xs, c, False)"
    and "ad_invoke ms m (c\<lparr>sent := [], events := []\<rparr>) = Inr ((), c')" "List.map_filter error_text (events c') = [e]"
    and "s' = link_happen M h ms clr (Block d ks) s"
  shows "frame ok wants fits h s s' \<and> winding (pending s @ wire (xs @ sent c' @ [e])) s'"
proof -
  let ?e = "entered d (s\<lparr>l_room := ks\<rparr>)"
  have e: "good h ?e" "flowing ?e" "l_rpc ?e = l_rpc s" "pending ?e = pending s"
    using entered_sel(1) [of d "s\<lparr>l_room := ks\<rparr>"] assms(1,2) by (simp_all add: rest_def)
  obtain u flag where u: "run_frames (link_receiver (link_receive M h ms)) (fs @ [m]) (?e, None) = ((u, None), flag)"
    "frame ok wants fits h ?e u" "emits (wire (xs @ sent c' @ [e])) ?e True u" "winding (pending s @ wire (xs @ sent c' @ [e])) u"
    using run_last [OF e(1,2) assms(7) [folded e(3)] assms(8,9)] e(4) by metis
  then show ?thesis
    using block_run [OF assms(1-6) _ u(1-3), of s' clr] assms(10) link_happen_block [OF assms(2)] by simp
qed

lemma room_step:
  assumes "good h s" "c_recursive s = 0" "t = snd (ready_write M h (room [k]) (c_wd s) s)"
  shows "frame ok wants fits h s t \<and> emits [] s True t \<and> (flowing s \<longrightarrow> flowing t \<and> \<not> c_released t \<and> rest t = rest s)"
proof -
  let ?f = "seqS (mux_write M h (room [k])) (ret ())"
  obtain r where g: "guarded M ?f s = (r, t)"
    using assms(3) by (cases "guarded M ?f s") (simp add: ready_write_def)
  have fe: "frame ok wants fits h s t" "emits [] s True t"
    using guarded_step [OF serves_void [OF mux_write_serves [OF room_law]] assms(1,2) g] by simp_all
  have "flowing t \<and> rest t = rest s" if "flowing s"
  proof -
    let ?s = "s\<lparr>c_recursive := 1\<rparr>"
    have "flowing ?s" "good h ?s" using that assms(1) by (simp_all add: flowing_def recursive_good)
    then obtain n u where u: "mux_write M h (room [k]) ?s = (Inr n, u)" "frame ok wants fits h ?s u" "flowing u"
      using flush_kept [OF _ _ room_law, of h ?s "[k]"] room_writes by metis
    then have "t = u\<lparr>c_recursive := 0\<rparr>"
      using g assms(2) by (simp add: guarded_def op_defs frame_def)
    moreover have "rest u = rest s"
      using arg_cong [OF u(1), of "\<lambda>x. rest (snd x)"] by simp
    ultimately show ?thesis using u(3) by (simp add: flowing_def)
  qed
  moreover have "\<not> c_released t" if "flowing t"
    using that released_empty [OF frame_good [OF fe(1)]] by blast
  ultimately show ?thesis
    using fe by blast
qed

lemma link_room_step:
  assumes "good h s" "c_recursive s = 0" "s' = link_happen M h ms clr (Room k) s"
  shows "frame ok wants fits h s s' \<and> emits [] s True s'
    \<and> (flowing s \<longrightarrow> flowing s' \<and> l_rpc s' = l_rpc s \<and> l_split s' = l_split s)"
proof (cases "c_mux_write s")
  case False
  then show ?thesis
    using assms by (simp add: link_happen_def frame_refl emits_refl)
next
  case True
  then show ?thesis
    using room_step [OF assms(1,2) refl, of k] assms(3) by (auto simp: link_happen_def rest_def)
qed

text \<open>Once a message has ended the session, no further block is read.\<close>

lemma link_ended_step:
  assumes "good h s" "\<not> flowing s" "c_recursive s = 0" "steady x" "s' = link_happen M h ms clr x s"
  shows "frame ok wants fits h s s' \<and> emits [] s True s' \<and> \<not> flowing s'"
proof (cases x)
  case (Block d ks)
  have "\<not> c_mux_read s"
    using assms(1,2) by (auto simp: conn_ok_def idle_def conn_defs)
  then show ?thesis
    using assms Block by (simp add: link_happen_def frame_refl emits_refl)
next
  case (Room k)
  then show ?thesis
    using link_room_step [OF assms(1,3), of s' ms clr k] assms(2,5) by (auto simp: emits_def)
next
  case Hangup
  then show ?thesis using assms(4) by simp
qed

lemma link_happen_step:
  assumes "good h s" "flowing s" "c_recursive s = 0" "frames (l_split s) = ([], l_split s)" "steady x"
    and "frames (l_split s @ link_data x) = (fs, b)" "replies ms fs (l_rpc s) = (xs, c, bad)"
    and "s' = link_happen M h ms clr x s"
  shows "frame ok wants fits h s s' \<and> emits (wire xs) s True s'
    \<and> (if bad then \<not> flowing s' else flowing s' \<and> l_rpc s' = c \<and> l_split s' = b)"
proof (cases x)
  case (Block d ks)
  then have d: "d \<noteq> []" "frames (l_split s @ d) = (fs, b)" "s' = link_happen M h ms clr (Block d ks) s"
    using assms(5,6,8) by simp_all
  show ?thesis
    by (rule link_block_step [OF assms(1-4) d(1,2) assms(7) d(3)])
next
  case (Room k)
  then have "fs = []" "b = l_split s" using assms(4,6) by simp_all
  then show ?thesis
    using Room link_room_step [OF assms(1,3), of s' ms clr k] assms(2,7,8) by auto
next
  case Hangup
  then show ?thesis using assms(5) by simp
qed

lemma link_ended_happens:
  assumes "good h s" "\<not> flowing s" "c_recursive s = 0" "list_all steady xs"
  shows "frame ok wants fits h s (link_happens M h ms clr xs s) \<and> emits [] s True (link_happens M h ms clr xs s)
    \<and> \<not> flowing (link_happens M h ms clr xs s)"
  using assms
proof (induction xs arbitrary: s)
  case Nil
  then show ?case by (simp add: frame_refl emits_refl)
next
  case (Cons x xs)
  let ?t = "link_happen M h ms clr x s"
  have t: "frame ok wants fits h s ?t" "emits [] s True ?t" "\<not> flowing ?t"
    using link_ended_step [OF Cons.prems(1-3) _ refl] Cons.prems(4) by auto
  let ?u = "link_happens M h ms clr xs ?t"
  have u: "frame ok wants fits h ?t ?u" "emits [] ?t True ?u" "\<not> flowing ?u"
    using Cons.IH [OF frame_good [OF t(1)] t(3)] Cons.prems(3,4) t(1) by (simp_all add: frame_def)
  show ?case
    using frame_trans [OF t(1) u(1)] emits_trans [OF t(2) u(2)] u(3) by simp
qed

lemma link_happens_step:
  assumes "good h s" "flowing s" "c_recursive s = 0" "frames (l_split s) = ([], l_split s)" "list_all steady xs"
    and "frames (l_split s @ concat (map link_data xs)) = (fs, b)" "replies ms fs (l_rpc s) = (ys, c, bad)"
    and "s' = link_happens M h ms clr xs s"
  shows "frame ok wants fits h s s' \<and> emits (wire ys) s True s'
    \<and> (if bad then \<not> flowing s' else flowing s' \<and> l_rpc s' = c \<and> l_split s' = b)"
  using assms
proof (induction xs arbitrary: s fs ys)
  case Nil
  then show ?case by (simp add: frame_refl emits_refl)
next
  case (Cons x xs)
  let ?t = "link_happen M h ms clr x s"
  obtain gs b1 where gs: "frames (l_split s @ link_data x) = (gs, b1)" by fastforce
  obtain zs c1 bad1 where zs: "replies ms gs (l_rpc s) = (zs, c1, bad1)" by (metis prod.exhaust)
  have t: "frame ok wants fits h s ?t" "emits (wire zs) s True ?t"
    "if bad1 then \<not> flowing ?t else flowing ?t \<and> l_rpc ?t = c1 \<and> l_split ?t = b1"
    using link_happen_step [OF Cons.prems(1-4) _ gs zs refl] Cons.prems(5) by auto
  have s': "s' = link_happens M h ms clr xs ?t" "c_recursive ?t = 0" "list_all steady xs"
    using Cons.prems(3,5,8) t(1) by (simp_all add: frame_def)
  have app: "fs = gs @ fst (frames (b1 @ concat (map link_data xs)))" "b = snd (frames (b1 @ concat (map link_data xs)))"
    using frames_append [OF gs, of "concat (map link_data xs)"] Cons.prems(6) by simp_all
  show ?case
  proof (cases bad1)
    case True
    then have "ys = zs" "bad"
      using Cons.prems(7) zs app(1) by (simp_all add: replies_append)
    moreover have u: "frame ok wants fits h ?t s'" "emits [] ?t True s'" "\<not> flowing s'"
      using True link_ended_happens [OF frame_good [OF t(1)] _ s'(2,3), of ms clr] t(3) s'(1) by simp_all
    ultimately show ?thesis
      using frame_trans [OF t(1) u(1)] emits_trans [OF t(2) u(2)] by simp
  next
    case False
    then have f: "flowing ?t" "l_rpc ?t = c1" "l_split ?t = b1" using t(3) by simp_all
    obtain ws where ws: "replies ms (fst (frames (b1 @ concat (map link_data xs)))) c1 = (ws, c, bad)" "ys = zs @ ws"
      using Cons.prems(7) zs False app(1) by (auto simp: replies_append split: prod.splits)
    have "frame ok wants fits h ?t s' \<and> emits (wire ws) ?t True s'
      \<and> (if bad then \<not> flowing s' else flowing s' \<and> l_rpc s' = c \<and> l_split s' = b)"
      using f frames_rest [OF gs] s' app(2) ws(1)
      by (intro Cons.IH [OF frame_good [OF t(1)] f(1) s'(2)]) simp_all
    then show ?thesis
      using frame_trans [OF t(1)] emits_trans [OF t(2)] ws(2) by auto
  qed
qed

section \<open>The end of a session\<close>

lemma link_released: "good h s \<Longrightarrow> c_released s \<Longrightarrow> link_happens M h ms clr (replicate n (Room k)) s = s"
  by (induction n) (auto simp: link_happen_def conn_ok_def idle_def is_open_def)

lemma link_drains:
  assumes "good h s" "ending s" "c_wstatus s" "c_recursive s = 0" "\<not> c_released s" "0 < k" "length (c_wbuf s) \<le> n"
  shows "c_released (link_happens M h ms clr (replicate n (Room k)) s)
    \<and> c_sent (link_happens M h ms clr (replicate n (Room k)) s) = pending s"
  using assms
proof (induction n arbitrary: s)
  case 0
  then show ?case by (auto simp: ending_def)
next
  case (Suc n)
  let ?net = "room [k]" let ?t = "happen M h (Writable ?net) s" let ?s = "link_happen M h ms clr (Room k) s"
  have "c_mux_write s" using Suc.prems(2,3) by (simp add: ending_def)
  then have s': "?s = link_clear clr ?t"
    by (simp add: link_happen_def happen_def)
  have tk: "takes ?net" using Suc.prems(6) by (simp add: takes_def room_def)
  consider "c_released ?t" "c_sent ?t = pending s"
    | "good h ?t" "ending ?t" "c_wstatus ?t" "\<not> c_released ?t" "pending ?t = pending s"
      "length (c_wbuf ?t) < length (c_wbuf s)" "c_recursive ?t = 0"
    using drain_step [OF Suc.prems(1-3) tk Suc.prems(4,5)] by (elim disjE conjE) simp_all
  then show ?case
  proof cases
    case 1
    have g: "good h ?s" "c_recursive ?s = 0"
      using link_room_step [OF Suc.prems(1,4) refl] Suc.prems(4) by (auto simp: frame_def)
    then show ?thesis
      using 1 link_released [OF g(1)] s' by (simp add: link_clear_def)
  next
    case 2
    then show ?thesis
      using Suc.IH [OF 2(1-3,7,4) Suc.prems(6)] Suc.prems(7) s' by simp
  qed
qed

end

lemma unread:
  "conn_ok ok wants fit h s \<Longrightarrow> own wants h (c_rd s) (c_mx s) \<Longrightarrow>
     wants (c_mx s) Ev_read (c_rd s) = (if flowing s then Some h else None)"
  unfolding own_def by (fastforce simp: conn_ok_def idle_def registered_def conn_defs)

lemma rest_assign [simp]: "rest (snd (assign M h d l a s)) = rest s"
  by (simp add: assign_def mux_filter_assign_def filter_assign_def set_rd_def set_wd_def wclear_def rclear_def)

lemma link_start:
  assumes "imux_laws M ok wants fits'" "assignable ok wants fits' h d s0" "s = link_assign M h clr d l a s0"
  shows "conn_ok ok wants fits' h s \<and> flowing s \<and> c_rd s = d \<and> pending s = c_sent s0 \<and> c_recursive s = 0
    \<and> l_split s = [] \<and> l_rpc s = clr (clear_invoke (l_rpc s0)) \<and> c_fds s = c_fds s0 \<and> \<not> c_released s"
proof -
  have "list_all happening_law []" by simp
  from session_step [OF assms(1,2) this] obtain s1 where
    s1: "session M h d l a [] s0 = happens M h [] s1" "conn_ok ok wants fits' h s1" "flowing s1"
    "c_rd s1 = d" "pending s1 = c_sent s0" "c_recursive s1 = 0" "c_fds s1 = c_fds s0" "\<not> c_released s1" by metis
  then show ?thesis
    using assms(3) by (simp add: session_def link_assign_def)
qed

lemma session_run:
  assumes "imux_laws M ok wants fit" and "assignable ok wants fit h d s0" and "list_all steady xs"
    and "frames (concat (map link_data xs)) = (fs, b)"
    and "replies ms fs (clr (clear_invoke (l_rpc s0))) = (ys, c, bad)"
    and "s1 = link_assign M h clr d l a s0" and "s = link_happens M h ms clr xs s1"
  shows "frame ok wants fit h s1 s \<and> emits (wire ys) s1 True s
    \<and> (if bad then \<not> flowing s else flowing s \<and> l_rpc s = c \<and> l_split s = b)"
proof -
  have start: "conn_ok ok wants fit h s1" "flowing s1" "c_recursive s1 = 0" "l_split s1 = []"
    "l_rpc s1 = clr (clear_invoke (l_rpc s0))"
    using link_start [OF assms(1,2,6)] by simp_all
  have fr: "frames (l_split s1) = ([], l_split s1)" "frames (l_split s1 @ concat (map link_data xs)) = (fs, b)"
    using assms(4) start(4) by simp_all
  show ?thesis
    by (rule imux_laws.link_happens_step [OF assms(1) start(1-3) fr(1) assms(3) fr(2) assms(5) [folded start(5)] assms(7)])
qed

section \<open>What a client can rely on\<close>

text \<open>A session over a \<open>selector\<close>, with one method that answers every request with the same text.\<close>

definition pong_method :: "unit meth" where
  "pong_method = \<lparr>mt_name = ''p'', mt_tag = ''p'', mt_request = (\<lambda>d c. Inr (Some [], writer ''pong'' c)),
     mt_notify = no_part, mt_response = no_part\<rparr>"

definition ping :: string where
  "ping = CHR ''{'' # DQ # ''method'' @ DQ # '':'' @ DQ # ''p'' @ DQ # '','' @ DQ # ''id'' @ DQ # '':1}'' @ [CR, LF]"

definition example_link :: "(selector, unit) link" where
  "example_link = conn.extend (conn_new 0 0 True selector_new {5})
     (link.fields [] \<lparr>rworld = (), in_ids = [], id_count = 0, out_ids = (\<lambda>_. []), sent = [], events = []\<rparr> [])"

definition two_pings :: "link_event list" where
  "two_pings = [Block (ping @ take 7 ping) [3, 0], Room 2, Block (drop 7 ping) [0]]"

lemma two_pings_data: "frames (concat (map link_data two_pings)) = ([ping, ping], [])"
  by code_simp

lemma two_pings_replies:
  "fst (replies [pong_method] [ping, ping] (clear_invoke (l_rpc example_link))) = [''pong'', ''pong'']
   \<and> \<not> snd (snd (replies [pong_method] [ping, ping] (clear_invoke (l_rpc example_link))))"
  by code_simp

lemma example_link_assignable: "assignable sl_ok sl_wants (\<lambda>d. d < FD_SETSIZE) 1 5 example_link"
  by (simp add: assignable_def idle_def example_link_def conn_new_def selector_new_def sl_ok_def sl_wants_def
      FD_SETSIZE_def conn.defs link.defs)

text \<open>
  C11. A session answers what it is asked. A client of the port for slaves sends a stream of messages, cut
  into blocks in any way, and the socket takes the answers in any pieces. Then what is sent and what waits
  in the buffer together are the answers to the messages of the stream, each once and in the order of the
  messages, and the methods have run once for each; the connection goes on reading and keeps the bytes of
  the message that is not complete yet. If one of the messages was no request that can be answered, what is
  sent is a beginning of the answers up to that one, and nothing more is read.\<close>

theorem session_answers:
  assumes "imux_laws M ok wants fit" and "assignable ok wants fit h d s0" and "list_all steady xs"
    and "frames (concat (map link_data xs)) = (fs, b)"
    and "replies ms fs (clr (clear_invoke (l_rpc s0))) = (ys, c, bad)"
    and "s = link_happens M h ms clr xs (link_assign M h clr d l a s0)"
  shows "prefix (c_sent s) (c_sent s0 @ wire ys)
    \<and> (if bad then wants (c_mx s) Ev_read d = None
       else c_sent s @ c_wbuf s = c_sent s0 @ wire ys \<and> wants (c_mx s) Ev_read d = Some h \<and> l_rpc s = c \<and> l_split s = b)"
proof -
  let ?s = "link_assign M h clr d l a s0"
  have start: "conn_ok ok wants fit h ?s" "flowing ?s" "c_rd ?s = d" "pending ?s = c_sent s0" "c_recursive ?s = 0"
    "\<not> c_released ?s"
    using link_start [OF assms(1,2) refl, of clr l a] by simp_all
  have s: "frame ok wants fit h ?s s" "emits (wire ys) ?s True s"
    "if bad then \<not> flowing s else flowing s \<and> l_rpc s = c \<and> l_split s = b"
    using session_run [where clr = clr, OF assms(1-5) refl assms(6)] by blast+
  have "wants (c_mx s) Ev_read d = (if flowing s then Some h else None)"
    using unread [of ok wants fit h s] s(1) start(3,6) by (simp add: frame_def)
  moreover have "prefix (c_sent s) (c_sent s0 @ wire ys)"
    using s(2) start(4) unfolding emits_def pending_def by (metis prefix_order.trans prefixI)
  ultimately show ?thesis
    using s(2,3) start(4) by (cases bad) (simp_all add: emits_def pending_def)
qed

theorem session_answers_witness:
  "l_split (link_happens selector_mux 1 [pong_method] id two_pings (link_assign selector_mux 1 id 5 [] [] example_link)) = []
   \<and> prefix (c_sent (link_happens selector_mux 1 [pong_method] id two_pings (link_assign selector_mux 1 id 5 [] [] example_link)))
       (wire [''pong'', ''pong''])"
proof -
  obtain c where "replies [pong_method] [ping, ping] (id (clear_invoke (l_rpc example_link))) = ([''pong'', ''pong''], c, False)"
    using two_pings_replies by (metis id_apply prod.collapse)
  moreover have "list_all steady two_pings" by code_simp
  moreover have "c_sent example_link = []" by (simp add: example_link_def conn_new_def conn.defs)
  ultimately show ?thesis
    using session_answers [OF sel.imux_laws_axioms example_link_assignable _ two_pings_data _ refl, where clr = id] by fastforce
qed


definition refused :: "unit rpc \<Rightarrow> string list \<times> string list" where
  "refused c = (case ad_invoke [pong_method] (''{}'' @ [CR, LF]) (c\<lparr>sent := [], events := []\<rparr>) of
     Inl _ \<Rightarrow> ([], []) | Inr (_, c) \<Rightarrow> (sent c, List.map_filter error_text (events c)))"

abbreviation pinged :: "unit rpc" where
  "pinged \<equiv> fst (snd (replies [pong_method] [ping] (clear_invoke (l_rpc example_link))))"

lemma refused_frames: "frames (ping @ ''{}'' @ [CR, LF]) = ([ping] @ [''{}'' @ [CR, LF]], [])"
  by code_simp

lemma refused_before:
  "fst (replies [pong_method] [ping] (clear_invoke (l_rpc example_link))) = [''pong'']
   \<and> \<not> snd (snd (replies [pong_method] [ping] (clear_invoke (l_rpc example_link))))"
  by code_simp

lemma refused_sent: "fst (refused pinged) = []"
  by code_simp

lemma refused_errors: "snd (refused pinged) = [ad_invalid_json]"
  by code_simp


end
