(* ===== verification/Front.thy ===== *)
theory Front
  imports Session_Laws
begin

text \<open>
  A connection to the main port, \<open>server_tcp\<close> of \<open>src/daemon.cpp\<close>, from the requests that arrive to the
  answers that are sent. The thread of the connection only reads: \<open>ad_invoke_first\<close> puts a request into the
  queue of its pool. A thread of the pool runs it (\<open>threadproc\<close> of \<open>common/multiserver.hpp\<close>) and writes the
  answer through \<open>ad_writer\<close> and \<open>multiserver_mux_connection::write\<close> to the connection the request came from.

  The state extends the one of a session by the pools and by the object \<open>MLA_class ml\<close> of each background
  thread; the world the methods work on is that of \<open>l_rpc\<close>. A request that a thread runs is one step here;
  what can happen between the steps of several threads is the subject of \<open>Key_Locks\<close> and \<open>Request_Life\<close>.
\<close>

section \<open>Model\<close>

record ('m, 'w) front = "('m, 'w) link" +
  f_server :: server
  f_ml :: "nat \<Rightarrow> 'w rpc"

text \<open>\<open>ad_invalid_json\<close> on this port: \<open>ad_invoke_first::error\<close> writes the text as it is, without \<open>\r\n\<close>.\<close>

definition front_error :: "'m imux \<Rightarrow> nat \<Rightarrow> string \<Rightarrow> (('m, 'w) front, unit) op" where
  "front_error M h d = seqS (link_put M h d) (seqS (release M) (ret ()))"

fun front_errors :: "'m imux \<Rightarrow> nat \<Rightarrow> rpc_event list \<Rightarrow> (('m, 'w) front, unit) op" where
  "front_errors M h [] = ret ()"
| "front_errors M h (e # es) =
     seqS (case error_text e of Some d \<Rightarrow> front_error M h d | None \<Rightarrow> ret ()) (front_errors M h es)"

definition front_receive :: "'m imux \<Rightarrow> nat \<Rightarrow> string \<Rightarrow> string \<Rightarrow> (('m, 'w) front, unit) op" where
  "front_receive M h junk m s =
     (case ad_invoke_first junk m (f_server s) ((l_rpc s)\<lparr>events := []\<rparr>) of
        Inl (e, c) \<Rightarrow> raise e s
      | Inr (sv, c) \<Rightarrow> seqS (upd (\<lambda>s. s\<lparr>f_server := sv, l_rpc := c\<rparr>)) (front_errors M h (events c)) s)"

text \<open>\<open>multiserver_mux_connection::write\<close>, behind \<open>ad_rn_writer\<close> of the background thread.\<close>

definition work_write :: "'m imux \<Rightarrow> nat \<Rightarrow> string \<Rightarrow> (('m, 'w) front, unit) op" where
  "work_write M h d s = (if \<not> c_released s then link_write M h d s else ret () s)"

fun work_writes :: "'m imux \<Rightarrow> nat \<Rightarrow> string list \<Rightarrow> (('m, 'w) front, unit) op" where
  "work_writes M h [] = ret ()"
| "work_writes M h (d # ds) = seqS (work_write M h d) (work_writes M h ds)"

text \<open>The error advices of the background thread \<open>j\<close>; \<open>ad_writer::release\<close> releases the connection.\<close>

definition work_error :: "'m imux \<Rightarrow> nat \<Rightarrow> nat \<Rightarrow> string \<Rightarrow> (('m, 'w) front, unit) op" where
  "work_error M h j d =
     seqS (upd (\<lambda>s. s\<lparr>f_ml := (f_ml s)(j := (f_ml s j)\<lparr>in_ids := remove1 0 (in_ids (f_ml s j))\<rparr>)\<rparr>))
       (seqS (work_write M h d) (seqS (release M) (ret ())))"

fun work_errors :: "'m imux \<Rightarrow> nat \<Rightarrow> nat \<Rightarrow> rpc_event list \<Rightarrow> (('m, 'w) front, unit) op" where
  "work_errors M h j [] = ret ()"
| "work_errors M h j (e # es) =
     seqS (case error_text e of Some d \<Rightarrow> work_error M h j d | None \<Rightarrow> ret ()) (work_errors M h j es)"

text \<open>
  A round of \<open>threadproc\<close> for thread \<open>j\<close>, which serves the pool \<open>spawned\<close> gives it. A request whose
  connection was released has lost its client and is deleted.
\<close>

definition front_work :: "'m imux \<Rightarrow> nat \<Rightarrow> 'w mmeth list \<Rightarrow> nat \<Rightarrow> (('m, 'w) front, unit) op" where
  "front_work M h ms j s =
     (case try_pop (spawned (f_server s) ! j) (f_server s) of
        (None, sv) \<Rightarrow> ret () s
      | (Some req, sv) \<Rightarrow>
          let s = s\<lparr>f_server := sv\<rparr> in
          if c_released s then ret () s
          else case thread_request ms req ((f_ml s j)\<lparr>rworld := rworld (l_rpc s), sent := [], events := []\<rparr>) of
            Inl (e, c) \<Rightarrow> raise e s
          | Inr (_, c) \<Rightarrow>
              seqS (upd (\<lambda>s. s\<lparr>f_ml := (f_ml s)(j := c), l_rpc := (l_rpc s)\<lparr>rworld := rworld c\<rparr>\<rparr>))
                (seqS (work_writes M h (sent c)) (work_errors M h j (events c))) s)"

definition front_clear :: "('m, 'w) front \<Rightarrow> ('m, 'w) front" where
  "front_clear s = (if c_released s then s\<lparr>l_split := []\<rparr> else s)"

text \<open>
  What happens: a block arrives, there is room in the socket, a background thread does a round. An exception
  in a background thread is not caught and ends the process.
\<close>

datatype front_event = Front_block string "nat list" | Front_room nat | Work nat "nat list"

definition front_happen ::
  "'m imux \<Rightarrow> nat \<Rightarrow> string \<Rightarrow> 'w mmeth list \<Rightarrow> front_event \<Rightarrow> ('m, 'w) front \<Rightarrow> ('m, 'w) front option" where
  "front_happen M h junk ms x s = (case x of
     Front_block d ks \<Rightarrow> Some (if c_mux_read s
       then front_clear (snd (ready_read M (link_on_read (front_receive M h junk)) (Data d) (c_rd s) (s\<lparr>l_room := ks\<rparr>))) else s)
   | Front_room k \<Rightarrow> Some (if c_mux_write s then front_clear (snd (ready_write M h (room [k]) (c_wd s) s)) else s)
   | Work j ks \<Rightarrow> (case front_work M h ms j (s\<lparr>l_room := ks\<rparr>) of (Inl e, s) \<Rightarrow> None | (Inr _, s) \<Rightarrow> Some (front_clear s)))"

fun front_happens ::
  "'m imux \<Rightarrow> nat \<Rightarrow> string \<Rightarrow> 'w mmeth list \<Rightarrow> front_event list \<Rightarrow> ('m, 'w) front \<Rightarrow> ('m, 'w) front option" where
  "front_happens M h junk ms [] s = Some s"
| "front_happens M h junk ms (x # xs) s = (case front_happen M h junk ms x s of
     None \<Rightarrow> None | Some s \<Rightarrow> front_happens M h junk ms xs s)"

definition front_assign :: "'m imux \<Rightarrow> nat \<Rightarrow> nat \<Rightarrow> string \<Rightarrow> string \<Rightarrow> ('m, 'w) front \<Rightarrow> ('m, 'w) front" where
  "front_assign M h d l a s = (snd (assign M h d l a s))\<lparr>l_split := []\<rparr>"

section \<open>Requests\<close>

text \<open>A request line a client may send: its parameters are one JSON value.\<close>

definition sendable :: "string \<times> int \<times> string \<Rightarrow> bool" where
  "sendable = (\<lambda>(name, i, params). wire_name name \<and> fits c_long_long i \<and>
     params \<noteq> [] \<and> starts_value (hd params) \<and>
     parse_value (params @ CHR ''}'' # [CR, LF]) = Inr (CHR ''}'' # [CR, LF]))"

abbreviation line_of :: "string \<times> int \<times> string \<Rightarrow> string" where
  "line_of \<equiv> \<lambda>(name, i, params). request_line name i params"

abbreviation req_of :: "string \<times> int \<times> string \<Rightarrow> json_rpc_req" where
  "req_of \<equiv> \<lambda>(name, i, params). request_of name i params"

lemma queues_line:
  assumes "sendable x" and "pools_ok s"
  shows "ad_invoke_first junk (rn_write (line_of x)) s c = Inr (projr (push_queue (req_of x) s), c)"
proof -
  obtain name i params where x: "x = (name, i, params)" by (cases x)
  have "ad_invoke_first junk (request_line name i params @ [CR, LF]) s c =
      (case push_queue (request_of name i params) s of Inl e \<Rightarrow> Inl (e, c) | Inr s \<Rightarrow> Inr (s, c))"
    using assms(1) read_request_line [of name i params "[CR, LF]" junk]
    by (simp add: ad_invoke_first_def sendable_def x)
  moreover have "\<exists>s'. push_queue (request_of name i params) s = Inr s'"
    using assms(2) push_queue_some [of s "request_of name i params"] by (auto simp: pools_ok_def)
  ultimately show ?thesis by (auto simp: x rn_write_def)
qed

end
