(* ===== verification/Front_Laws.thy ===== *)
theory Front_Laws
  imports Front "HOL-Library.Multiset"
begin

text \<open>
  What a client of the main port can rely on: its requests are run once each, those of one pool in the order
  in which they were sent, and the answers go to the connection the requests came from.
\<close>

section \<open>Specification\<close>

text \<open>
  What the rounds of the background threads make of a list of requests, each with the thread that runs it:
  the answers in the order in which they are written.
\<close>

fun work_all ::
  "'w mmeth list \<Rightarrow> (nat \<times> json_rpc_req) list \<Rightarrow> (nat \<Rightarrow> 'w rpc) \<Rightarrow> 'w \<Rightarrow> string list \<times> (nat \<Rightarrow> 'w rpc) \<times> 'w" where
  "work_all ms [] ml w = ([], ml, w)"
| "work_all ms ((j, req) # es) ml w =
     (let c = snd (projr (thread_request ms req ((ml j)\<lparr>rworld := w, sent := [], events := []\<rparr>)));
          (xs, r) = work_all ms es (ml(j := c)) (rworld c)
      in (sent c @ xs, r))"

text \<open>A request that its method answers, whatever the state is.\<close>

definition serviceable :: "'w mmeth list \<Rightarrow> json_rpc_req \<Rightarrow> bool" where
  "serviceable ms req \<longleftrightarrow> (\<forall>c. events c = [] \<longrightarrow>
     (\<exists>c'. thread_request ms req c = Inr ((), c') \<and> List.map_filter error_text (events c') = []))"

fun front_steady :: "server \<Rightarrow> front_event \<Rightarrow> bool" where
  "front_steady sv (Front_block d ks) \<longleftrightarrow> d \<noteq> []"
| "front_steady sv (Front_room k) \<longleftrightarrow> True"
| "front_steady sv (Work j ks) \<longleftrightarrow> j < length (spawned sv)"

fun front_data :: "front_event \<Rightarrow> string" where
  "front_data (Front_block d ks) = d" | "front_data (Front_room k) = []" | "front_data (Work j ks) = []"

abbreviation enc :: "string \<times> int \<times> string \<Rightarrow> string" where
  "enc x \<equiv> rn_write (line_of x)"

text \<open>The requests that have been run (\<open>es\<close>) and those that wait are those that have arrived.\<close>

definition pools_inv :: "server \<Rightarrow> json_rpc_req list \<Rightarrow> json_rpc_req list \<Rightarrow> server \<Rightarrow> bool" where
  "pools_inv sv0 reqs es sv \<longleftrightarrow> thread_count sv = thread_count sv0 \<and> method2thread sv = method2thread sv0
     \<and> length (queues sv) = length (queues sv0)
     \<and> (\<forall>k < length (queues sv0). for_pool sv0 k es @ queues sv ! k = for_pool sv0 k reqs)"

definition front_inv ::
  "'w mmeth list \<Rightarrow> server \<Rightarrow> (nat \<Rightarrow> 'w rpc) \<Rightarrow> 'w \<Rightarrow> string \<Rightarrow> json_rpc_req list \<Rightarrow> (nat \<times> json_rpc_req) list \<Rightarrow>
   ('m, 'w) front \<Rightarrow> bool" where
  "front_inv ms sv0 ml w out reqs es s \<longleftrightarrow> pools_inv sv0 reqs (map snd es) (f_server s)
     \<and> pending s = out @ wire (fst (work_all ms es ml w))
     \<and> snd (work_all ms es ml w) = (f_ml s, rworld (l_rpc s))"

lemma work_all_append:
  "work_all ms (es @ fs) ml w = (case work_all ms es ml w of (xs, ml', w') \<Rightarrow>
     case work_all ms fs ml' w' of (ys, r) \<Rightarrow> (xs @ ys, r))"
  by (induction es arbitrary: ml w) (auto simp: Let_def case_prod_unfold)

section \<open>The pools\<close>

lemma for_pool_simps [simp]:
  "for_pool sv k [] = []" "for_pool sv k (xs @ ys) = for_pool sv k xs @ for_pool sv k ys"
  by (simp_all add: for_pool_def)

lemma pools_inv_ok: "pools_inv sv0 reqs es sv \<Longrightarrow> pools_ok sv0 \<Longrightarrow> pools_ok sv"
  by (simp add: pools_inv_def pools_ok_def get_thread_number_def)

lemma pools_inv_push:
  assumes "pools_inv sv0 reqs es sv" "pools_ok sv0"
  shows "pools_inv sv0 (reqs @ [req]) es (projr (push_queue req sv))"
proof -
  have g: "get_thread_number sv (jq_method req) = get_thread_number sv0 (jq_method req)"
    using assms(1) by (simp add: pools_inv_def get_thread_number_def)
  have b: "0 \<le> get_thread_number sv0 (jq_method req)" "get_thread_number sv0 (jq_method req) < int (length (queues sv0))"
    using assms(2) by (simp_all add: pools_ok_def)
  let ?k = "nat (get_thread_number sv0 (jq_method req))"
  have p: "projr (push_queue req sv) = sv\<lparr>queues := (queues sv)[?k := queues sv ! ?k @ [req]]\<rparr>"
    using push_queue_some [of sv req] assms(1) b g by (simp add: pools_inv_def)
  have "for_pool sv0 k es @ queues (projr (push_queue req sv)) ! k = for_pool sv0 k (reqs @ [req])"
    if k: "k < length (queues sv0)" for k
  proof (cases "k = ?k")
    case True
    then have "for_pool sv0 k [req] = [req]" using b(1) by (simp add: for_pool_def)
    then show ?thesis
      using True k assms(1) by (simp add: p pools_inv_def flip: append_assoc)
  next
    case False
    then have "for_pool sv0 k [req] = []" using b(1) by (auto simp: for_pool_def)
    then show ?thesis
      using False k assms(1) by (simp add: p pools_inv_def)
  qed
  then show ?thesis
    using assms(1) by (simp add: pools_inv_def p)
qed

lemma pools_inv_pop:
  assumes "pools_inv sv0 reqs es sv" "pools_ok sv0" "k < length (queues sv0)" "queues sv ! k = req # q"
  shows "pools_inv sv0 reqs (es @ [req]) (sv\<lparr>queues := (queues sv)[k := q]\<rparr>)" "req \<in> set reqs"
proof -
  have k: "for_pool sv0 k es @ req # q = for_pool sv0 k reqs"
    using assms(1,3) assms(4) [symmetric] by (simp add: pools_inv_def)
  then have "req \<in> set (for_pool sv0 k reqs)" by (metis in_set_conv_decomp)
  then have req: "req \<in> set reqs" "get_thread_number sv0 (jq_method req) = int k"
    by (auto simp: for_pool_def)
  then show "req \<in> set reqs" by simp
  have "for_pool sv0 i (es @ [req]) @ (queues sv)[k := q] ! i = for_pool sv0 i reqs" if i: "i < length (queues sv0)" for i
  proof (cases "i = k")
    case True
    then show ?thesis
      using k req(2) assms(1,3) by (simp add: pools_inv_def for_pool_def)
  next
    case False
    then show ?thesis
      using i req(2) assms(1) by (simp add: pools_inv_def for_pool_def)
  qed
  then show "pools_inv sv0 reqs (es @ [req]) (sv\<lparr>queues := (queues sv)[k := q]\<rparr>)"
    using assms(1) by (simp add: pools_inv_def)
qed

text \<open>Everything that waits gets its turn; then each request has been run once.\<close>

lemma pools_inv_done:
  assumes "pools_inv sv0 reqs es sv" "pools_ok sv0" "\<forall>k < length (queues sv0). queues sv ! k = []"
  shows "mset es = mset reqs"
proof (rule multiset_eqI)
  fix r :: json_rpc_req
  let ?k = "nat (get_thread_number sv0 (jq_method r))"
  have k: "int ?k = get_thread_number sv0 (jq_method r)" "?k < length (queues sv0)"
    using assms(2) unfolding pools_ok_def by (auto simp: nat_less_iff)
  have "for_pool sv0 ?k es = for_pool sv0 ?k reqs"
    using assms(1,3) k(2) by (auto simp: pools_inv_def)
  moreover have "count (mset (for_pool sv0 ?k xs)) r = count (mset xs) r" for xs
    using k(1) by (simp add: for_pool_def)
  ultimately show "count (mset es) r = count (mset reqs) r" by metis
qed

lemma queue_bound:
  assumes "pools_inv sv0 reqs es sv" "k < length (queues sv0)"
  shows "length (queues sv ! k) \<le> length reqs"
proof -
  have "length (for_pool sv0 k es @ queues sv ! k) = length (for_pool sv0 k reqs)"
    using assms by (simp add: pools_inv_def)
  moreover have "length (for_pool sv0 k reqs) \<le> length reqs" by (simp add: for_pool_def)
  ultimately show ?thesis by simp
qed

lemma front_happens_append:
  "front_happens M h junk ms xs s = Some t \<Longrightarrow> front_happens M h junk ms (xs @ ys) s = front_happens M h junk ms ys t"
  by (induction xs arbitrary: s) (auto split: option.splits)

section \<open>The operations\<close>

lemma front_more: "link.more s = link.more t \<Longrightarrow> f_server s = f_server t \<and> f_ml s = f_ml t"
  by (cases s; cases t) simp

lemma front_receive_line:
  assumes "sendable x" "pools_ok (f_server s)"
  shows "front_receive M h junk (enc x) s =
    (Inr (), s\<lparr>f_server := projr (push_queue (req_of x) (f_server s)), l_rpc := (l_rpc s)\<lparr>events := []\<rparr>\<rparr>)"
  using queues_line [OF assms, of junk "(l_rpc s)\<lparr>events := []\<rparr>"] by (simp add: front_receive_def op_defs)

lemma front_fields [simp]:
  "pending (s\<lparr>f_server := sv\<rparr>) = pending s" "flowing (s\<lparr>f_server := sv\<rparr>) = flowing s"
  "conn_ok ok wants fit h (s\<lparr>f_server := sv\<rparr>) = conn_ok ok wants fit h s"
  "frame ok wants fit h t (s\<lparr>f_server := sv\<rparr>) = frame ok wants fit h t s"
  "frame ok wants fit h (s\<lparr>f_server := sv\<rparr>) t = frame ok wants fit h s t"
  "emits x t r (s\<lparr>f_server := sv\<rparr>) = emits x t r s" "emits x (s\<lparr>f_server := sv\<rparr>) r t = emits x s r t"
  "pending (s\<lparr>f_ml := ml\<rparr>) = pending s" "flowing (s\<lparr>f_ml := ml\<rparr>) = flowing s"
  "conn_ok ok wants fit h (s\<lparr>f_ml := ml\<rparr>) = conn_ok ok wants fit h s"
  "frame ok wants fit h t (s\<lparr>f_ml := ml\<rparr>) = frame ok wants fit h t s"
  "frame ok wants fit h (s\<lparr>f_ml := ml\<rparr>) t = frame ok wants fit h s t"
  "emits x t r (s\<lparr>f_ml := ml\<rparr>) = emits x t r s" "emits x (s\<lparr>f_ml := ml\<rparr>) r t = emits x s r t"
  by (simp_all add: pending_def flowing_def frame_def emits_def conn_ok_def idle_def registered_def is_open_def ending_def)

text \<open>The requests of a block go into the queues; nothing else happens.\<close>

lemma run_lines:
  assumes "list_all sendable rs" "pools_ok sv0" "pools_inv sv0 reqs es (f_server s)" "\<not> c_released s"
  shows "\<exists>sv c. run_frames (link_receiver (front_receive M h junk)) (map enc rs) (s, None) =
      ((s\<lparr>f_server := sv, l_rpc := c\<rparr>, None), False)
    \<and> pools_inv sv0 (reqs @ map req_of rs) es sv \<and> rworld c = rworld (l_rpc s)"
  using assms
proof (induction rs arbitrary: s reqs)
  case Nil
  then show ?case
    by (intro exI [of _ "f_server s"] exI [of _ "l_rpc s"]) simp
next
  case (Cons x rs)
  let ?sv = "projr (push_queue (req_of x) (f_server s))" let ?s = "s\<lparr>f_server := ?sv, l_rpc := (l_rpc s)\<lparr>events := []\<rparr>\<rparr>"
  have one: "front_receive M h junk (enc x) s = (Inr (), ?s)"
    using front_receive_line [of x s M h junk] pools_inv_ok [OF Cons.prems(3,2)] Cons.prems(1) by simp
  have "pools_inv sv0 (reqs @ [req_of x]) es ?sv"
    by (rule pools_inv_push [OF Cons.prems(3,2)])
  from Cons.IH [OF _ Cons.prems(2), of "reqs @ [req_of x]" ?s] this obtain sv c where
    "run_frames (link_receiver (front_receive M h junk)) (map enc rs) (?s, None) = ((?s\<lparr>f_server := sv, l_rpc := c\<rparr>, None), False)"
    "pools_inv sv0 (reqs @ map req_of (x # rs)) es sv" "rworld c = rworld (l_rpc s)"
    using Cons.prems(1,4) by auto
  then show ?case
    using one Cons.prems(4)
    by (intro exI [of _ sv] exI [of _ c]) (simp add: run_frames_link del: run_frames.simps(2))
qed

lemma no_errors: "List.map_filter error_text es = [] \<Longrightarrow> work_errors M h j es s = (Inr (), s)"
  by (induction es) (auto simp: op_defs map_filter_simps split: option.splits)

lemma front_clear_open [simp]: "\<not> c_released s \<Longrightarrow> front_clear s = s"
  by (simp add: front_clear_def)

context imux_laws
begin

lemma work_writes_eq: "good h s \<Longrightarrow> flowing s \<Longrightarrow> work_writes M h ds s = link_writes M h ds s"
proof (induction ds arbitrary: s)
  case (Cons d ds)
  obtain t where t: "link_write M h d s = (Inr (), t)" "frame ok wants fits h s t" "flowing s \<longrightarrow> flowing t"
    using link_write_step [OF Cons.prems(1)] by metis
  have "\<not> c_released s"
    using released_empty [OF Cons.prems(1)] Cons.prems(2) by blast
  then show ?case
    using t Cons.IH [OF frame_good [OF t(2)]] Cons.prems(2) by (simp add: work_write_def op_defs)
qed simp

lemma front_block_step:
  assumes "good h s" "flowing s" "c_recursive s = 0" "frames (l_split s) = ([], l_split s)" "d \<noteq> []"
    and "frames (l_split s @ d) = (map enc rs, b)" "list_all sendable rs" "pools_ok sv0"
    and "front_inv ms sv0 ml w out reqs es s"
  shows "\<exists>s'. front_happen M h junk ms (Front_block d ks) s = Some s' \<and> frame ok wants fits h s s' \<and> flowing s'
    \<and> l_split s' = b \<and> front_inv ms sv0 ml w out (reqs @ map req_of rs) es s'"
proof -
  let ?s = "s\<lparr>l_room := ks\<rparr>" let ?e = "entered d ?s" let ?recv = "front_receive M h junk"
  have e: "rest ?e = rest ?s" "good h ?e" "flowing ?e" using assms(1,2) by simp_all
  have more: "f_server ?e = f_server s" "f_ml ?e = f_ml s" "l_rpc ?e = l_rpc s"
    using e(1) front_more [of ?e ?s] by (simp_all add: rest_def)
  have nr: "\<not> c_released ?e" using released_empty [OF e(2)] e(3) by blast
  obtain sv c where run: "run_frames (link_receiver ?recv) (map enc rs) (?e, None) = ((?e\<lparr>f_server := sv, l_rpc := c\<rparr>, None), False)"
    and sv: "pools_inv sv0 (reqs @ map req_of rs) (map snd es) sv" "rworld c = rworld (l_rpc s)"
    using run_lines [OF assms(7,8), of reqs "map snd es" ?e M h junk] assms(9) nr more by (auto simp: front_inv_def)
  define t where "t = snd (ready_read M (link_on_read ?recv) (Data d) (c_rd s) ?s)"
  let ?u = "?e\<lparr>f_server := sv, l_rpc := c\<rparr>"
  have u: "frame ok wants fits h ?e ?u" "emits [] ?e True ?u" "flowing ?u" "\<not> c_released ?u"
    using e nr by (simp_all add: frame_refl emits_refl)
  note br = block_run [OF assms(1-6) refl run u(1,2), of id, folded t_def]
  have fl: "frame ok wants fits h s t" "flowing t"
    using br u(3) by simp_all
  then have "\<not> c_released t" using released_empty [OF frame_good [OF fl(1)]] by blast
  then have t: "frame ok wants fits h s t" "emits [] s True t" "flowing t" "l_rpc t = c" "l_split t = b" "link.more t = link.more ?u"
    using br fl u(4) by simp_all
  note \<open>\<not> c_released t\<close>
  then have "front_happen M h junk ms (Front_block d ks) s = Some t"
    using assms(2) by (simp add: front_happen_def flowing_def t_def)
  moreover have "f_server t = sv" "f_ml t = f_ml s"
    using front_more [OF t(6)] more by simp_all
  moreover have "pending t = pending s" using t(2,3) by (simp add: emits_def)
  ultimately show ?thesis
    using t sv assms(9) by (intro exI [of _ t]) (simp add: front_inv_def)
qed

lemma front_room_step:
  assumes "good h s" "flowing s" "c_recursive s = 0" "front_inv ms sv0 ml w out reqs es s"
  shows "\<exists>s'. front_happen M h junk ms (Front_room k) s = Some s' \<and> frame ok wants fits h s s' \<and> flowing s'
    \<and> l_split s' = l_split s \<and> front_inv ms sv0 ml w out reqs es s'"
proof (cases "c_mux_write s")
  case False
  then show ?thesis
    using assms by (simp add: front_happen_def frame_refl)
next
  case True
  define t where "t = snd (ready_write M h (room [k]) (c_wd s) s)"
  have t: "frame ok wants fits h s t" "emits [] s True t" "flowing t" "\<not> c_released t" "rest t = rest s"
    using room_step [OF assms(1,3) t_def] assms(2) by simp_all
  have "front_happen M h junk ms (Front_room k) s = Some t"
    using True t(4) by (simp add: front_happen_def t_def)
  moreover have "f_server t = f_server s \<and> f_ml t = f_ml s" "l_rpc t = l_rpc s" "l_split t = l_split s"
    using t(5) front_more [of t s] by (simp_all add: rest_def)
  moreover have "pending t = pending s" using t(2,3) by (simp add: emits_def)
  ultimately show ?thesis
    using t assms(4) by (intro exI [of _ t]) (simp add: front_inv_def)
qed

lemma front_work_step:
  assumes "good h s" "flowing s" "c_recursive s = 0" "front_inv ms sv0 ml w out reqs es s"
    and "pools_ok sv0" "list_all (serviceable ms) reqs" "spawned sv0 ! j < length (queues sv0)"
  shows "\<exists>s' es'. front_happen M h junk ms (Work j ks) s = Some s' \<and> frame ok wants fits h s s' \<and> flowing s'
    \<and> l_split s' = l_split s \<and> front_inv ms sv0 ml w out reqs es' s'
    \<and> queues (f_server s') = (queues (f_server s))[spawned sv0 ! j := tl (queues (f_server s) ! (spawned sv0 ! j))]"
proof -
  let ?k = "spawned sv0 ! j" let ?s = "s\<lparr>l_room := ks\<rparr>"
  have inv: "pools_inv sv0 reqs (map snd es) (f_server s)" "pending s = out @ wire (fst (work_all ms es ml w))"
    "snd (work_all ms es ml w) = (f_ml s, rworld (l_rpc s))"
    using assms(4) by (simp_all add: front_inv_def)
  have k: "spawned (f_server s) ! j = ?k"
    using inv(1) by (simp add: pools_inv_def spawned_def)
  have nr: "\<not> c_released s" using released_empty [OF assms(1)] assms(2) by blast
  show ?thesis
  proof (cases "queues (f_server s) ! ?k")
    case Nil
    then have "front_happen M h junk ms (Work j ks) s = Some ?s"
      using k nr by (simp add: front_happen_def front_work_def try_pop_def op_defs)
    then show ?thesis
      using assms(1,2,4) Nil list_update_id [of "queues (f_server s)" ?k]
      by (intro exI [of _ ?s] exI [of _ es]) (simp add: frame_refl front_inv_def)
  next
    case (Cons req q)
    let ?sv = "(f_server s)\<lparr>queues := (queues (f_server s))[?k := q]\<rparr>"
    have pop: "pools_inv sv0 reqs (map snd es @ [req]) ?sv" "req \<in> set reqs"
      using pools_inv_pop [OF inv(1) assms(5,7) Cons] by simp_all
    let ?c = "(f_ml s j)\<lparr>rworld := rworld (l_rpc s), sent := [], events := []\<rparr>"
    have "serviceable ms req" "events ?c = []" using assms(6) pop(2) by (simp_all add: list_all_iff)
    then obtain c where c: "thread_request ms req ?c = Inr ((), c)" "List.map_filter error_text (events c) = []"
      unfolding serviceable_def by blast
    let ?t = "?s\<lparr>f_server := ?sv, f_ml := (f_ml s)(j := c), l_rpc := (l_rpc s)\<lparr>rworld := rworld c\<rparr>\<rparr>"
    have g: "good h ?t" "flowing ?t" using assms(1,2) by simp_all
    obtain s' where s': "link_writes M h (sent c) ?t = (Inr (), s')" "frame ok wants fits h ?t s'" "emits (wire (sent c)) ?t True s'"
      "flowing s'" "l_rpc s' = l_rpc ?t" "l_split s' = l_split ?t" "link.more s' = link.more ?t"
      using link_writes_step [OF g(1)] g(2) by metis
    have "\<not> c_released s'" using released_empty [OF frame_good [OF s'(2)]] s'(4) by blast
    then have "front_happen M h junk ms (Work j ks) s = Some s'"
      using Cons k nr c s'(1) work_writes_eq [OF g]
      by (simp add: front_happen_def front_work_def try_pop_def op_defs no_errors)
    moreover have "pending s' = pending s @ wire (sent c)"
      using s'(3,4) by (simp add: emits_def)
    moreover have "work_all ms (es @ [(j, req)]) ml w = (fst (work_all ms es ml w) @ sent c, (f_ml s)(j := c), rworld c)"
      using inv(3) c(1) by (simp add: work_all_append case_prod_unfold)
    moreover have "f_server s' = ?sv" "f_ml s' = (f_ml s)(j := c)"
      using front_more [OF s'(7)] by simp_all
    ultimately show ?thesis
      using s' pop inv Cons by (intro exI [of _ s'] exI [of _ "es @ [(j, req)]"]) (simp add: front_inv_def)
  qed
qed

lemma front_happens_step:
  assumes "good h s" "flowing s" "c_recursive s = 0" "frames (l_split s) = ([], l_split s)" "list_all (front_steady sv0) xs"
    and "frames (l_split s @ concat (map front_data xs)) = (map enc rs, b)" "list_all sendable rs" "pools_ok sv0"
    and "front_inv ms sv0 ml w out reqs es s" "list_all (serviceable ms) (reqs @ map req_of rs)"
    and "\<forall>j < length (spawned sv0). spawned sv0 ! j < length (queues sv0)"
  shows "\<exists>s' es'. front_happens M h junk ms xs s = Some s' \<and> frame ok wants fits h s s' \<and> flowing s' \<and> l_split s' = b
    \<and> front_inv ms sv0 ml w out (reqs @ map req_of rs) es' s'"
  using assms
proof (induction xs arbitrary: s rs reqs es)
  case Nil
  then show ?case by (auto simp: frame_refl)
next
  case (Cons x xs)
  obtain gs b1 where gs: "frames (l_split s @ front_data x) = (gs, b1)" by fastforce
  have app: "map enc rs = gs @ fst (frames (b1 @ concat (map front_data xs)))" "b = snd (frames (b1 @ concat (map front_data xs)))"
    using frames_append [OF gs, of "concat (map front_data xs)"] Cons.prems(6) by simp_all
  obtain r1 r2 where r: "rs = r1 @ r2" "gs = map enc r1" "fst (frames (b1 @ concat (map front_data xs))) = map enc r2"
    using app(1) by (auto simp: map_eq_append_conv)
  have sv: "list_all sendable r1" "list_all sendable r2" "list_all (serviceable ms) reqs" "list_all (front_steady sv0) xs"
    "list_all (serviceable ms) ((reqs @ map req_of r1) @ map req_of r2)"
    using Cons.prems(5,7,10) r(1) by simp_all
  have "\<exists>t es1. front_happen M h junk ms x s = Some t \<and> frame ok wants fits h s t \<and> flowing t \<and> l_split t = b1
    \<and> front_inv ms sv0 ml w out (reqs @ map req_of r1) es1 t"
  proof (cases x)
    case (Front_block d ks)
    then have d: "d \<noteq> []" "frames (l_split s @ d) = (map enc r1, b1)"
      using Cons.prems(5) gs r(2) by simp_all
    show ?thesis
      using front_block_step [OF Cons.prems(1-4) d sv(1) Cons.prems(8,9)] Front_block by blast
  next
    case (Front_room k)
    then have "r1 = []" "b1 = l_split s" using gs r(2) Cons.prems(4) by simp_all
    then show ?thesis
      using front_room_step [OF Cons.prems(1-3,9), of junk k] Front_room by auto
  next
    case (Work j ks)
    then have "r1 = []" "b1 = l_split s" "j < length (spawned sv0)" using gs r(2) Cons.prems(4,5) by simp_all
    then show ?thesis
      using front_work_step [OF Cons.prems(1-3,9,8) sv(3), of j junk ks] Cons.prems(11) Work by auto
  qed
  then obtain t es1 where t: "front_happen M h junk ms x s = Some t" "frame ok wants fits h s t" "flowing t" "l_split t = b1"
    "front_inv ms sv0 ml w out (reqs @ map req_of r1) es1 t" by blast
  have rec: "c_recursive t = 0" "frames (l_split t) = ([], l_split t)"
    "frames (l_split t @ concat (map front_data xs)) = (map enc r2, b)"
    using t(2,4) Cons.prems(3) frames_rest [OF gs] app(2) r(3) by (simp_all add: frame_def prod_eq_iff)
  from Cons.IH [OF frame_good [OF t(2)] t(3) rec(1,2) sv(4) rec(3) sv(2) Cons.prems(8) t(5) sv(5) Cons.prems(11)]
  show ?case
    using t(1) frame_trans [OF t(2)] r(1) by auto
qed

text \<open>Rounds of the background threads only.\<close>

lemma front_works_step:
  assumes "good h s" "flowing s" "c_recursive s = 0" "list_all (\<lambda>(j, ks). j < length (spawned sv0)) ws" "pools_ok sv0"
    and "front_inv ms sv0 ml w out reqs es s" "list_all (serviceable ms) reqs"
    and "\<forall>j < length (spawned sv0). spawned sv0 ! j < length (queues sv0)"
  shows "\<exists>s' es'. front_happens M h junk ms (map (\<lambda>(j, ks). Work j ks) ws) s = Some s' \<and> frame ok wants fits h s s'
    \<and> flowing s' \<and> front_inv ms sv0 ml w out reqs es' s'
    \<and> (\<forall>k < length (queues sv0). length (queues (f_server s') ! k) =
        length (queues (f_server s) ! k) - length (filter (\<lambda>(j, ks). spawned sv0 ! j = k) ws))"
  using assms
proof (induction ws arbitrary: s es)
  case Nil
  then show ?case by (auto simp: frame_refl)
next
  case (Cons x ws)
  obtain j ks where x: "x = (j, ks)" by (cases x)
  then have j: "spawned sv0 ! j < length (queues sv0)" "list_all (\<lambda>(j, ks). j < length (spawned sv0)) ws"
    using Cons.prems(4,8) by auto
  obtain t es1 where t: "front_happen M h junk ms (Work j ks) s = Some t" "frame ok wants fits h s t" "flowing t"
    "front_inv ms sv0 ml w out reqs es1 t"
    "queues (f_server t) = (queues (f_server s))[spawned sv0 ! j := tl (queues (f_server s) ! (spawned sv0 ! j))]"
    using front_work_step [OF Cons.prems(1-3,6,5,7) j(1), of junk ks] by blast
  have "c_recursive t = 0" using t(2) Cons.prems(3) by (simp add: frame_def)
  from Cons.IH [OF frame_good [OF t(2)] t(3) this j(2) Cons.prems(5) t(4) Cons.prems(7,8)] obtain s' es' where
    s': "front_happens M h junk ms (map (\<lambda>(j, ks). Work j ks) ws) t = Some s'" "frame ok wants fits h t s'" "flowing s'"
    "front_inv ms sv0 ml w out reqs es' s'"
    "\<forall>k < length (queues sv0). length (queues (f_server s') ! k) =
       length (queues (f_server t) ! k) - length (filter (\<lambda>(j, ks). spawned sv0 ! j = k) ws)" by blast
  have len: "length (queues (f_server s)) = length (queues sv0)"
    using Cons.prems(6) by (simp add: front_inv_def pools_inv_def)
  have "\<forall>k < length (queues sv0). length (queues (f_server s') ! k) =
       length (queues (f_server s) ! k) - length (filter (\<lambda>(j, ks). spawned sv0 ! j = k) (x # ws))"
    using s'(5) t(5) x len j(1) by (auto simp: nth_list_update)
  then show ?case
    using t(1) x s' frame_trans [OF t(2) s'(2)] by auto
qed

end

section \<open>What a client can rely on\<close>

lemma init_pools_ok:
  assumes "sv = spawn_queues (server_tcp_init threads server_init)"
  shows "pools_ok sv \<and> length (queues sv) = 2 \<and> queues sv ! 0 = [] \<and> queues sv ! 1 = []
    \<and> (\<forall>j < length (spawned sv). spawned sv ! j < length (queues sv))"
proof -
  have two: "length (queues sv) = 2" using assms init_pools(1) by simp
  have "length (thread_count sv) = 2"
    by (simp add: assms spawn_queues_def server_tcp_init_def Let_def)
  then have "k < 2" if "k \<in> set (spawned sv)" for k
    using that by (auto simp: spawned_def)
  moreover have "queues sv ! 0 = [] \<and> queues sv ! 1 = []"
    by (simp add: assms spawn_queues_def server_tcp_init_def server_init_def Let_def)
  moreover have "pools_ok sv"
    using init_method2thread [of threads] two unfolding pools_ok_def assms
    by (auto simp: get_thread_number_def split: option.splits) (metis zero_le_one one_less_numeral_iff semiring_norm(76))+
  ultimately show ?thesis using two by (simp add: nth_mem)
qed

lemma front_start:
  assumes "imux_laws M ok wants fit" "assignable ok wants fit h d s0" "s = front_assign M h d l a s0"
    and "f_server s0 = spawn_queues (server_tcp_init threads server_init)"
  shows "conn_ok ok wants fit h s \<and> flowing s \<and> c_rd s = d \<and> c_recursive s = 0 \<and> l_split s = [] \<and> \<not> c_released s
    \<and> front_inv ms (f_server s0) (f_ml s0) (rworld (l_rpc s0)) (c_sent s0) [] [] s"
proof -
  have "list_all happening_law []" by simp
  from session_step [OF assms(1,2) this] obtain s1 where
    s1: "session M h d l a [] s0 = happens M h [] s1" "conn_ok ok wants fit h s1" "flowing s1"
    "c_rd s1 = d" "pending s1 = c_sent s0" "c_recursive s1 = 0" "\<not> c_released s1" by metis
  then have s: "s = s1\<lparr>l_split := []\<rparr>" by (simp add: session_def assms(3) front_assign_def)
  have "rest s1 = rest s0"
    using s1(1) by (auto simp: session_def)
  then have "f_server s1 = f_server s0 \<and> f_ml s1 = f_ml s0" "l_rpc s1 = l_rpc s0"
    using front_more [of s1 s0] by (simp_all add: rest_def)
  moreover have "pools_inv (f_server s0) [] [] (f_server s0)"
    using init_pools_ok [OF assms(4)] by (auto simp: pools_inv_def less_2_cases_iff)
  ultimately show ?thesis
    using s1 s by (simp add: front_inv_def)
qed

text \<open>A run from the moment the connection is assigned.\<close>

lemma front_runs:
  assumes "imux_laws M ok wants fit" and "assignable ok wants fit h d s0"
    and "f_server s0 = spawn_queues (server_tcp_init threads server_init)" and "list_all (front_steady (f_server s0)) xs"
    and "frames (concat (map front_data xs)) = (map (\<lambda>x. rn_write (line_of x)) rs, b)"
    and "list_all sendable rs" and "list_all (serviceable ms) (map req_of rs)"
  shows "\<exists>s es. front_happens M h junk ms xs (front_assign M h d l a s0) = Some s \<and> conn_ok ok wants fit h s \<and> flowing s
    \<and> c_recursive s = 0 \<and> wants (c_mx s) Ev_read d = Some h
    \<and> front_inv ms (f_server s0) (f_ml s0) (rworld (l_rpc s0)) (c_sent s0) (map req_of rs) es s"
proof -
  let ?s = "front_assign M h d l a s0" let ?sv = "f_server s0"
  have start: "conn_ok ok wants fit h ?s" "flowing ?s" "c_rd ?s = d" "c_recursive ?s = 0" "l_split ?s = []" "\<not> c_released ?s"
    "front_inv ms ?sv (f_ml s0) (rworld (l_rpc s0)) (c_sent s0) [] [] ?s"
    using front_start [OF assms(1,2) refl assms(3), of l a ms] by simp_all
  have fr: "frames (l_split ?s) = ([], l_split ?s)" "frames (l_split ?s @ concat (map front_data xs)) = (map enc rs, b)"
    "list_all (serviceable ms) ([] @ map req_of rs)"
    using assms(5,7) start(5) by simp_all
  from imux_laws.front_happens_step [OF assms(1) start(1,2,4) fr(1) assms(4) fr(2) assms(6) _ start(7) fr(3), of junk]
    init_pools_ok [OF assms(3)]
  obtain s es where s: "front_happens M h junk ms xs ?s = Some s" "frame ok wants fit h ?s s" "flowing s"
    "front_inv ms ?sv (f_ml s0) (rworld (l_rpc s0)) (c_sent s0) (map req_of rs) es s" by auto
  moreover have "wants (c_mx s) Ev_read d = Some h"
    using unread [of ok wants fit h s] s(2,3) start(3,6) by (simp add: frame_def)
  ultimately show ?thesis
    using start(4) by (intro exI [of _ s] exI [of _ es]) (simp add: frame_def)
qed

text \<open>A front connection under a \<open>selector\<close>, and a method that answers everything.\<close>

definition echo_method :: "unit mmeth" where
  "echo_method = \<lparr>mm_name = ''get'', mm_request = (\<lambda>i d c. Inr ((), writer d c)), mm_notify = (\<lambda>d c. Inr ((), c)),
     mm_has_id = (\<lambda>i. False)\<rparr>"

definition example_front :: "(selector, unit) front" where
  "example_front = link.extend example_link
     (front.fields (spawn_queues (server_tcp_init 8 server_init)) (\<lambda>_. l_rpc example_link))"

definition example_requests :: "(string \<times> int \<times> string) list" where
  "example_requests = [(''get'', 1, ''[1]''), (''get'', 2, ''[2]'')]"

definition example_blocks :: "front_event list" where
  "example_blocks = [Front_block (enc (''get'', 1, ''[1]'') @ ''{'') [], Work 0 [4], Front_room 3,
     Front_block (tl (enc (''get'', 2, ''[2]''))) []]"

lemma example_front_assignable: "assignable sl_ok sl_wants (\<lambda>d. d < FD_SETSIZE) 1 5 example_front"
  using example_link_assignable
  by (simp add: assignable_def idle_def example_front_def link.defs example_link_def conn.defs conn_new_def front.defs)

lemma example_serviceable: "serviceable [echo_method] (request_of ''get'' i p)"
  by (simp add: serviceable_def thread_request_def echo_method_def get_method_number_def method2num_def request_of_def
      writer_def map_filter_simps)

lemma example_stream: "frames (concat (map front_data example_blocks)) = (map (\<lambda>x. rn_write (line_of x)) example_requests, [])"
  by code_simp

lemma example_sendable: "list_all sendable example_requests"
  by code_simp

lemma example_threads: "list_all (front_steady (f_server example_front)) example_blocks \<and> spawned (f_server example_front) = [0, 0, 0, 1, 1, 1]"
  by code_simp

lemma example_server: "f_server example_front = spawn_queues (server_tcp_init 8 server_init)"
  by (simp add: example_front_def link.defs front.defs example_link_def conn.defs)

lemma example_serviceable_all: "list_all (serviceable [echo_method]) (map req_of example_requests)"
  by (simp add: example_requests_def example_serviceable)

lemma example_pool:
  "for_pool (f_server example_front) 0 (map req_of example_requests) = map req_of example_requests"
  "c_sent example_front = []"
  by code_simp+

end
