(* ===== verification/Json_Types.thy ===== *)
theory Json_Types
  imports Multiserver
begin

text \<open>
  The types of what is read. The structures of C++ have types that the model writes as predicates: an integer
  is in the range of its type, a \<open>char[N]\<close> has \<open>N\<close> cells, the keys of an \<open>unordered_map\<close> are distinct. The
  locale \<open>typed_reader\<close> states that a reader keeps them, whatever the input is; every reader of the JSON library
  is an interpretation, and the structures of the requests are built from them.
\<close>

section \<open>The contract\<close>

locale typed_reader =
  fixes J :: "'a codec" and T :: "'a \<Rightarrow> bool"
  assumes reads_typed: "unser J v s = Inr (v', r) \<Longrightarrow> T v \<Longrightarrow> T v'"
begin

text \<open>The readers of sequences, for elements that start from a typed value.\<close>

lemma elements_typed: "elements n J i R s = Inr (xs, r) \<Longrightarrow> T i \<Longrightarrow> list_all T xs"
proof (induction n arbitrary: s xs r)
  case (Suc n)
  then show ?case
    by (auto simp: Let_def split: if_splits prod.splits dest: reads_typed)
qed simp

lemma array_typed:
  assumes "T i" and "U emp" and "\<And>c xs. U c \<Longrightarrow> list_all T xs \<Longrightarrow> U (add_all c xs)"
  shows "typed_reader (array_codec J i L R iter add_all emp) U"
  using assms
  by unfold_locales
     (auto simp: array_codec_def read_elements_def split: if_splits prod.splits dest!: elements_typed)

lemma vector_typed: "T i \<Longrightarrow> typed_reader (vector_codec J i) (list_all T)"
  unfolding vector_codec_def by (rule array_typed) simp_all

lemma fixed_elements_typed: "elements_n n J i R s = Inr (xs, r) \<Longrightarrow> T i \<Longrightarrow> list_all T xs"
proof (induction n arbitrary: s xs r)
  case (Suc n)
  then show ?case
    by (auto simp: Let_def split: if_splits prod.splits dest: reads_typed)
qed simp

end

text \<open>Two readers, one behind the other.\<close>

abbreviation entry_typed :: "('k \<Rightarrow> bool) \<Rightarrow> ('v \<Rightarrow> bool) \<Rightarrow> 'k \<times> 'v \<Rightarrow> bool" where
  "entry_typed A B e \<equiv> A (fst e) \<and> B (snd e)"

locale typed_pair = key: typed_reader K A + val: typed_reader V B
  for K :: "'k codec" and A :: "'k \<Rightarrow> bool" and V :: "'v codec" and B :: "'v \<Rightarrow> bool" +
  fixes k0 :: 'k and v0 :: 'v
  assumes start: "A k0" "B v0"
begin

lemma pair_typed: "typed_reader (pair_codec K V) (entry_typed A B)"
  by unfold_locales
     (auto simp: pair_codec_def Let_def split: if_splits prod.splits dest: key.reads_typed val.reads_typed)

lemma paired_typed: "typed_reader (paired_codec K V k0 v0) (list_all (entry_typed A B))"
proof -
  have "typed_reader (paired_base K V k0 v0) (list_all (entry_typed A B))"
    unfolding paired_base_def by (rule typed_reader.array_typed [OF pair_typed]) (simp_all add: start)
  then show ?thesis
    by (auto simp: typed_reader_def paired_codec_def split: if_splits)
qed

lemma map_insert_typed:
  "distinct (map fst m) \<and> list_all (entry_typed A B) m \<Longrightarrow> list_all (entry_typed A B) xs \<Longrightarrow>
   distinct (map fst (foldl map_insert m xs)) \<and> list_all (entry_typed A B) (foldl map_insert m xs)"
  by (induction xs arbitrary: m) (auto simp: map_insert_def map_of_eq_None_iff)

lemma map_typed: "typed_reader (map_codec iter K V k0 v0) (\<lambda>m. distinct (map fst m) \<and> list_all (entry_typed A B) m)"
  unfolding map_codec_def
  by (rule typed_reader.array_typed [OF pair_typed]) (simp_all add: start map_insert_typed)

end

section \<open>Objects\<close>

text \<open>A structure whose members keep its type.\<close>

locale typed_members =
  fixes L :: "'t json_member list" and t0 :: 't and T :: "'t \<Rightarrow> bool"
  assumes init_typed: "T t0"
    and members_typed: "M \<in> set L \<Longrightarrow> m_unser M t s = Inr (t', r) \<Longrightarrow> T t \<Longrightarrow> T t'"
begin

lemma unserialize_member_typed: "unserialize_member t s M = Inr (t', r, b) \<Longrightarrow> M \<in> set L \<Longrightarrow> T t \<Longrightarrow> T t'"
  by (auto simp: unserialize_member_def split: if_splits prod.splits dest: members_typed)

lemma search_members_typed: "search_members t s ms = Inr (t', r) \<Longrightarrow> set ms \<subseteq> set L \<Longrightarrow> T t \<Longrightarrow> T t'"
proof (induction ms arbitrary: t s)
  case (Cons C R)
  obtain t1 r1 b where c: "unserialize_member t s C = Inr (t1, r1, b)"
    "(if b then Inr (t1, r1) else search_members t1 r1 R) = Inr (t', r)"
    using Cons.prems(1) by auto
  have t1: "T t1" using unserialize_member_typed [OF c(1)] Cons.prems(2,3) by simp
  show ?case
    using Cons.IH [of t1 r1] c(2) t1 Cons.prems(2) by (cases b) simp_all
qed auto

lemma unserialize_members_typed:
  "unserialize_members n L t s ms = Inr (t', r) \<Longrightarrow> set ms \<subseteq> set L \<Longrightarrow> T t \<Longrightarrow> T t'"
proof (induction n arbitrary: t s ms t' r)
  case (Suc n)
  show ?case
  proof (cases ms)
    case (Cons C R)
    from Suc.prems(1) Cons obtain t1 r1 b t2 r2 where
      c: "unserialize_member t s C = Inr (t1, r1, b)"
      "(if b then Inr (t1, r1) else search_members t1 r1 L) = Inr (t2, r2)"
      and n: "t' = t2 \<or> (\<exists>r3. unserialize_members n L t2 (parse_space (tl (parse_space r2))) (if b then R else C # R) = Inr (t', r3))"
      by (auto simp: Let_def split: if_splits)
    have "T t1" using unserialize_member_typed [OF c(1)] Suc.prems(2,3) Cons by simp
    then have t2: "T t2" using c(2) search_members_typed [of t1 r1 L t2 r2] by (cases b) simp_all
    show ?thesis
      using n Suc.IH [of t2 _ "if b then R else C # R" t'] t2 Suc.prems(2) Cons by (cases b) auto
  qed (use Suc.prems in auto)
qed simp

lemma object_typed: "typed_reader (object_codec L t0) T"
  using init_typed
  by unfold_locales
     (auto simp: object_codec_def unserialize_object_def Let_def split: if_splits prod.splits
       dest: unserialize_members_typed)

end

section \<open>The readers of the library\<close>

lemma wrap_in_type: "0 < sizeof t \<Longrightarrow> fits t (wrap t x)"
  by (auto simp: fits_def wrap_def bits_of_def take_bit_int_less_exp signed_take_bit_int_less_exp
      signed_take_bit_int_greater_eq_minus_exp)

lemma zero_in_type: "fits t 0"
  by (simp add: fits_def)

lemma digits_typed: "0 < sizeof t \<Longrightarrow> digits_loop t v s = (v', r) \<Longrightarrow> fits t v \<Longrightarrow> fits t v'"
  by (induction t v s rule: digits_loop.induct) (auto simp: wrap_in_type split: if_splits)

lemma integer_typed: "0 < sizeof t \<Longrightarrow> typed_reader (integer_codec t) (fits t)"
  by unfold_locales
     (auto simp: integer_codec_def unserialize_integer_def Let_def zero_in_type wrap_in_type
       split: if_splits prod.splits dest: digits_typed)

interpretation c_int_type: typed_reader "integer_codec c_int" "fits c_int"
  by (rule integer_typed) simp

interpretation c_ll_type: typed_reader "integer_codec c_long_long" "fits c_long_long"
  by (rule integer_typed) simp

interpretation cells_type: typed_reader "char_array_codec N" "\<lambda>v. length v = N" for N
  by unfold_locales (rule char_array_bounded)

interpretation any_type: typed_reader J "\<lambda>_. True" for J
  by unfold_locales simp

interpretation ll_pair: typed_pair string_codec "\<lambda>_. True" "integer_codec c_long_long" "fits c_long_long" "[]" 0
  by unfold_locales (simp_all add: zero_in_type)

interpretation str_pair: typed_pair string_codec "\<lambda>_. True" strvalue_codec "\<lambda>_. True" "[]" "[]"
  by unfold_locales simp_all

section \<open>The structures of the requests\<close>

definition ints_typed :: "valmap2int \<Rightarrow> bool" where
  "ints_typed = list_all (entry_typed (\<lambda>_. True) (fits c_long_long))"

definition inc_add_typed :: "inc_add \<Rightarrow> bool" where
  "inc_add_typed t \<longleftrightarrow> ints_typed (ia_inc t) \<and> distinct (map fst (ia_def t)) \<and> ints_typed (ia_def t)"

definition update_packed_typed :: "update_packed \<Rightarrow> bool" where
  "update_packed_typed t \<longleftrightarrow> ints_typed (up_inc t) \<and> distinct (map fst (up_def t))"

definition get_range_typed :: "get_range \<Rightarrow> bool" where
  "get_range_typed t \<longleftrightarrow> fits c_int (gr_limit t) \<and> fits c_int (gr_skip t)"

definition req_typed :: "json_rpc_req \<Rightarrow> bool" where
  "req_typed t \<longleftrightarrow> length (jq_jsonrpc t) = 8 \<and> fits c_long_long (jq_id t)"

lemmas typed_defs = inc_add_typed_def update_packed_typed_def get_range_typed_def req_typed_def

interpretation ints_type: typed_reader valmap2int_json ints_typed
  unfolding valmap2int_json_def ints_typed_def by (rule ll_pair.paired_typed)

interpretation int_map_type: typed_reader "valmap2int_map_json iter" "\<lambda>m. distinct (map fst m) \<and> ints_typed m" for iter
  unfolding valmap2int_map_json_def ints_typed_def by (rule ll_pair.map_typed)

interpretation str_map_type: typed_reader "valmap2str_map_json iter"
    "\<lambda>m. distinct (map fst m) \<and> list_all (entry_typed (\<lambda>_. True) (\<lambda>_. True)) m" for iter
  unfolding valmap2str_map_json_def by (rule str_pair.map_typed)

lemma plain_map: "list_all (entry_typed (\<lambda>_. True) (\<lambda>_. True)) m"
  by (simp add: list_all_iff)

lemmas fields_typed = c_int_type.reads_typed c_ll_type.reads_typed cells_type.reads_typed ints_type.reads_typed
  int_map_type.reads_typed [OF _ conjI] str_map_type.reads_typed [OF _ conjI [OF _ plain_map]]

interpretation inc_add_type: typed_members "inc_add_members iteri" inc_add_init inc_add_typed for iteri
proof
  fix M :: "inc_add json_member" and t s t' r
  assume M: "M \<in> set (inc_add_members iteri)" and u: "m_unser M t s = Inr (t', r)" and t: "inc_add_typed t"
  from M consider "M = inc_add_members iteri ! 0" | "M = inc_add_members iteri ! 1"
    by (auto simp: inc_add_members_def)
  then show "inc_add_typed t'"
    using u t by cases (auto simp: inc_add_members_def member_of_def typed_defs dest: fields_typed)
qed (simp add: inc_add_init_def typed_defs ints_typed_def)

interpretation update_packed_type: typed_members "update_packed_members iter" update_packed_init update_packed_typed for iter
proof
  fix M :: "update_packed json_member" and t s t' r
  assume M: "M \<in> set (update_packed_members iter)" and u: "m_unser M t s = Inr (t', r)" and t: "update_packed_typed t"
  from M consider "M = update_packed_members iter ! 0" | "M = update_packed_members iter ! 1"
    | "M = update_packed_members iter ! 2" | "M = update_packed_members iter ! 3"
    by (auto simp: update_packed_members_def)
  then show "update_packed_typed t'"
    using u t by cases (auto simp: update_packed_members_def member_of_def typed_defs dest: fields_typed)
qed (simp add: update_packed_init_def typed_defs ints_typed_def)

interpretation get_range_type: typed_members get_range_members get_range_init get_range_typed
proof
  fix M :: "get_range json_member" and t s t' r
  assume M: "M \<in> set get_range_members" and u: "m_unser M t s = Inr (t', r)" and t: "get_range_typed t"
  from M consider "M = get_range_members ! 0" | "M = get_range_members ! 1" | "M = get_range_members ! 2" | "M = get_range_members ! 3"
    by (auto simp: get_range_members_def)
  then show "get_range_typed t'"
    using u t by cases (auto simp: get_range_members_def member_of_def typed_defs dest: fields_typed)
qed (simp add: get_range_init_def typed_defs fits_def c_int_def bits_of_def)

lemma req_members_typed:
  assumes "M \<in> set json_rpc_req_members" "m_unser M t s = Inr (t', r)" "req_typed t"
  shows "req_typed t'"
proof -
  from assms(1) consider "M = json_rpc_req_members ! 0" | "M = json_rpc_req_members ! 1" | "M = json_rpc_req_members ! 2"
    | "M = json_rpc_req_members ! 3" | "M = json_rpc_req_members ! 4"
    by (auto simp: json_rpc_req_members_def)
  then show ?thesis
    using assms(2,3) by cases (auto simp: json_rpc_req_members_def member_of_def typed_defs dest: fields_typed)
qed

section \<open>Every input is read or refused\<close>

text \<open>A reader returns a typed value or throws; it always returns.\<close>

definition reads_as :: "('a \<Rightarrow> bool) \<Rightarrow> ('a \<times> string) res \<Rightarrow> bool" where
  "reads_as T x \<longleftrightarrow> (case x of Inl e \<Rightarrow> e \<noteq> Fuel_exhausted | Inr (v, r) \<Rightarrow> T v)"

lemma reads_asI: "json_reader J \<Longrightarrow> typed_reader J T \<Longrightarrow> T v \<Longrightarrow> reads_as T (unser J v s)"
  by (auto simp: reads_as_def typed_reader_def json_reader_def split: sum.splits)

lemma req_type: "length junk = 8 \<Longrightarrow> typed_members json_rpc_req_members (json_rpc_req_init junk) req_typed"
  using req_members_typed
  by unfold_locales (auto simp: json_rpc_req_init_def typed_defs fits_def c_long_long_def bits_of_def)

interpretation req_readers: member_readers json_rpc_req_members t0 for t0
proof
  fix M :: "json_rpc_req json_member" and t s t' r
  assume "M \<in> set json_rpc_req_members"
  then consider "M = json_rpc_req_members ! 0" | "M = json_rpc_req_members ! 1" | "M = json_rpc_req_members ! 2"
    | "M = json_rpc_req_members ! 3" | "M = json_rpc_req_members ! 4"
    by (auto simp: json_rpc_req_members_def)
  note cases = this
  show "m_unser M t s \<noteq> Inl Fuel_exhausted"
    by (cases rule: cases) (auto simp: json_rpc_req_members_def bindE_Inl_iff member_of_def cells8.unser_total str.unser_total c_ll.unser_total raw.unser_total)
  show "m_unser M t s = Inr (t', r) \<Longrightarrow> suffix r s"
    by (cases rule: cases) (auto simp: json_rpc_req_members_def member_of_def
        dest: cells8.unser_suffix str.unser_suffix c_ll.unser_suffix raw.unser_suffix)
qed

lemma req_read:
  assumes "length junk = 8"
  shows "reads_as req_typed (unser (json_rpc_req_json junk) (json_rpc_req_init junk) s)"
  unfolding json_rpc_req_json_def
  using req_type [OF assms] by (intro reads_asI req_readers.object_reader)
    (auto intro: typed_members.object_typed typed_members.init_typed)


end
