(* ===== verification/Front_Types.thy ===== *)
theory Front_Types
  imports Front_Laws Json_Types
begin

text \<open>
  The pools stay well formed whatever the clients send: an invariant of the state of the main port that needs no
  hypothesis on the bytes that arrive, on the methods or on the multiplexer.
\<close>

section \<open>What the operations of a connection keep\<close>

definition keeps :: "('s \<Rightarrow> bool) \<Rightarrow> ('s, 'a) op \<Rightarrow> bool" where
  "keeps P f \<longleftrightarrow> (\<forall>s. P s \<longrightarrow> P (snd (f s)))"

lemma keeps_ops [intro]:
  "keeps P (ret x)" "keeps P (raise e)" "(\<And>s. P s \<Longrightarrow> P (f s)) \<Longrightarrow> keeps P (upd f)"
  by (simp_all add: keeps_def op_defs)

lemma keeps_bind [intro]: "keeps P f \<Longrightarrow> (\<And>x. keeps P (g x)) \<Longrightarrow> keeps P (bindS f g)"
  unfolding keeps_def bindS_def by (fastforce split: prod.splits sum.splits)

lemma keeps_catch [intro]: "keeps P f \<Longrightarrow> (\<And>e. keeps P (g e)) \<Longrightarrow> keeps P (catchS f g)"
  unfolding keeps_def catchS_def by (fastforce split: prod.splits sum.splits)

lemma keeps_if [intro]: "keeps P f \<Longrightarrow> keeps P g \<Longrightarrow> keeps P (\<lambda>s. if b s then f s else g s)"
  by (simp add: keeps_def)

lemma keepsD: "keeps P f \<Longrightarrow> P s \<Longrightarrow> f s = (r, t) \<Longrightarrow> P t"
  by (metis keeps_def snd_conv)

lemma keeps_apply: "keeps P f \<Longrightarrow> P s \<Longrightarrow> P (snd (f s))"
  by (simp add: keeps_def)

lemma split_loop_keeps:
  assumes "\<And>m st. Q st \<Longrightarrow> Q (fst (f m st))"
  shows "Q st \<Longrightarrow> Q (fst (snd (split_loop f b i k flag st)))"
proof (induction "length b - size_sep + 1 - i" arbitrary: i k flag st rule: less_induct)
  case less
  obtain st' c where f: "f (take (i + size_sep - k) (drop k b)) st = (st', c)" by fastforce
  have st': "Q st'" using assms [OF less.prems] f by (metis fst_conv)
  consider "\<not> i < length b - size_sep + 1" | "i < length b - size_sep + 1" by blast
  then show ?case
  proof cases
    case 2
    then have "length b - size_sep + 1 - (i + 1) < length b - size_sep + 1 - i" by simp
    note IH = less.hyps [OF this]
    show ?thesis
      using IH [OF st', of "i + size_sep" True] IH [OF less.prems, of k flag] st' f 2
      by (subst split_loop.simps) simp
  qed (use less.prems in \<open>subst split_loop.simps, simp\<close>)
qed

text \<open>A property of the part of the state that the connection does not know.\<close>

locale beyond_connection =
  fixes P :: "('m, 'w, 'z) link_scheme \<Rightarrow> bool"
  assumes beyond: "link.more t = link.more s \<Longrightarrow> P s \<Longrightarrow> P t"
begin

lemma keeps_rest: "(\<And>s. rest (snd (f s)) = rest s) \<Longrightarrow> keeps P f"
  unfolding keeps_def rest_def using beyond by blast

lemma keeps_link [intro]: "keeps P (link_put M h d)" "keeps P (link_write M h d)" "keeps P (release M)"
proof -
  have "keeps P (seqS (mux_write_data M h net d) (upd (\<lambda>s. s\<lparr>l_room := tl (l_room s)\<rparr>)))" for net d
    by (intro keeps_bind keeps_ops keeps_rest) (auto intro: beyond)
  then show put: "keeps P (link_put M h d)" for d
    by (simp add: keeps_def link_put_def)
  then show "keeps P (link_write M h d)" by (simp add: link_write_def)
  show "keeps P (release M)" by (rule keeps_rest) simp
qed

lemma keeps_guarded: "keeps P body \<Longrightarrow> keeps P (guarded M body)"
  unfolding guarded_def ad_exception_def
  by (intro keeps_catch keeps_if keeps_bind keeps_ops keeps_link) (auto intro: beyond)

lemma keeps_buf_read:
  assumes "\<And>d. keeps P (on_read d)"
  shows "keeps P (buf_read on_read inp)"
proof -
  have fields: "keeps P (upd (\<lambda>s. lock_buffer (s\<lparr>c_rbuf := resize read_size (c_rbuf s)\<rparr>)))" "keeps P (upd unlock_buffer)"
    "keeps P (upd (\<lambda>s. s\<lparr>c_rbuf := d @ drop (length d) (c_rbuf s)\<rparr>))" for d
    by (simp_all add: keeps_rest lock_buffer_def unlock_buffer_def)
  have "keeps P (ad_file_read inp)"
    by (rule keeps_rest) (simp add: ad_file_read_def split: sum.splits)
  moreover have "keeps P (if 0 < rs then case inp of Data d \<Rightarrow>
      seqS (upd (\<lambda>s. s\<lparr>c_rbuf := d @ drop (length d) (c_rbuf s)\<rparr>)) (seqS (on_read d) (ret rs)) | Rfail _ \<Rightarrow> ret rs
    else ret rs)" for rs :: int
    by (cases inp) (auto intro!: keeps_bind fields(3) assms)
  ultimately have "keeps P (binary_read on_read inp)"
    unfolding binary_read_def by (rule keeps_bind)
  then show ?thesis
    unfolding buf_read_def by (intro keeps_bind keeps_catch keeps_ops fields)
qed

lemma keeps_ready_read:
  assumes "\<And>d. keeps P (on_read d)"
  shows "keeps P (ready_read M on_read inp d)"
proof -
  have "keeps P (mux_read M on_read inp)"
    unfolding mux_read_def by (intro keeps_bind keeps_buf_read assms keeps_ops) (rule keeps_rest, simp)
  then have "keeps P (guarded M (seqS (mux_read M on_read inp) (ret ())))"
    by (intro keeps_guarded keeps_bind keeps_ops)
  moreover have "keeps P (wrong_descriptor M msg)" for msg
    unfolding wrong_descriptor_def by (rule keeps_rest) simp
  ultimately show ?thesis by (simp add: keeps_def ready_read_def)
qed

lemma keeps_ready_write: "keeps P (ready_write M h net d)"
proof -
  have "keeps P (guarded M (seqS (mux_write M h net) (ret ())))"
    by (intro keeps_guarded keeps_bind keeps_ops) (rule keeps_rest, simp)
  moreover have "keeps P (wrong_descriptor M msg)" for msg
    unfolding wrong_descriptor_def by (rule keeps_rest) simp
  ultimately show ?thesis by (simp add: keeps_def ready_write_def)
qed

lemma keeps_on_read:
  assumes "\<And>m. keeps P (receive m)"
  shows "keeps P (link_on_read receive d)"
proof -
  let ?Q = "\<lambda>(s, ex). P s"
  have "?Q st \<Longrightarrow> ?Q (fst (link_receiver receive m st))" for m st
    using assms [of m] by (auto simp: link_receiver_def keeps_def split: prod.splits sum.splits)
  note loop = split_loop_keeps [where Q = ?Q, OF this]
  have "?Q st \<Longrightarrow> ?Q (fst (snd (split_parse (link_receiver receive) b i k st)))" for b i k st
    using loop by (simp add: split_parse_def)
  then have "?Q st \<Longrightarrow> ?Q (snd (splitter (link_receiver receive) b d st))" for b st
    by (simp add: splitter_def Let_def case_prod_unfold)
  then show ?thesis
    by (auto simp: keeps_def link_on_read_def case_prod_unfold intro: beyond)
qed

end

section \<open>The pools\<close>

definition pools_typed :: "server \<Rightarrow> server \<Rightarrow> bool" where
  "pools_typed sv0 sv \<longleftrightarrow> method2thread sv = method2thread sv0 \<and> thread_count sv = thread_count sv0
     \<and> length (queues sv) = length (queues sv0)
     \<and> (\<forall>k < length (queues sv). list_all (\<lambda>r. req_typed r \<and> get_thread_number sv0 (jq_method r) = int k) (queues sv ! k))"

interpretation pools: beyond_connection "\<lambda>s :: ('m, 'w) front. pools_typed sv0 (f_server s)" for sv0
  by unfold_locales (metis front_more)

lemma push_typed:
  assumes "pools_typed sv0 sv" "req_typed req" "push_queue req sv = Inr sv'"
  shows "pools_typed sv0 sv'"
proof -
  let ?k = "nat (get_thread_number sv (jq_method req))"
  have g: "get_thread_number sv m = get_thread_number sv0 m" for m
    using assms(1) by (simp add: pools_typed_def get_thread_number_def)
  have "sv' = sv\<lparr>queues := (queues sv)[?k := queues sv ! ?k @ [req]]\<rparr>" "0 \<le> get_thread_number sv (jq_method req)" "?k < length (queues sv)"
    using assms(3) by (auto simp: push_queue_def Let_def split: if_splits)
  then show ?thesis
    using assms(1,2) by (auto simp: pools_typed_def nth_list_update g)
qed

lemma pop_typed:
  assumes "pools_typed sv0 sv" "try_pop k sv = (r, sv')"
  shows "pools_typed sv0 sv'"
proof (cases "queues sv ! k")
  case (Cons req q)
  show ?thesis
  proof (cases "k < length (queues sv)")
    case True
    then have "list_all (\<lambda>r. req_typed r \<and> get_thread_number sv0 (jq_method r) = int k) (req # q)"
      using assms(1) unfolding pools_typed_def Cons [symmetric] by simp
    then show ?thesis
      using assms Cons True by (auto simp: try_pop_def pools_typed_def nth_list_update)
  qed (use assms Cons in \<open>auto simp: try_pop_def pools_typed_def list_update_beyond\<close>)
qed (use assms in \<open>simp add: try_pop_def\<close>)

lemma queued_typed:
  assumes "pools_typed sv0 sv" "length junk = 8" "ad_invoke_first junk m sv c = Inr (sv', c')"
  shows "pools_typed sv0 sv'"
  using assms req_read [OF assms(2), of m]
  by (auto simp: ad_invoke_first_def reads_as_def split: sum.splits if_splits prod.splits dest: push_typed)

section \<open>The main port keeps them\<close>

abbreviation pools_kept :: "server \<Rightarrow> (('m, 'w) front, 'a) op \<Rightarrow> bool" where
  "pools_kept sv0 \<equiv> keeps (\<lambda>s. pools_typed sv0 (f_server s))"

lemma server_upd: "(\<And>s. f_server (f s) = f_server s) \<Longrightarrow> pools_kept sv0 (upd f)"
  by (rule keeps_ops) simp

lemma front_errors_keep: "pools_kept sv0 (front_errors M h es)"
  by (induction es) (auto simp: front_error_def split: option.splits)

lemma work_write_keep [intro]: "pools_kept sv0 (work_write M h d)"
  using pools.keeps_link(2) [of sv0 M h d] by (auto simp: keeps_def work_write_def op_defs)

lemma work_writes_keep: "pools_kept sv0 (work_writes M h ds)"
  by (induction ds) auto

lemma work_errors_keep: "pools_kept sv0 (work_errors M h j es)"
  by (induction es) (auto simp: work_error_def split: option.splits intro!: keeps_bind server_upd)

lemma front_receive_keeps:
  assumes "length junk = 8"
  shows "pools_kept sv0 (front_receive M h junk m :: (('m, 'w) front, unit) op)"
  unfolding keeps_def
proof (intro allI impI)
  fix s :: "('m, 'w) front"
  assume s: "pools_typed sv0 (f_server s)"
  show "pools_typed sv0 (f_server (snd (front_receive M h junk m s)))"
  proof (cases "ad_invoke_first junk m (f_server s) ((l_rpc s)\<lparr>events := []\<rparr>)")
    case (Inl x)
    then show ?thesis using s by (cases x) (simp add: front_receive_def op_defs)
  next
    case (Inr x)
    obtain sv c where x: "x = (sv, c)" by (cases x)
    have "pools_typed sv0 sv" using queued_typed [OF s assms] Inr x by blast
    then show ?thesis
      using Inr x keeps_apply [OF front_errors_keep, of sv0 "s\<lparr>f_server := sv, l_rpc := c\<rparr>" M h "events c"]
      by (simp add: front_receive_def op_defs)
  qed
qed

lemma front_work_keeps: "pools_kept sv0 (front_work M h ms j :: (('m, 'w) front, unit) op)"
  unfolding keeps_def
proof (intro allI impI)
  fix s :: "('m, 'w) front"
  assume s: "pools_typed sv0 (f_server s)"
  obtain r sv where p: "try_pop (spawned (f_server s) ! j) (f_server s) = (r, sv)" by fastforce
  have sv: "pools_typed sv0 sv" by (rule pop_typed [OF s p])
  let ?rest = "\<lambda>c :: 'w rpc. seqS (upd (\<lambda>s. s\<lparr>f_ml := (f_ml s)(j := c), l_rpc := (l_rpc s)\<lparr>rworld := rworld c\<rparr>\<rparr>))
      (seqS (work_writes M h (sent c)) (work_errors M h j (events c)))"
  have "pools_kept sv0 (?rest c)" for c
    by (intro keeps_bind work_writes_keep work_errors_keep server_upd) simp
  then have "pools_typed sv0 (f_server (snd (?rest c (s\<lparr>f_server := sv\<rparr>))))" for c
    by (rule keeps_apply) (simp add: sv)
  then show "pools_typed sv0 (f_server (snd (front_work M h ms j s)))"
    using s p sv by (auto simp: front_work_def Let_def ret_def raise_def split: option.splits sum.splits)
qed

lemma front_clear_server [simp]: "f_server (front_clear s) = f_server s"
  by (simp add: front_clear_def)

lemma front_happen_keeps:
  assumes "length junk = 8" "pools_typed sv0 (f_server s)" "front_happen M h junk ms x s = Some t"
  shows "pools_typed sv0 (f_server t)"
proof (cases x)
  case (Front_block d ks)
  have "pools_kept sv0 (ready_read M (link_on_read (front_receive M h junk)) (Data d) (c_rd s))"
    by (intro pools.keeps_ready_read pools.keeps_on_read front_receive_keeps assms(1))
  from keeps_apply [OF this, of "s\<lparr>l_room := ks\<rparr>"] show ?thesis
    using assms(2,3) Front_block by (auto simp: front_happen_def split: if_splits)
next
  case (Front_room k)
  have "pools_kept sv0 (ready_write M h (room [k]) (c_wd s))" by (rule pools.keeps_ready_write)
  then show ?thesis
    using assms(2,3) Front_room by (auto simp: front_happen_def keeps_def split: if_splits)
next
  case (Work j ks)
  then show ?thesis
    using assms(2,3) keepsD [OF front_work_keeps, of sv0 "s\<lparr>l_room := ks\<rparr>" M h ms j]
    by (auto simp: front_happen_def split: prod.splits sum.splits)
qed

lemma front_happens_keeps:
  "length junk = 8 \<Longrightarrow> pools_typed sv0 (f_server s) \<Longrightarrow> front_happens M h junk ms xs s = Some t \<Longrightarrow> pools_typed sv0 (f_server t)"
  by (induction xs arbitrary: s) (auto split: option.splits dest: front_happen_keeps)

text \<open>
  C9. The pools of the main port stay well formed whatever happens: for any bytes from the client, cut in any
  way, complete requests or not, for any methods, any multiplexer and any interleaving with the threads of the
  pools, every request that waits is in the queue of the pool that serves its method, its id is within the
  range of \<open>long long\<close>, the array \<open>jsonrpc\<close> has its eight cells, and no queue is lost or added.\<close>

theorem main_port_typed:
  assumes "length junk = 8" and "f_server s0 = spawn_queues (server_tcp_init threads server_init)"
    and "front_happens M h junk ms xs s0 = Some s" and "k < 2" and "r \<in> set (queues (f_server s) ! k)"
  shows "get_thread_number (f_server s0) (jq_method r) = int k \<and> length (jq_jsonrpc r) = 8
    \<and> - (2 ^ 63) \<le> jq_id r \<and> jq_id r < 2 ^ 63 \<and> length (queues (f_server s)) = 2"
proof -
  have "pools_typed (f_server s0) (f_server s0)"
    using init_pools_ok [OF assms(2)] by (auto simp: pools_typed_def less_2_cases_iff)
  from front_happens_keeps [OF assms(1) this assms(3)] show ?thesis
    using init_pools_ok [OF assms(2)] assms(4,5)
    by (simp add: pools_typed_def list_all_iff req_typed_def fits_def c_long_long_def bits_of_def)
qed

lemma front_assign_server: "f_server (front_assign M h d l a s) = f_server s"
  using rest_assign [of M h d l a s] front_more [of "snd (assign M h d l a s)" s] by (simp add: front_assign_def rest_def)

text \<open>Two requests arrive in one block and wait.\<close>

definition example_block :: string where
  "example_block = concat (map (\<lambda>x. rn_write (line_of x)) example_requests)"

lemma example_block_frames: "frames example_block = (map (\<lambda>x. rn_write (line_of x)) example_requests, [])" "example_block \<noteq> []"
  by code_simp+

lemma example_front_waiting:
  "\<exists>s. front_happens selector_mux 1 junk [echo_method] [Front_block example_block []] (front_assign selector_mux 1 5 [] [] example_front) = Some s
     \<and> queues (f_server s) ! 0 = map req_of example_requests"
proof -
  let ?s = "front_assign selector_mux 1 5 [] [] example_front"
  note pools = init_pools_ok [OF example_server]
  note start = front_start [OF sel.imux_laws_axioms example_front_assignable refl example_server, of "[]" "[]" "[echo_method]"]
  then have s: "conn_ok sl_ok sl_wants (\<lambda>d. d < FD_SETSIZE) 1 ?s" "flowing ?s" "c_recursive ?s = 0" "frames (l_split ?s) = ([], l_split ?s)"
    "frames (l_split ?s @ example_block) = (map (\<lambda>x. rn_write (line_of x)) example_requests, [])"
    "front_inv [echo_method] (f_server example_front) (f_ml example_front) (rworld (l_rpc example_front)) (c_sent example_front) [] [] ?s"
    using example_block_frames by simp_all
  from sel.front_block_step [OF s(1-4) example_block_frames(2) s(5) example_sendable conjunct1 [OF pools] s(6), of junk "[]"]
  obtain t where "front_happen selector_mux 1 junk [echo_method] (Front_block example_block []) ?s = Some t"
    "pools_inv (f_server example_front) (map req_of example_requests) [] (f_server t)"
    by (auto simp: front_inv_def)
  moreover from this(2) have "queues (f_server t) ! 0 = map req_of example_requests"
    using pools example_pool(1) by (simp add: pools_inv_def)
  ultimately show ?thesis by simp
qed

theorem main_port_typed_witness:
  "\<exists>s. front_happens selector_mux 1 ''01234567'' [echo_method] [Front_block example_block []]
      (front_assign selector_mux 1 5 [] [] example_front) = Some s
    \<and> map jq_id (queues (f_server s) ! 0) = [1, 2] \<and> length (queues (f_server s)) = 2
    \<and> length (jq_jsonrpc (queues (f_server s) ! 0 ! 1)) = 8"
proof -
  obtain s where s: "front_happens selector_mux 1 ''01234567'' [echo_method] [Front_block example_block []]
      (front_assign selector_mux 1 5 [] [] example_front) = Some s" "queues (f_server s) ! 0 = map req_of example_requests"
    using example_front_waiting by blast
  show ?thesis
    using front_assign_server [of selector_mux 1 5 "[]" "[]" example_front] main_port_typed [OF _ _ s(1), of 8 0 "queues (f_server s) ! 0 ! 1"] s example_server
    by (auto simp: example_requests_def request_of_def)
qed

end
