(* ===== verification/Sockets.thy ===== *)
theory Sockets
  imports Server_Runs Json_Number
begin

text \<open>
  Addresses and sockets, \<open>fas/system/inet.hpp\<close>, and what the servers do with them: opening the listening socket
  (\<open>server_base::_start\<close>), setting up an accepted one (\<open>server_base::_accept\<close>), opening the socket of the UDP server
  (\<open>common/udp.hpp\<close>).

  An address is the bytes of a \<open>sockaddr_in\<close> on a little-endian machine. The sockets of the kernel are a map from
  descriptors to their options. Which system call fails, and with which code, is a parameter \<open>w\<close>; so are the answers of
  \<open>inet_addr\<close> and \<open>gethostbyname\<close>. The text of an exception is the part before \<open>strerror\<close>.
\<close>

section \<open>Addresses\<close>

definition AF_INET :: int where "AF_INET = 2"
definition AF_INET6 :: int where "AF_INET6 = 10"

text \<open>\<open>htons\<close>, as the bytes in memory.\<close>

definition htons :: "16 word \<Rightarrow> string" where
  "htons port = [char_of (unat port div 256), char_of (unat port mod 256)]"

definition sockaddr_in :: "int \<Rightarrow> string \<Rightarrow> 16 word \<Rightarrow> string" where
  "sockaddr_in family ip port = [char_of (nat family), NUL] @ htons port @ ip @ replicate 8 NUL"

definition create_address :: "16 word \<Rightarrow> int \<Rightarrow> string res" where
  "create_address port np =
     (if np = AF_INET6 then Inl (Runtime_error ''fas::system::inet::create_address: IPv6 unsupported'')
      else if np = AF_INET then Inr (sockaddr_in AF_INET (replicate 4 NUL) port)
      else Inl (Runtime_error ''fas::system::inet::create_address: unknown net protocol''))"

text \<open>A host by name: \<open>gethostbyname\<close> gives the family, \<open>h_length\<close> and the bytes of the first address.\<close>

definition create_address_of ::
  "(string \<Rightarrow> string option) \<Rightarrow> (string \<Rightarrow> (int \<times> nat \<times> string) option) \<Rightarrow> string \<Rightarrow> 16 word \<Rightarrow> int \<Rightarrow> string res" where
  "create_address_of inet_addr gethostbyname host port np =
     (if np = AF_INET6 then Inl (Runtime_error ''fas::system::inet::create_address: IPv6 unsupported'')
      else if np = AF_INET
      then (case inet_addr host of
          Some ip \<Rightarrow> Inr (sockaddr_in AF_INET ip port)
        | None \<Rightarrow> (case gethostbyname host of
            Some (family, len, bytes) \<Rightarrow>
              if len < 1 then Inl (Runtime_error ''can not get address by name (gethostbyname) '')
              else Inr (sockaddr_in family (take 4 bytes) port)
          | None \<Rightarrow> Inl (Runtime_error ''can not get address by name (gethostbyname) '')))
      else Inl (Logic_error ''fas::system::inet::create_address: unknown net protocol''))"

text \<open>\<open>inet_ntoa\<close> of the C library.\<close>

fun inet_ntoa :: "string \<Rightarrow> string" where
  "inet_ntoa [] = []"
| "inet_ntoa [b] = decimal (int (byte b))"
| "inet_ntoa (b # bs) = decimal (int (byte b)) @ CHR ''.'' # inet_ntoa bs"

definition address2string :: "string \<Rightarrow> string option" where
  "address2string addr = (if length addr < 4 then None else Some (inet_ntoa (take 4 addr)))"

text \<open>What an address says.\<close>

definition port_of :: "string \<Rightarrow> 16 word" where
  "port_of a = of_nat (byte (a ! 2) * 256 + byte (a ! 3))"

definition ip_of :: "string \<Rightarrow> string" where
  "ip_of a = take 4 (drop 4 a)"

section \<open>System calls\<close>

datatype sys_call =
  Sys_socket | Sys_bind | Sys_listen | Sys_reuseaddr | Sys_nodelay | Sys_keepalive | Sys_getfl | Sys_setfl | Sys_rcvbuf

record sock =
  so_nonblock :: bool
  so_reuse :: bool
  so_nodelay :: bool
  so_keepalive :: bool
  so_rcvbuf :: bool
  so_bound :: "string option"
  so_listen :: "int option"

type_synonym socks = "nat \<rightharpoonup> sock"

definition new_sock :: sock where
  "new_sock = \<lparr>so_nonblock = False, so_reuse = False, so_nodelay = False, so_keepalive = False, so_rcvbuf = False,
     so_bound = None, so_listen = None\<rparr>"

definition on_sock :: "nat \<Rightarrow> (sock \<Rightarrow> sock) \<Rightarrow> socks \<Rightarrow> socks" where
  "on_sock d f K = K(d := map_option f (K d))"

text \<open>A call that throws when it fails.\<close>

definition sys :: "(sys_call \<Rightarrow> errno option) \<Rightarrow> sys_call \<Rightarrow> string \<Rightarrow> (socks \<Rightarrow> socks) \<Rightarrow> (socks, unit) op" where
  "sys w c msg f = (case w c of None \<Rightarrow> upd f | Some e \<Rightarrow> raise (Runtime_error msg))"

definition inet_socket :: "(sys_call \<Rightarrow> errno option) \<Rightarrow> nat \<Rightarrow> (socks, nat) op" where
  "inet_socket w d = seqS (sys w Sys_socket ''fas::system::inet::socket: '' (\<lambda>K. K(d \<mapsto> new_sock))) (ret d)"

definition inet_listen :: "(sys_call \<Rightarrow> errno option) \<Rightarrow> nat \<Rightarrow> int \<Rightarrow> (socks, unit) op" where
  "inet_listen w d n = sys w Sys_listen ''fas::system::inet::listen: '' (on_sock d (\<lambda>s. s\<lparr>so_listen := Some n\<rparr>))"

definition inet_bind :: "(sys_call \<Rightarrow> errno option) \<Rightarrow> nat \<Rightarrow> string \<Rightarrow> (socks, unit) op" where
  "inet_bind w d a = sys w Sys_bind ''fas::system::inet::bind: '' (on_sock d (\<lambda>s. s\<lparr>so_bound := Some a\<rparr>))"

definition inet_reuseaddr :: "(sys_call \<Rightarrow> errno option) \<Rightarrow> nat \<Rightarrow> (socks, unit) op" where
  "inet_reuseaddr w d = sys w Sys_reuseaddr ''fas::system::inet::reuseaddr: '' (on_sock d (\<lambda>s. s\<lparr>so_reuse := True\<rparr>))"

definition inet_nodelay :: "(sys_call \<Rightarrow> errno option) \<Rightarrow> nat \<Rightarrow> (socks, unit) op" where
  "inet_nodelay w d = sys w Sys_nodelay ''fas::system::inet::tcp_nodelay: '' (on_sock d (\<lambda>s. s\<lparr>so_nodelay := True\<rparr>))"

definition inet_keepalive :: "(sys_call \<Rightarrow> errno option) \<Rightarrow> nat \<Rightarrow> bool \<Rightarrow> (socks, unit) op" where
  "inet_keepalive w d b = sys w Sys_keepalive ''fas::system::inet::keepalive: '' (on_sock d (\<lambda>s. s\<lparr>so_keepalive := b\<rparr>))"

text \<open>The flags are read first, then written.\<close>

definition inet_nonblock :: "(sys_call \<Rightarrow> errno option) \<Rightarrow> nat \<Rightarrow> (socks, unit) op" where
  "inet_nonblock w d = seqS (sys w Sys_getfl ''fas::system::inet::nonblock: '' id)
     (sys w Sys_setfl ''fas::system::inet::nonblock: '' (on_sock d (\<lambda>s. s\<lparr>so_nonblock := True\<rparr>)))"

text \<open>\<open>send\<close> starts again when it is interrupted; \<open>rs\<close> are the answers to its calls.\<close>

fun inet_send :: "sysret list \<Rightarrow> int res" where
  "inet_send [] = Inl Fuel_exhausted"
| "inet_send (r # rs) = (case r of
     Fail EINTR \<Rightarrow> inet_send rs
   | Fail e \<Rightarrow> failed ''fas::system::inet::send: '' e
   | Ret n \<Rightarrow> Inr (int n))"

definition inet_recv :: "sysread \<Rightarrow> int res" where
  "inet_recv r = (case r of Data d \<Rightarrow> Inr (int (length d)) | Rfail e \<Rightarrow> failed ''fas::system::inet::recv: '' e)"

definition ECONNREFUSED :: errno where "ECONNREFUSED = Eother 111"

definition inet_recvfrom :: "sysread \<Rightarrow> int res" where
  "inet_recvfrom r = (case r of
     Data d \<Rightarrow> Inr (int (length d))
   | Rfail e \<Rightarrow> if e \<noteq> EWOULDBLOCK \<and> e \<noteq> EAGAIN \<and> e \<noteq> ECONNREFUSED
               then Inl (Runtime_error ''fas::system::inet::recvfrom: '') else Inr (-1))"

definition inet_sendto :: "sysret \<Rightarrow> int res" where
  "inet_sendto r = (case r of
     Ret n \<Rightarrow> Inr (int n)
   | Fail e \<Rightarrow> if e \<noteq> EWOULDBLOCK \<and> e \<noteq> EAGAIN \<and> e \<noteq> ECONNREFUSED
              then Inl (Runtime_error ''fas::system::inet::sendto: '') else Inr (-1))"

definition inet_select :: "sysret \<Rightarrow> int res" where
  "inet_select r = (case r of
     Ret n \<Rightarrow> Inr (int n)
   | Fail e \<Rightarrow> if e = EINTR then Inr 0 else Inl (Runtime_error ''fas::system::inet::select:''))"

section \<open>Opening a server\<close>

record 'm listener =
  ls_server :: "'m tcp_server"
  ls_socks :: socks
  ls_nonblock :: bool
  ls_keepalive :: bool
  ls_queue :: int

definition on_socks :: "(socks, 'a) op \<Rightarrow> ('m listener, 'a) op" where
  "on_socks f v = (case f (ls_socks v) of (r, K) \<Rightarrow> (r, v\<lparr>ls_socks := K\<rparr>))"

definition on_server :: "('m tcp_server, 'a) op \<Rightarrow> ('m listener, 'a) op" where
  "on_server f v = (case f (ls_server v) of (r, s) \<Rightarrow> (r, v\<lparr>ls_server := s\<rparr>))"

text \<open>\<open>server_base::_start\<close>: \<open>d\<close> is the descriptor the kernel gives.\<close>

definition server_open :: "'m imux \<Rightarrow> (sys_call \<Rightarrow> errno option) \<Rightarrow> nat \<Rightarrow> ('m listener, unit) op" where
  "server_open M w d v =
     (if sv_started (ls_server v) then ret () v
      else seqS (on_socks (inet_socket w d))
        (seqS (on_server (upd (\<lambda>s. s\<lparr>sv_listen := Some d, sv_fds := insert d (sv_fds s)\<rparr>)))
        (seqS (on_socks (inet_reuseaddr w d))
        (seqS (if ls_nonblock v then on_socks (inet_nonblock w d) else ret ())
        (seqS (on_socks (inet_bind w d (sv_local (ls_server v))))
        (seqS (on_socks (inet_listen w d (ls_queue v)))
          (on_server (server_start M d))))))) v)"

definition server_open_port ::
  "'m imux \<Rightarrow> (sys_call \<Rightarrow> errno option) \<Rightarrow> (string \<Rightarrow> string option) \<Rightarrow> (string \<Rightarrow> (int \<times> nat \<times> string) option) \<Rightarrow> nat \<Rightarrow>
   string \<Rightarrow> 16 word \<Rightarrow> ('m listener, unit) op" where
  "server_open_port M w inet_addr gethostbyname d host port v =
     (if sv_started (ls_server v) then ret () v
      else case (if host \<noteq> [] then create_address_of inet_addr gethostbyname host port AF_INET else create_address port AF_INET) of
        Inl e \<Rightarrow> raise e v
      | Inr a \<Rightarrow> seqS (on_server (upd (\<lambda>s. s\<lparr>sv_local := a\<rparr>))) (server_open M w d) v)"

text \<open>\<open>server_base::_accept\<close> with the options of the new socket.\<close>

definition accept_client ::
  "'m imux \<Rightarrow> (sys_call \<Rightarrow> errno option) \<Rightarrow> nat \<Rightarrow> 'm conn \<Rightarrow> exn + (nat \<times> string) option \<Rightarrow> ('m listener, nat option) op" where
  "accept_client M w fresh proto accepted v =
     (if \<not> sv_started (ls_server v) then ret None v
      else case accepted of
        Inl e \<Rightarrow> raise e v
      | Inr None \<Rightarrow> ret None v
      | Inr (Some (d, a)) \<Rightarrow>
          seqS (on_server (upd (\<lambda>s. s\<lparr>sv_fds := insert d (sv_fds s)\<rparr>)))
          (seqS (on_socks (upd (\<lambda>K. K(d \<mapsto> new_sock)))) (\<lambda>v.
            if sv_max (ls_server v) \<le> card (pl_active (sv_pool (ls_server v)))
            then seqS (on_server (server_close M d)) (ret None) v
            else seqS (if ls_nonblock v then on_socks (inet_nonblock w d) else ret ())
              (seqS (on_socks (inet_nodelay w d))
              (seqS (if ls_keepalive v then on_socks (inet_keepalive w d True) else ret ())
              (bindS (on_server (server_create fresh proto)) (\<lambda>pc. case pc of
                 None \<Rightarrow> ret None
               | Some i \<Rightarrow> seqS (on_server (on_conn i (assign M i d (sv_local (ls_server v)) a))) (ret (Some i)))))) v)) v)"

section \<open>The UDP server\<close>

record udp_socket =
  ud_socks :: socks
  ud_udp :: "nat option"
  ud_local :: string

definition on_udp :: "(socks, 'a) op \<Rightarrow> (udp_socket, 'a) op" where
  "on_udp f v = (case f (ud_socks v) of (r, K) \<Rightarrow> (r, v\<lparr>ud_socks := K\<rparr>))"

text \<open>A failure to enlarge the buffer is reported and ignored; \<open>watch\<close> registers the descriptor.\<close>

definition udp_start ::
  "(sys_call \<Rightarrow> errno option) \<Rightarrow> (string \<Rightarrow> string option) \<Rightarrow> (string \<Rightarrow> (int \<times> nat \<times> string) option) \<Rightarrow> bool \<Rightarrow> nat \<Rightarrow>
   string \<Rightarrow> 16 word \<Rightarrow> (nat \<Rightarrow> unit res) \<Rightarrow> (udp_socket, unit) op" where
  "udp_start w inet_addr gethostbyname nb d host port watch =
     seqS (on_udp (inet_socket w d))
     (seqS (upd (\<lambda>v. v\<lparr>ud_udp := Some d\<rparr>))
     (seqS (if nb then on_udp (inet_nonblock w d) else ret ())
     (seqS (on_udp (upd (if w Sys_rcvbuf = None then on_sock d (\<lambda>s. s\<lparr>so_rcvbuf := True\<rparr>) else id)))
     (bindS (\<lambda>v. (create_address_of inet_addr gethostbyname host port AF_INET, v)) (\<lambda>a.
      seqS (upd (\<lambda>v. v\<lparr>ud_local := a\<rparr>))
     (seqS (on_udp (inet_bind w d a)) (\<lambda>v. (watch d, v))))))))"

definition udp_on_same_socket :: "nat \<Rightarrow> (nat \<Rightarrow> unit res) \<Rightarrow> (udp_socket, unit) op" where
  "udp_on_same_socket d watch = seqS (upd (\<lambda>v. v\<lparr>ud_udp := Some d\<rparr>)) (\<lambda>v. (watch d, v))"

section \<open>Addresses are what they say\<close>

lemma sockaddr_fields:
  assumes "length ip = 4"
  shows "length (sockaddr_in f ip port) = 16" "port_of (sockaddr_in f ip port) = port" "ip_of (sockaddr_in f ip port) = ip"
proof -
  have "unat port < 65536" using unsigned_less [of port, where ?'a = nat] by simp
  then have "unat port div 256 < 256" by simp
  then show "port_of (sockaddr_in f ip port) = port"
    by (simp add: sockaddr_in_def htons_def port_of_def numeral_2_eq_2 numeral_3_eq_3 del: of_nat_add of_nat_mult)
  show "length (sockaddr_in f ip port) = 16" "ip_of (sockaddr_in f ip port) = ip"
    using assms by (simp_all add: sockaddr_in_def htons_def ip_of_def)
qed

text \<open>
  An address has its port and its host: what \<open>create_address\<close> makes has sixteen bytes, and the port and the four
  bytes of the host can be read back from it.\<close>

lemma address_fields:
  assumes "create_address_of inet_addr gethostbyname host port np = Inr a"
    and "\<And>ip. inet_addr host = Some ip \<Longrightarrow> length ip = 4"
    and "\<And>f n bytes. gethostbyname host = Some (f, n, bytes) \<Longrightarrow> 4 \<le> length bytes"
  shows "length a = 16 \<and> port_of a = port
    \<and> (\<forall>ip. inet_addr host = Some ip \<longrightarrow> ip_of a = ip)
    \<and> (\<forall>f n bytes. inet_addr host = None \<longrightarrow> gethostbyname host = Some (f, n, bytes) \<longrightarrow> ip_of a = take 4 bytes)"
proof (cases "inet_addr host")
  case (Some ip)
  then show ?thesis
    using assms sockaddr_fields [of ip] by (auto simp: create_address_of_def split: if_splits)
next
  case None
  then obtain f n bytes where b: "gethostbyname host = Some (f, n, bytes)" "a = sockaddr_in f (take 4 bytes) port"
    using assms(1) by (auto simp: create_address_of_def split: if_splits option.splits)
  then show ?thesis
    using None assms(3) [OF b(1)] sockaddr_fields [of "take 4 bytes"] by simp
qed

text \<open>The text of an address is that of its family and port: the host is not in it.\<close>

lemma address2string_ignores_host:
  "address2string (sockaddr_in AF_INET ip port) = address2string (sockaddr_in AF_INET ip' port)"
  by (simp add: address2string_def sockaddr_in_def htons_def)

lemma localhost_text: "address2string (sockaddr_in AF_INET [char_of 127, NUL, NUL, char_of 1] 22500) = Some ''2.0.87.228''"
  by (simp add: address2string_def sockaddr_in_def htons_def AF_INET_def decimal_def put_digits.simps signed_divide_int_def signed_modulo_int_def
    char_of_def bit_0)

section \<open>Sending\<close>

text \<open>\<open>send\<close> returns as soon as a call is not interrupted.\<close>

lemma send_returns:
  assumes "r \<in> set rs" "r \<noteq> Fail EINTR"
  shows "inet_send rs \<noteq> Inl Fuel_exhausted"
  using assms by (induction rs) (auto simp: failed_def split: sysret.splits errno.splits)

section \<open>Opening a server\<close>

definition open_calls :: "bool \<Rightarrow> sys_call set" where
  "open_calls nb = {Sys_socket, Sys_reuseaddr, Sys_bind, Sys_listen} \<union> (if nb then {Sys_getfl, Sys_setfl} else {})"

lemmas open_defs = server_open_def on_socks_def on_server_def inet_socket_def inet_reuseaddr_def inet_nonblock_def
  inet_bind_def inet_listen_def sys_def op_defs

lemma open_start:
  "server_start M d ((server_new limit most l proto m)\<lparr>sv_listen := Some d, sv_fds := {d}\<rparr>) =
   server_start M d (server_new limit most l proto m)"
  by (simp add: server_start_def server_new_def op_defs)

lemma server_opens:
  assumes "\<forall>c \<in> open_calls (ls_nonblock v). w c = None" "ls_server v = server_new limit most l proto m"
  shows "server_open M w d v = (case server_start M d (server_new limit most l proto m) of (r, s) \<Rightarrow>
    (r, v\<lparr>ls_server := s, ls_socks := (ls_socks v)(d \<mapsto> new_sock\<lparr>so_reuse := True, so_nonblock := ls_nonblock v,
       so_bound := Some l, so_listen := Some (ls_queue v)\<rparr>)\<rparr>))"
proof -
  have "sv_started (ls_server v) = False" "sv_fds (ls_server v) = {}" "sv_local (ls_server v) = l"
    using assms(2) by (simp_all add: server_new_def)
  then show ?thesis
    using assms(1) open_start [of M d limit most l proto m]
    by (cases "ls_nonblock v") (simp_all add: open_defs open_calls_def on_sock_def assms(2) new_sock_def split: prod.splits)
qed

lemma server_open_fails:
  assumes "\<exists>c \<in> open_calls (ls_nonblock v). w c \<noteq> None" "\<not> sv_started (ls_server v)"
  shows "\<exists>e v'. server_open M w d v = (Inl e, v') \<and> \<not> sv_started (ls_server v') \<and> sv_mx (ls_server v') = sv_mx (ls_server v)
    \<and> sv_fds (ls_server v') = (if w Sys_socket = None then insert d (sv_fds (ls_server v)) else sv_fds (ls_server v))"
  using assms
  by (cases "w Sys_socket"; cases "w Sys_reuseaddr"; cases "w Sys_bind"; cases "w Sys_listen"; cases "w Sys_getfl"; cases "w Sys_setfl"; cases "ls_nonblock v")
     (auto simp: open_defs open_calls_def)



section \<open>Accepted sockets\<close>

lemmas accept_defs = accept_client_def server_accept_def on_socks_def on_server_def inet_nonblock_def inet_nodelay_def
  inet_keepalive_def sys_def op_defs

text \<open>
  Where no option fails to be set, an accepted client is treated as theory \<open>Server\<close> says; where one fails, its
  descriptor stays open without a connection.
\<close>

lemma accept_client_server:
  assumes "w Sys_getfl = None" "w Sys_setfl = None" "w Sys_nodelay = None" "w Sys_keepalive = None"
  shows "fst (accept_client M w fresh proto accepted v) = fst (server_accept M fresh proto accepted (ls_server v))
    \<and> ls_server (snd (accept_client M w fresh proto accepted v)) = snd (server_accept M fresh proto accepted (ls_server v))"
proof (cases "\<exists>d a. accepted = Inr (Some (d, a))")
  case True
  then obtain d a where "accepted = Inr (Some (d, a))" by blast
  then show ?thesis
    using assms by (cases "ls_nonblock v"; cases "ls_keepalive v")
      (auto simp: accept_defs split: prod.splits sum.splits option.splits)
qed (auto simp: accept_defs split: sum.splits option.splits)

lemma accept_client_leaks:
  assumes "sv_started (ls_server v)" "card (pl_active (sv_pool (ls_server v))) < sv_max (ls_server v)" "w Sys_nodelay \<noteq> None"
  shows "isl (fst (accept_client M w fresh proto (Inr (Some (d, a))) v))
    \<and> d \<in> sv_fds (ls_server (snd (accept_client M w fresh proto (Inr (Some (d, a))) v)))
    \<and> sv_pool (ls_server (snd (accept_client M w fresh proto (Inr (Some (d, a))) v))) = sv_pool (ls_server v)"
  using assms by (cases "ls_nonblock v"; cases "w Sys_getfl"; cases "w Sys_setfl") (auto simp: accept_defs)

end
