(* ===== verification/Json_Set.thy ===== *)
theory Json_Set
  imports Json_Array
begin

text \<open>
  Sets of flags, \<open>common/json_set.hpp\<close>: an integer whose bits have names, written as the array of the names
  that it has, and read from such an array or from one string with commas. The type list of the names is a
  list of names and values. A name ends at its zero byte, as a C string does.

  The fragment that \<open>deserialize_one\<close> gets ends at a quotation mark, so that the character behind it can be read.
\<close>

section \<open>Writing\<close>

type_synonym flags = "(string \<times> int) list"

fun set_serialize :: "flags \<Rightarrow> int \<Rightarrow> bool \<Rightarrow> string" where
  "set_serialize [] v first = []"
| "set_serialize ((n, x) # L) v first =
     (if and x v \<noteq> 0
      then (if \<not> first then '','' else []) @ DQ # takeWhile (\<lambda>c. c \<noteq> NUL) n @ DQ # set_serialize L v False
      else set_serialize L v first)"

definition set_write :: "flags \<Rightarrow> int \<Rightarrow> string" where
  "set_write L v = CHR ''['' # set_serialize L v True @ '']''"

section \<open>Reading\<close>

fun match_flag :: "string \<Rightarrow> string \<Rightarrow> string \<times> string" where
  "match_flag (n # ns) (c # s) = (if n \<noteq> NUL \<and> n = c then match_flag ns s else (n # ns, c # s))"
| "match_flag ns s = (ns, s)"

text \<open>The result is the new value and what is left of the fragment; an unknown name leaves all of it.\<close>

fun deserialize_one :: "flags \<Rightarrow> int \<Rightarrow> string \<Rightarrow> int \<times> string" where
  "deserialize_one [] v s = (v, s)"
| "deserialize_one ((n, x) # L) v s =
     (let (ns, r) = match_flag n s; full = (ns = [] \<or> hd ns = NUL) in
      if r = [] \<and> full then (or v x, [])
      else if r \<noteq> [] \<and> hd r = CHR '','' \<and> full then (or v x, tl r)
      else deserialize_one L v s)"

lemma match_flag_suffix: "suffix (snd (match_flag n s)) s"
  by (induction n s rule: match_flag.induct) (auto intro: suffix_ConsI)

lemma deserialize_one_suffix: "suffix (snd (deserialize_one L v s)) s"
proof (induction L v s rule: deserialize_one.induct)
  case (2 n x L v s)
  then show ?case
    using match_flag_suffix [of n s] by (auto simp: Let_def split: prod.splits intro: suffix_tl_left)
qed simp

lemma deserialize_one_shorter: "deserialize_one L v s = (w, r) \<Longrightarrow> r \<noteq> s \<Longrightarrow> length r < length s"
  using deserialize_one_suffix [of L v s] suffix_length_less [of r s] by (auto simp: strict_suffix_def)

text \<open>\<open>deserialize\<close>: one string with commas. The loop ends when a round gets no further.\<close>

function deserialize_loop :: "flags \<Rightarrow> int \<Rightarrow> string \<Rightarrow> int" where
  "deserialize_loop L v s =
     (if s = [] then v
      else case deserialize_one L v s of (v, r) \<Rightarrow> if r = s then v else deserialize_loop L v r)"
  by pat_completeness auto
termination
  by (relation "measure (\<lambda>(L, v, s). length s)") (auto split: prod.splits dest: deserialize_one_shorter)

declare deserialize_loop.simps [simp del]

function deserialize_arr :: "flags \<Rightarrow> int \<Rightarrow> char \<Rightarrow> string \<Rightarrow> (int \<times> string) res" where
  "deserialize_arr L v last_char s =
     (if s = [] then Inl Out_of_bounds
      else if hd s = DQ
      then if tl s = [] then throw Unexpected_end_fragment 0
           else let name = takeWhile (\<lambda>c. c \<noteq> DQ) (tl s); r = dropWhile (\<lambda>c. c \<noteq> DQ) (tl s) in
             if r = [] then throw Unexpected_end_fragment 0
             else if tl r = [] then Inl Out_of_bounds
             else deserialize_arr L (fst (deserialize_one L v name)) (hd (tl r))
                    (if hd (tl r) = CHR '','' then tl (tl r) else tl r)
      else if last_char = CHR '','' then throw Unexpected_end_fragment 0
      else Inr (v, s))"
  by pat_completeness auto
termination
proof (relation "measure (\<lambda>(L, v, l, s). length s)")
  fix L v l s name r
  assume s: "s \<noteq> []" "r = dropWhile (\<lambda>c. c \<noteq> DQ) (tl s)" "r \<noteq> []"
  then have "length r < length s"
    using length_dropWhile_le [of "\<lambda>c. c \<noteq> DQ" "tl s"] by (cases s) simp_all
  then show "((L, fst (deserialize_one L v name), hd (tl r), if hd (tl r) = CHR '','' then tl (tl r) else tl r), L, v, l, s)
    \<in> measure (\<lambda>(L, v, l, s). length s)"
    by auto
qed simp

declare deserialize_arr.simps [simp del]

definition set_read :: "flags \<Rightarrow> string \<Rightarrow> (int \<times> string) res" where
  "set_read L s =
     (let s = dropWhile (\<lambda>c. schar c \<le> 32) s in
      if s = [] then throw Unexpected_end_fragment 0
      else if hd s = DQ
      then let t = tl s; r = dropWhile (\<lambda>c. c \<noteq> DQ) t in
        if t = [] then throw Unexpected_end_fragment 0
        else if r = [] then throw Unexpected_end_fragment 0
        else Inr (deserialize_loop L 0 (takeWhile (\<lambda>c. c \<noteq> DQ) t), tl r)
      else if hd s = CHR ''[''
      then if tl s = [] then throw Unexpected_end_fragment 0
        else bindE (deserialize_arr L 0 (CHR '' '') (tl s)) (\<lambda>(v, r).
          if r = [] then throw Unexpected_end_fragment 0
          else if hd r \<noteq> CHR '']'' then throw (Expected_of '']'') 0
          else Inr (v, tl r))
      else throw (Expected_of [DQ]) 0)"

definition set_codec :: "flags \<Rightarrow> int codec" where
  "set_codec L = \<lparr>ser = set_write L, unser = (\<lambda>v. set_read L)\<rparr>"

section \<open>What is written is read back\<close>

text \<open>The bits of the names that a value is written as.\<close>

definition joined :: "flags \<Rightarrow> int \<Rightarrow> int" where
  "joined L v = fold (\<lambda>(n, x) w. or w x) (filter (\<lambda>(n, x). and x v \<noteq> 0) L) 0"

definition flags_ok :: "flags \<Rightarrow> bool" where
  "flags_ok L \<longleftrightarrow> distinct (map fst L) \<and> list_all (\<lambda>(n, x). n \<noteq> [] \<and> NUL \<notin> set n \<and> DQ \<notin> set n \<and> CHR '','' \<notin> set n) L"

abbreviation quoted :: "string \<times> int \<Rightarrow> string" where
  "quoted e \<equiv> DQ # fst e @ [DQ]"

lemma set_serialize_join:
  assumes "list_all (\<lambda>(n, x). NUL \<notin> set n) L"
  shows "set_serialize L v first =
    (let xs = filter (\<lambda>(n, x). and x v \<noteq> 0) L in (if first \<or> xs = [] then [] else '','') @ join (map quoted xs))"
  using assms
proof (induction L arbitrary: first)
  case (Cons e L)
  obtain n x where e: "e = (n, x)" by (cases e)
  then have "takeWhile (\<lambda>c. c \<noteq> NUL) n = n" using Cons.prems by auto
  then show ?case
    using Cons e by (cases "filter (\<lambda>(n, x). and x v \<noteq> 0) L") (auto simp: Let_def)
qed simp

lemma match_flag_result:
  assumes "NUL \<notin> set n" "match_flag n s = (ns, r)"
  shows "\<exists>p. n = p @ ns \<and> s = p @ r" "NUL \<notin> set ns"
  using assms by (induction n s arbitrary: ns r rule: match_flag.induct) (auto split: if_splits)

lemma match_flag_self: "NUL \<notin> set n \<Longrightarrow> match_flag n n = ([], [])"
  by (induction n) auto

lemma deserialize_one_name:
  "(n, x) \<in> set L \<Longrightarrow> flags_ok L \<Longrightarrow> deserialize_one L v n = (or v x, [])"
proof (induction L)
  case (Cons e L)
  obtain m y where e: "e = (m, y)" by (cases e)
  have n: "CHR '','' \<notin> set n" "NUL \<notin> set n"
    using Cons.prems by (auto simp: flags_ok_def list_all_iff)
  have m: "NUL \<notin> set m" "flags_ok L" using Cons.prems(2) e by (auto simp: flags_ok_def)
  show ?case
  proof (cases "n = m")
    case True
    then have "x = y" using Cons.prems e by (auto simp: flags_ok_def image_iff)
    then show ?thesis using True e m(1) by (simp add: match_flag_self)
  next
    case False
    obtain ns r where mr: "match_flag m n = (ns, r)" by fastforce
    note p = match_flag_result [OF m(1) mr]
    have "\<not> (r = [] \<and> (ns = [] \<or> hd ns = NUL))" "\<not> (r \<noteq> [] \<and> hd r = CHR '','')"
      using p False n(1) by (cases ns; cases r; auto)+
    then have "deserialize_one (e # L) v n = deserialize_one L v n" using mr e by (auto simp: Let_def)
    then show ?thesis using Cons False e m(2) by auto
  qed
qed simp

lemma deserialize_arr_join:
  assumes "flags_ok L" "set xs \<subseteq> set L" "xs \<noteq> []"
  shows "deserialize_arr L v l (join (map quoted xs) @ CHR '']'' # rest) =
    Inr (fold (\<lambda>(n, x) w. or w x) xs v, CHR '']'' # rest)"
  using assms(2,3)
proof (induction xs arbitrary: v l)
  case (Cons e xs)
  obtain n x where e: "e = (n, x)" by (cases e)
  have n: "(n, x) \<in> set L" "DQ \<notin> set n" "n \<noteq> []"
    using Cons.prems(1) assms(1) e by (auto simp: flags_ok_def list_all_iff)
  have tw: "takeWhile (\<lambda>c. c \<noteq> DQ) (n @ DQ # r) = n" "dropWhile (\<lambda>c. c \<noteq> DQ) (n @ DQ # r) = DQ # r" for r
    using n(2) by (auto simp: takeWhile_append dropWhile_append)
  have one: "deserialize_arr L v l (quoted e @ c # r) =
      deserialize_arr L (or v x) c (if c = CHR '','' then r else c # r)" for c r
    using n tw e deserialize_one_name [OF n(1) assms(1), of v]
    by (subst deserialize_arr.simps) (simp add: Let_def)
  show ?case
  proof (cases xs)
    case Nil
    then show ?thesis
      using one [of "CHR '']''" rest] e by (simp add: deserialize_arr.simps [of _ _ _ "CHR '']'' # rest"])
  next
    case (Cons f fs)
    then have "join (map quoted (e # xs)) @ CHR '']'' # rest = quoted e @ CHR '','' # join (map quoted xs) @ CHR '']'' # rest"
      by simp
    then show ?thesis
      using one [of "CHR '',''" "join (map quoted xs) @ CHR '']'' # rest"] Cons.IH [of "or v x" "CHR '',''"] Cons.prems(1) Cons e by simp
  qed
qed simp

lemma set_roundtrip:
  assumes "flags_ok L"
  shows "set_read L (set_write L v @ rest) = Inr (joined L v, rest)"
proof -
  let ?xs = "filter (\<lambda>(n, x). and x v \<noteq> 0) L"
  have w: "set_write L v @ rest = CHR ''['' # join (map quoted ?xs) @ CHR '']'' # rest"
    using set_serialize_join [of L v True] assms by (auto simp: set_write_def flags_ok_def list_all_iff Let_def)
  have arr: "deserialize_arr L 0 (CHR '' '') (join (map quoted ?xs) @ CHR '']'' # rest) = Inr (joined L v, CHR '']'' # rest)"
  proof (cases "?xs = []")
    case True
    then show ?thesis by (simp add: joined_def deserialize_arr.simps [of _ _ _ "CHR '']'' # rest"])
  next
    case False
    then show ?thesis using deserialize_arr_join [OF assms _ False, of 0] by (auto simp: joined_def)
  qed
  have "\<not> schar (CHR ''['') \<le> 32" by code_simp
  then show ?thesis
    using arr w by (simp add: set_read_def Let_def)
qed

section \<open>The contract\<close>

lemma deserialize_arr_suffix: "deserialize_arr L v l s = Inr (w, r) \<Longrightarrow> suffix r s"
proof (induction L v l s rule: deserialize_arr.induct)
  case (1 L v l s)
  let ?r = "dropWhile (\<lambda>c. c \<noteq> DQ) (tl s)"
  have r: "suffix ?r s" by (meson suffix_dropWhile suffix_tlI)
  show ?case
  proof (cases "s \<noteq> [] \<and> hd s = DQ")
    case True
    have "suffix r (if hd (tl ?r) = CHR '','' then tl (tl ?r) else tl ?r)"
      using "1.IH" "1.prems" True unfolding deserialize_arr.simps [of L v l s] by (auto simp: Let_def split: if_splits)
    moreover have "suffix (if hd (tl ?r) = CHR '','' then tl (tl ?r) else tl ?r) s"
      using r by (simp add: suffix_tl_left)
    ultimately show ?thesis by (rule suffix_order.trans)
  qed (use "1.prems" in \<open>auto simp: deserialize_arr.simps [of L v l s] split: if_splits\<close>)
qed

lemma deserialize_arr_total: "deserialize_arr L v l s \<noteq> Inl Fuel_exhausted"
  by (induction L v l s rule: deserialize_arr.induct) (subst deserialize_arr.simps, auto simp: Let_def)

lemma set_codec_contract:
  assumes "flags_ok L"
  shows "json_codec (set_codec L) (\<lambda>v. joined L v = v) 0"
proof
  fix v w :: int and s r rest
  let ?s = "dropWhile (\<lambda>c. schar c \<le> 32) s"
  show "unser (set_codec L) v s \<noteq> Inl Fuel_exhausted"
    by (auto simp: set_codec_def set_read_def Let_def bindE_Inl_iff deserialize_arr_total)
  have s: "suffix (tl ?s) s" by (simp add: suffix_dropWhile suffix_tl_left)
  show "suffix r s" if read: "unser (set_codec L) v s = Inr (w, r)"
  proof (cases "hd ?s = DQ")
    case True
    then have "r = tl (dropWhile (\<lambda>c. c \<noteq> DQ) (tl ?s))"
      using read by (auto simp: set_codec_def set_read_def Let_def split: if_splits)
    then show ?thesis
      using s suffix_dropWhile suffix_order.trans suffix_tl_left by metis
  next
    case False
    then obtain q where q: "deserialize_arr L 0 (CHR '' '') (tl ?s) = Inr (w, q)" "r = tl q"
      using read by (auto simp: set_codec_def set_read_def Let_def split: if_splits)
    then show ?thesis
      using deserialize_arr_suffix [OF q(1)] s suffix_order.trans suffix_tl_left by metis
  qed
  assume v: "joined L v = v"
  show "unser (set_codec L) 0 (ser (set_codec L) v @ rest) = Inr (v, rest)"
    using set_roundtrip [OF assms, of v rest] v by (simp add: set_codec_def)
  show "ser (set_codec L) v \<noteq> [] \<and> starts_value (hd (ser (set_codec L) v))"
    by (simp add: set_codec_def set_write_def)
qed

text \<open>
  Flags that are single bits of their own: every combination of them is read back as it was written. With a name for
  two bits at once, a value that has one of them comes back with both.
\<close>

definition bit_flags :: flags where
  "bit_flags = [(''One'', 1), (''Two'', 2), (''Four'', 4)]"

interpretation bit_flags: json_codec "set_codec bit_flags" "\<lambda>v. joined bit_flags v = v" 0
  by (rule set_codec_contract) code_simp

lemma wide_flag_grows:
  "set_read [(''One'', 1), (''Both'', 3)] (set_write [(''One'', 1), (''Both'', 3)] 1) = Inr (3, [])"
  using set_roundtrip [of "[(''One'', 1), (''Both'', 3)]" 1 "[]"] by (simp add: flags_ok_def joined_def)

text \<open>A blank between the elements, as most programs write it, is an error.\<close>

lemma blank_refused: "set_read bit_flags (''['' @ quoted (''One'', 1) @ '', '' @ quoted (''Two'', 2) @ '']'') =
    throw Unexpected_end_fragment 0"
  by code_simp

end
