(* ===== verification/Lru_Cache.thy ===== *)
theory Lru_Cache
  imports Prelude
begin

text \<open>
  The cache with replacement of the least recently used entry, \<open>common/lrucache.hpp\<close>. The container is a
  \<open>boost::bimap\<close>: entries that are found by their key and have a place in a list. It is a parameter, a record of the
  operations the class calls, with their documented behaviour as the laws of the locale \<open>bimap_laws\<close>. A failed
  \<open>assert\<close> ends the process; it is the error \<open>Assertion\<close>. The mutex makes every operation one step.
\<close>

section \<open>The container\<close>

record ('c, 'k, 'v) bimap =
  bm_empty :: 'c
  bm_find :: "'c \<Rightarrow> 'k \<Rightarrow> 'v option"
  bm_relocate :: "'k \<Rightarrow> 'c \<Rightarrow> 'c"
  bm_erase :: "'k \<Rightarrow> 'c \<Rightarrow> 'c"
  bm_erase_first :: "'c \<Rightarrow> 'c"
  bm_insert :: "'k \<Rightarrow> 'v \<Rightarrow> 'c \<Rightarrow> 'c"
  bm_size :: "'c \<Rightarrow> nat"
  bm_right :: "'c \<Rightarrow> 'k list"

text \<open>\<open>items\<close> are the entries in the order of the list.\<close>

locale bimap_laws =
  fixes B :: "('c, 'k, 'v) bimap" and items :: "'c \<Rightarrow> ('k \<times> 'v) list" and valid :: "'c \<Rightarrow> bool"
  assumes keys: "valid c \<Longrightarrow> distinct (map fst (items c))"
    and empty: "valid (bm_empty B)" "items (bm_empty B) = []"
    and find: "valid c \<Longrightarrow> bm_find B c k = map_of (items c) k"
    and relocate: "valid c \<Longrightarrow> map_of (items c) k = Some v \<Longrightarrow>
      valid (bm_relocate B k c) \<and> items (bm_relocate B k c) = filter (\<lambda>e. fst e \<noteq> k) (items c) @ [(k, v)]"
    and erase: "valid c \<Longrightarrow> valid (bm_erase B k c) \<and> items (bm_erase B k c) = filter (\<lambda>e. fst e \<noteq> k) (items c)"
    and erase_first: "valid c \<Longrightarrow> items c \<noteq> [] \<Longrightarrow>
      valid (bm_erase_first B c) \<and> items (bm_erase_first B c) = tl (items c)"
    and insert: "valid c \<Longrightarrow> map_of (items c) k = None \<Longrightarrow>
      valid (bm_insert B k v c) \<and> items (bm_insert B k v c) = items c @ [(k, v)]"
    and size: "valid c \<Longrightarrow> bm_size B c = length (items c)"
    and right: "valid c \<Longrightarrow> bm_right B c = map fst (items c)"

section \<open>The cache\<close>

datatype lru_error = Assertion

record 'c lrucache =
  lru_capacity :: nat
  lru_cache :: 'c

definition lru_new :: "('c, 'k, 'v) bimap \<Rightarrow> nat \<Rightarrow> lru_error + 'c lrucache" where
  "lru_new B c = (if c \<noteq> 0 then Inr \<lparr>lru_capacity = c, lru_cache = bm_empty B\<rparr> else Inl Assertion)"

definition lru_get :: "('c, 'k, 'v) bimap \<Rightarrow> 'k \<Rightarrow> 'c lrucache \<Rightarrow> 'v option \<times> 'c lrucache" where
  "lru_get B k s = (case bm_find B (lru_cache s) k of
     None \<Rightarrow> (None, s)
   | Some v \<Rightarrow> (Some v, s\<lparr>lru_cache := bm_relocate B k (lru_cache s)\<rparr>))"

definition lru_get_keys :: "('c, 'k, 'v) bimap \<Rightarrow> 'c lrucache \<Rightarrow> 'k list" where
  "lru_get_keys B s = rev (bm_right B (lru_cache s))"

definition lru_size :: "('c, 'k, 'v) bimap \<Rightarrow> 'c lrucache \<Rightarrow> nat" where
  "lru_size B s = bm_size B (lru_cache s)"

definition lru_insert :: "('c, 'k, 'v) bimap \<Rightarrow> 'k \<Rightarrow> 'v \<Rightarrow> 'c lrucache \<Rightarrow> lru_error + 'c lrucache" where
  "lru_insert B k v s =
     (if \<not> bm_size B (lru_cache s) \<le> lru_capacity s then Inl Assertion
      else let c = lru_cache s;
               c = (if bm_find B c k \<noteq> None then bm_erase B k c else c);
               c = (if bm_size B c = lru_capacity s then bm_erase_first B c else c)
           in Inr (s\<lparr>lru_cache := bm_insert B k v c\<rparr>))"

text \<open>\<open>lrucache_functional::operator()\<close>\<close>

definition lru_call ::
  "('c, 'k, 'v) bimap \<Rightarrow> ('k \<Rightarrow> 'v) \<Rightarrow> 'k \<Rightarrow> 'c lrucache \<Rightarrow> lru_error + 'v \<times> 'c lrucache" where
  "lru_call B fn k s = (case lru_get B k s of
     (Some v, s) \<Rightarrow> Inr (v, s)
   | (None, s) \<Rightarrow> (case lru_insert B k (fn k) s of Inl e \<Rightarrow> Inl e | Inr s \<Rightarrow> Inr (fn k, s)))"

fun lru_calls ::
  "('c, 'k, 'v) bimap \<Rightarrow> ('k \<Rightarrow> 'v) \<Rightarrow> 'k list \<Rightarrow> 'c lrucache \<Rightarrow> lru_error + 'v list \<times> 'c lrucache" where
  "lru_calls B fn [] s = Inr ([], s)"
| "lru_calls B fn (k # ks) s = bindE (lru_call B fn k s) (\<lambda>(v, s).
     bindE (lru_calls B fn ks s) (\<lambda>(vs, s). Inr (v # vs, s)))"

section \<open>What an operation does\<close>

text \<open>The last entries of a list.\<close>

definition last_n :: "nat \<Rightarrow> 'a list \<Rightarrow> 'a list" where
  "last_n n xs = drop (length xs - n) xs"

lemma last_n_snoc: "0 < n \<Longrightarrow> last_n n (xs @ [x]) = last_n (n - 1) xs @ [x]"
  by (cases n) (simp_all add: last_n_def)

lemma rev_last_n: "rev (last_n n xs) = take n (rev xs)"
  by (cases "n \<le> length xs") (simp_all add: last_n_def rev_drop)

lemma last_n_short: "length xs \<le> n \<Longrightarrow> last_n n xs = xs"
  by (simp add: last_n_def)

lemma last_n_append: "n \<le> length ys \<Longrightarrow> last_n n (xs @ ys) = last_n n ys"
  by (simp add: last_n_def)

lemma last_n_tl: "length xs = n \<Longrightarrow> last_n (n - Suc 0) xs = tl xs"
  by (cases xs) (simp_all add: last_n_def)

lemma last_n_split:
  obtains ys where "xs = ys @ last_n n xs" "ys = [] \<or> length (last_n n xs) = n" "length (last_n n xs) \<le> n"
  by (rule that [of "take (length xs - n) xs"]) (auto simp: last_n_def)

text \<open>An access of \<open>k\<close> moves it to the end; of the others the last ones stay.\<close>

lemma access_hit:
  assumes "distinct xs" "k \<in> set (last_n n xs)"
  shows "last_n n (removeAll k xs @ [k]) = removeAll k (last_n n xs) @ [k]"
proof -
  obtain ys where ys: "xs = ys @ last_n n xs" "ys = [] \<or> length (last_n n xs) = n" "length (last_n n xs) \<le> n"
    by (rule last_n_split)
  let ?b = "last_n n xs"
  have d: "distinct ?b" "k \<notin> set ys"
    using assms ys(1) by (metis distinct_append, metis disjoint_iff distinct_append)
  have len: "length (removeAll k ?b) = length ?b - 1"
    using d(1) assms(2) by (simp add: length_remove1 flip: distinct_remove1_removeAll)
  have pos: "0 < length ?b" using assms(2) by (cases ?b) auto
  have "last_n (n - 1) (removeAll k xs) = last_n (n - 1) (ys @ removeAll k ?b)"
    using ys(1) d(2) by (metis removeAll_append removeAll_id)
  also have "\<dots> = removeAll k ?b"
    using ys(2,3) len pos by (auto simp: last_n_append last_n_short)
  finally show ?thesis
    using last_n_snoc [of n "removeAll k xs" k] ys(3) pos by simp
qed

lemma access_miss:
  assumes "k \<notin> set (last_n n xs)" "0 < n"
  shows "last_n n (removeAll k xs @ [k]) = (if length (last_n n xs) = n then tl (last_n n xs) else last_n n xs) @ [k]"
proof -
  obtain ys where ys: "xs = ys @ last_n n xs" "ys = [] \<or> length (last_n n xs) = n" "length (last_n n xs) \<le> n"
    by (rule last_n_split)
  let ?b = "last_n n xs"
  have "last_n (n - 1) (removeAll k xs) = last_n (n - 1) (removeAll k ys @ ?b)"
    using ys(1) assms(1) by (metis removeAll_append removeAll_id)
  also have "\<dots> = (if length ?b = n then tl ?b else ?b)"
    using ys(2,3) by (auto simp: last_n_append last_n_short last_n_tl)
  finally show ?thesis
    using last_n_snoc [OF assms(2), of "removeAll k xs" k] by simp
qed

lemma remdups_snoc: "remdups (ks @ [k]) = removeAll k (remdups ks) @ [k]"
  by (induction ks) auto

section \<open>The cache of a function\<close>

text \<open>What is in the cache: the keys that were asked for last, with the values of the function.\<close>

definition holds_recent ::
  "('c \<Rightarrow> ('k \<times> 'v) list) \<Rightarrow> ('c \<Rightarrow> bool) \<Rightarrow> nat \<Rightarrow> ('k \<Rightarrow> 'v) \<Rightarrow> 'k list \<Rightarrow> 'c lrucache \<Rightarrow> bool" where
  "holds_recent items valid n fn ks s \<longleftrightarrow> valid (lru_cache s) \<and> lru_capacity s = n
     \<and> items (lru_cache s) = map (\<lambda>k. (k, fn k)) (last_n n (remdups ks))"

lemma map_of_pairs: "map_of (map (\<lambda>k. (k, fn k)) xs) k = (if k \<in> set xs then Some (fn k) else None)"
  by (induction xs) auto

lemma filter_pairs: "filter (\<lambda>e. fst e \<noteq> k) (map (\<lambda>k. (k, fn k)) xs) = map (\<lambda>k. (k, fn k)) (removeAll k xs)"
  by (induction xs) auto

context bimap_laws
begin

lemma lru_call_step:
  assumes "holds_recent items valid n fn ks s" "0 < n"
  shows "\<exists>s'. lru_call B fn k s = Inr (fn k, s') \<and> holds_recent items valid n fn (ks @ [k]) s'"
proof -
  let ?c = "lru_cache s" let ?xs = "last_n n (remdups ks)" let ?p = "\<lambda>k. (k, fn k)"
  have s: "valid ?c" "lru_capacity s = n" "items ?c = map ?p ?xs"
    using assms(1) by (simp_all add: holds_recent_def)
  have found: "bm_find B ?c k = (if k \<in> set ?xs then Some (fn k) else None)"
    using find [OF s(1), of k] s(3) by (simp add: map_of_pairs)
  show ?thesis
  proof (cases "k \<in> set ?xs")
    case True
    then have "map_of (items ?c) k = Some (fn k)" using s(3) by (simp add: map_of_pairs)
    from relocate [OF s(1) this] have "holds_recent items valid n fn (ks @ [k]) (s\<lparr>lru_cache := bm_relocate B k ?c\<rparr>)"
      using s(2,3) access_hit [OF distinct_remdups True] by (simp add: holds_recent_def remdups_snoc filter_pairs)
    then show ?thesis using True found by (simp add: lru_call_def lru_get_def)
  next
    case False
    have len: "bm_size B ?c = length ?xs" "length ?xs \<le> n"
      using size [OF s(1)] s(3) by (simp_all add: last_n_def)
    define d where "d = (if length ?xs = n then bm_erase_first B ?c else ?c)"
    have "items ?c \<noteq> []" if "length ?xs = n" using that s(3) assms(2) by auto
    then have d: "valid d" "items d = map ?p (if length ?xs = n then tl ?xs else ?xs)"
      using erase_first [OF s(1)] s(1,3) by (auto simp: d_def map_tl)
    then have "map_of (items d) k = None"
      using False by (cases ?xs) (auto simp: map_of_pairs)
    from insert [OF d(1) this, of "fn k"] have "holds_recent items valid n fn (ks @ [k]) (s\<lparr>lru_cache := bm_insert B k (fn k) d\<rparr>)"
      using s(2) d(2) access_miss [OF False assms(2)] by (simp add: holds_recent_def remdups_snoc)
    moreover have "lru_call B fn k s = Inr (fn k, s\<lparr>lru_cache := bm_insert B k (fn k) d\<rparr>)"
      using False found len s(2) by (simp add: lru_call_def lru_get_def lru_insert_def d_def)
    ultimately show ?thesis by blast
  qed
qed

lemma lru_calls_step:
  "holds_recent items valid n fn ks s \<Longrightarrow> 0 < n \<Longrightarrow>
     \<exists>s'. lru_calls B fn js s = Inr (map fn js, s') \<and> holds_recent items valid n fn (ks @ js) s'"
proof (induction js arbitrary: ks s)
  case (Cons k js)
  obtain t where t: "lru_call B fn k s = Inr (fn k, t)" "holds_recent items valid n fn (ks @ [k]) t"
    using lru_call_step [OF Cons.prems] by blast
  from Cons.IH [OF t(2) Cons.prems(2)] t(1) show ?case by auto
qed simp

text \<open>Insertion by hand: the key then has its value, no other key gets a new one, and the cache stays within its capacity.\<close>

lemma lru_insert_get:
  assumes "valid (lru_cache s)" "length (items (lru_cache s)) \<le> lru_capacity s" "0 < lru_capacity s"
  obtains s' where "lru_insert B k v s = Inr s'" "valid (lru_cache s')" "length (items (lru_cache s')) \<le> lru_capacity s'"
    "fst (lru_get B k s') = Some v" "\<And>j w. j \<noteq> k \<Longrightarrow> fst (lru_get B j s') = Some w \<Longrightarrow> fst (lru_get B j s) = Some w"
proof -
  let ?c = "lru_cache s"
  define d where "d = (if bm_find B ?c k \<noteq> None then bm_erase B k ?c else ?c)"
  define e where "e = (if bm_size B d = lru_capacity s then bm_erase_first B d else d)"
  have d: "valid d" "items d = filter (\<lambda>e. fst e \<noteq> k) (items ?c)"
    using erase [OF assms(1), of k] find [OF assms(1), of k] assms(1)
    by (auto simp: d_def map_of_eq_None_iff intro!: filter_True [symmetric])
  have len: "length (items d) \<le> lru_capacity s"
    using assms(2) d(2) by (metis le_trans length_filter_le)
  have e: "valid e" "items e = (if length (items d) = lru_capacity s then tl (items d) else items d)"
    using erase_first [OF d(1)] size [OF d(1)] d(1) assms(3) by (cases "items d"; auto simp: e_def)+
  have sub: "set (items e) \<subseteq> set (items d)" using e(2) by (cases "items d") (auto split: if_splits)
  then have new: "map_of (items e) k = None" using d(2) by (auto simp: map_of_eq_None_iff)
  note i = insert [OF e(1) new, of v]
  have val: "map_of (items (bm_insert B k v e)) j = (if j = k then Some v else map_of (items e) j)" for j
    using i new by (auto simp: map_add_def split: option.splits)
  have old: "map_of (items ?c) j = Some w" if "j \<noteq> k" "map_of (items e) j = Some w" for j w
    using map_of_SomeD [OF that(2)] sub d(2) keys [OF assms(1)] by (auto simp: map_of_eq_Some_iff)
  show ?thesis
  proof (rule that [of "s\<lparr>lru_cache := bm_insert B k v e\<rparr>"])
    show "lru_insert B k v s = Inr (s\<lparr>lru_cache := bm_insert B k v e\<rparr>)"
      using size [OF assms(1)] assms(2) unfolding lru_insert_def Let_def d_def [symmetric] e_def [symmetric] by simp
    show "length (items (lru_cache (s\<lparr>lru_cache := bm_insert B k v e\<rparr>))) \<le> lru_capacity (s\<lparr>lru_cache := bm_insert B k v e\<rparr>)"
      using i e(2) len assms(3) by (auto split: if_splits)
  qed (use i val old find [OF conjunct1 [OF i]] find [OF assms(1)] in \<open>auto simp: lru_get_def split: option.splits\<close>)
qed

end

section \<open>An instance of the container\<close>

definition list_bimap :: "(('k \<times> 'v) list, 'k, 'v) bimap" where
  "list_bimap = \<lparr>bm_empty = [], bm_find = map_of,
     bm_relocate = (\<lambda>k c. filter (\<lambda>e. fst e \<noteq> k) c @ [(k, the (map_of c k))]),
     bm_erase = (\<lambda>k. filter (\<lambda>e. fst e \<noteq> k)), bm_erase_first = tl, bm_insert = (\<lambda>k v c. c @ [(k, v)]),
     bm_size = length, bm_right = map fst\<rparr>"

interpretation list_bimap: bimap_laws list_bimap id "\<lambda>c. distinct (map fst c)"
  by unfold_locales
     (auto simp: list_bimap_def distinct_map_filter map_of_eq_None_iff distinct_tl map_tl)

text \<open>
  C40. The cache of a function answers with the values of the function, and keeps the most recently used: after
  any calls from a new cache of capacity \<open>n\<close>, none of the assertions has failed, every answer is the value of
  the function, and the keys in the cache, the last used first, are the last \<open>n\<close> different keys asked for.\<close>

theorem lru_cache_correct:
  assumes "bimap_laws B items valid" and "lru_new B n = Inr s"
  shows "\<exists>s'. lru_calls B fn ks s = Inr (map fn ks, s')
    \<and> lru_get_keys B s' = take n (rev (remdups ks)) \<and> lru_size B s' = min n (card (set ks))"
proof -
  have s: "s = \<lparr>lru_capacity = n, lru_cache = bm_empty B\<rparr>" "0 < n"
    using assms(2) by (simp_all add: lru_new_def split: if_splits)
  have "holds_recent items valid n fn [] s"
    using s bimap_laws.empty [OF assms(1)] by (simp add: holds_recent_def last_n_def)
  from bimap_laws.lru_calls_step [OF assms(1) this s(2), of ks] obtain s' where
    s': "lru_calls B fn ks s = Inr (map fn ks, s')" "holds_recent items valid n fn ks s'" by auto
  then have "lru_get_keys B s' = rev (last_n n (remdups ks))" "lru_size B s' = min n (card (set ks))"
    using bimap_laws.right [OF assms(1)] bimap_laws.size [OF assms(1)]
    by (simp_all add: holds_recent_def lru_get_keys_def lru_size_def comp_def length_remdups_card_conv last_n_def)
  then show ?thesis
    using s'(1) rev_last_n [of n "remdups ks"] by simp
qed

theorem lru_cache_correct_witness:
  "\<exists>s'. lru_calls list_bimap (\<lambda>k. k * k) [1, 2, 3, 1, 4] \<lparr>lru_capacity = 2, lru_cache = []\<rparr>
      = Inr ([1, 4, 9, 1, 16 :: nat], s') \<and> lru_get_keys list_bimap s' = [4, 1]"
proof -
  have "lru_new list_bimap 2 = Inr \<lparr>lru_capacity = 2, lru_cache = [] :: (nat \<times> nat) list\<rparr>"
    by (simp add: lru_new_def list_bimap_def)
  from lru_cache_correct [OF list_bimap.bimap_laws_axioms this, of "\<lambda>k. k * k" "[1, 2, 3, 1, 4]"]
  obtain s' where "lru_calls list_bimap (\<lambda>k. k * k) [1, 2, 3, 1, 4] \<lparr>lru_capacity = 2, lru_cache = [] :: (nat \<times> nat) list\<rparr>
      = Inr (map (\<lambda>k. k * k) [1, 2, 3, 1, 4], s')" "lru_get_keys list_bimap s' = take 2 (rev (remdups [1, 2, 3, 1, 4]))"
    by blast
  then show ?thesis
    by (intro exI [of _ s']) (simp del: lru_calls.simps)
qed

end
