(* ===== verification/Stat_Report.thy ===== *)
theory Stat_Report
  imports Statistics Methods Json_Text
begin

text \<open>
  The method \<open>get_statistics\<close>, \<open>common/fas_statistics.hpp\<close>: the counts and times of the methods and the state of the
  process, as the text of a JSON object.

  The texts of the floating point numbers are parameters: \<open>avg\<close> for the mean of the averages of several statistics, \<open>tot\<close>
  for the sum of their sums; so is what the kernel says of the process. \<open>None\<close> stands for a file or directory that cannot
  be opened. Callbacks are the texts they write.
\<close>

section \<open>The text\<close>

record process_info =
  pi_pid :: int
  pi_time :: int
  pi_start :: int
  pi_utime :: int
  pi_stime :: int
  pi_clk_tck :: int
  pi_fds :: "nat option"
  pi_status :: "string list option"

abbreviation key :: "string \<Rightarrow> string" where
  "key name \<equiv> DQ # name @ DQ # '':''"

definition total_count :: "command_stat list \<Rightarrow> int" where
  "total_count xs = fold (\<lambda>s c. wrap c_int (c + st_count s)) xs 0"

fun method_statistics ::
  "(timeval list \<Rightarrow> string) \<Rightarrow> (timeval list \<Rightarrow> string) \<Rightarrow> timeval \<Rightarrow> nat \<Rightarrow> string list \<Rightarrow> common_stat list \<Rightarrow> string" where
  "method_statistics avg tot now pos [] stat = []"
| "method_statistics avg tot now pos (name # names) stat =
     (let xs = map (stat_at now pos) stat in
      (if pos \<noteq> 0 then '','' else []) @ key name @ ''{''
      @ key ''count'' @ decimal (total_count xs) @ '',''
      @ key ''average_time'' @ avg (map average_span xs) @ '',''
      @ key ''total_time'' @ tot (map sum_span xs) @ ''}''
      @ method_statistics avg tot now (pos + 1) names stat)"

text \<open>
  The loop over the lines of \<open>/proc/self/status\<close>. \<open>line[7]\<close> lies behind the end of a line that has nothing after
  \<open>VmRSS:\<close>.
\<close>

fun status_loop :: "string option \<Rightarrow> string option \<Rightarrow> string list \<Rightarrow> (string \<times> string) option res" where
  "status_loop (Some vmsize) (Some vmrss) ls = Inr (Some (vmsize, vmrss))"
| "status_loop vmsize vmrss [] = Inr None"
| "status_loop vmsize vmrss (l # ls) =
     (if prefix ''VmSize:'' l then status_loop (Some (drop 7 l)) vmrss ls
      else if prefix ''VmRSS:'' l
      then if length l < 7 then Inl Out_of_bounds else status_loop vmsize (Some (drop 7 l)) ls
      else status_loop vmsize vmrss ls)"

text \<open>The last four characters are cut off.\<close>

definition cut_unit :: "string \<Rightarrow> string res" where
  "cut_unit s = (if length s < 4 then Inl Out_of_bounds else Inr (take (length s - 4) s))"

definition memory_statistics :: "string list option \<Rightarrow> string res" where
  "memory_statistics status = (case status of
     None \<Rightarrow> Inr []
   | Some ls \<Rightarrow> bindE (status_loop None None ls) (\<lambda>r. case r of
       None \<Rightarrow> Inr []
     | Some (vmsize, vmrss) \<Rightarrow> bindE (cut_unit vmsize) (\<lambda>vmsize. bindE (cut_unit vmrss) (\<lambda>vmrss.
         Inr ('','' @ key ''memory'' @ ''{'' @ key ''virtual'' @ vmsize @ '','' @ key ''resident'' @ vmrss @ ''}'')))))"

definition system_statistics :: "process_info \<Rightarrow> string" where
  "system_statistics p = '','' @ key ''system'' @ ''{''
     @ key ''pid'' @ decimal (pi_pid p)
     @ '','' @ key ''uptime'' @ decimal (pi_time p - pi_start p)
     @ '','' @ key ''user'' @ decimal (pi_utime p sdiv pi_clk_tck p)
     @ '','' @ key ''system'' @ decimal (pi_stime p sdiv pi_clk_tck p)
     @ (case pi_fds p of None \<Rightarrow> [] | Some n \<Rightarrow> '','' @ key ''files'' @ decimal (int n))
     @ ''}''"

text \<open>\<open>request\<close>; the helper of the daemon writes nothing.\<close>

definition get_statistics ::
  "(timeval list \<Rightarrow> string) \<Rightarrow> (timeval list \<Rightarrow> string) \<Rightarrow> timeval \<Rightarrow> process_info \<Rightarrow> string list \<Rightarrow> string list \<Rightarrow>
   common_stat list option \<Rightarrow> string res" where
  "get_statistics avg tot now p callbacks names stat =
     bindE (memory_statistics (pi_status p)) (\<lambda>memory.
       Inr (''{''
         @ (case stat of Some cs \<Rightarrow> method_statistics avg tot now 0 names cs | None \<Rightarrow> key ''stat_is_zero'' @ ''true'')
         @ concat callbacks @ system_statistics p @ memory @ ''}''))"

section \<open>Objects by their members\<close>

text \<open>A text that the parser takes for one value, blanks before it allowed.\<close>

definition json_value :: "string \<Rightarrow> bool" where
  "json_value v \<longleftrightarrow> (\<forall>rest. delim rest \<longrightarrow>
     parse_space (v @ rest) \<noteq> [] \<and> parse_value (parse_space (v @ rest)) = Inr rest)"

abbreviation member :: "string \<times> string \<Rightarrow> string" where
  "member e \<equiv> DQ # fst e @ DQ # CHR '':'' # snd e"

abbreviation members_ok :: "(string \<times> string) list \<Rightarrow> bool" where
  "members_ok \<equiv> list_all (\<lambda>e. plain_member (fst e) \<and> json_value (snd e))"

definition object :: "(string \<times> string) list \<Rightarrow> string" where
  "object es = ''{'' @ join (map member es) @ ''}''"

lemma value_text: "v \<noteq> [] \<Longrightarrow> starts_value (hd v) \<Longrightarrow> (\<And>rest. delim rest \<Longrightarrow> parse_value (v @ rest) = Inr rest) \<Longrightarrow> json_value v"
  by (simp add: json_value_def)

lemma decimal_json_value: "json_value (decimal i)"
proof -
  obtain c s where "decimal i = c # s" "c = CHR ''-'' \<or> is_digit c" using decimal_starts by blast
  then show ?thesis
    by (intro value_text parse_value_decimal) (auto intro: digit_starts_value)
qed

lemma blanks_value: "list_all is_space bs \<Longrightarrow> json_value v \<Longrightarrow> json_value (bs @ v)"
proof -
  have "list_all is_space bs \<Longrightarrow> parse_space (bs @ s) = parse_space s" for s
    by (induction bs) (simp_all add: parse_space_def)
  then show "list_all is_space bs \<Longrightarrow> json_value v \<Longrightarrow> json_value (bs @ v)"
    by (simp add: json_value_def)
qed

lemma member_parses:
  assumes "plain_member (fst e) \<and> json_value (snd e)" and "delim rest"
  shows "parse_member (member e @ rest) = Inr rest"
proof -
  have v: "parse_space (snd e @ rest) \<noteq> []" "parse_value (parse_space (snd e @ rest)) = Inr rest"
    using assms by (auto simp: json_value_def)
  then have "snd e @ rest \<noteq> []" by auto
  with v assms show ?thesis
    by (subst parse_member_unfold) (auto simp: is_string_def plain_string)
qed

lemma object_loop_member:
  assumes "plain_member (fst e) \<and> json_value (snd e)" and "c = CHR '','' \<or> c = CHR ''}''"
  shows "object_loop (member e @ c # t) = object_loop (if c = CHR '','' then t else c # t)"
proof -
  have "delim (c # t)" using assms(2) by (auto simp: delim_def)
  moreover have "parse_space (c # t) = c # t" using assms(2) by (auto simp: is_space_def)
  moreover have "parse_space (DQ # u) = DQ # u" for u by (simp add: is_space_def)
  ultimately show ?thesis
    using member_parses [OF assms(1), of "c # t"] assms(2)
    by (subst object_loop_unfold [of "member e @ c # t"]) auto
qed

lemma object_loop_members: "members_ok es \<Longrightarrow> object_loop (join (map member es) @ CHR ''}'' # rest) = Inr rest"
proof (induction es rule: induct_list012)
  case 1
  show ?case by (subst object_loop_unfold) simp
next
  case (2 x)
  have "object_loop (CHR ''}'' # rest) = Inr rest" by (subst object_loop_unfold) simp
  then show ?case using 2 object_loop_member [of x "CHR ''}''" rest] by simp
next
  case (3 x y zs)
  then show ?case using object_loop_member [of x "CHR '',''"] by simp
qed

lemma object_value: "members_ok es \<Longrightarrow> json_value (object es)"
  by (rule value_text) (simp_all add: object_def parse_value_object object_loop_members)

section \<open>Numbers as a stream writes them\<close>

text \<open>What \<open>operator<<\<close> writes for a finite floating point number: digits, with a fraction or an exponent where they are needed.\<close>

definition digits :: "string \<Rightarrow> bool" where
  "digits ds \<longleftrightarrow> ds \<noteq> [] \<and> list_all is_digit ds"

definition float_text :: "string \<Rightarrow> bool" where
  "float_text t \<longleftrightarrow> (\<exists>sg n fr ex. t = sg @ decimal (int n) @ fr @ ex \<and> sg \<in> {[], ''-''}
     \<and> (fr = [] \<or> (\<exists>ds. fr = CHR ''.'' # ds \<and> digits ds))
     \<and> (ex = [] \<or> (\<exists>c ds. ex = CHR ''e'' # c # ds \<and> c \<in> set ''+-'' \<and> digits ds)))"

lemma parse_digit_pair: "digits ds \<Longrightarrow> rest = [] \<or> \<not> is_digit (hd rest) \<Longrightarrow> \<exists>q. parse_digit (ds @ rest) p = (rest, q)"
  using parse_digit_app [of ds rest p] by (metis digits_def prod.collapse)

lemma parse_exp_text:
  assumes "ex = [] \<or> (\<exists>c ds. ex = CHR ''e'' # c # ds \<and> c \<in> set ''+-'' \<and> digits ds)" and "delim rest"
  shows "\<exists>q. parse_exp (ex @ rest, p) = Inr (rest, q)"
proof (cases ex)
  case Nil
  then show ?thesis using delim_ends_number [OF assms(2)] by simp
next
  case (Cons e s)
  then obtain c ds where ex: "ex = CHR ''e'' # c # ds" "c \<in> set ''+-''" "digits ds" using assms(1) by auto
  then obtain d ds' where ds: "ds = d # ds'" "is_digit d" by (cases ds) (auto simp: digits_def)
  obtain q where "parse_digit (ds @ rest) (p + 2) = (rest, q)"
    using parse_digit_pair [OF ex(3) delim_ends_number(1) [OF assms(2)]] by blast
  then show ?thesis using ex ds by (auto simp: parse_exp_def)
qed

lemma parse_frac_text:
  assumes "fr = [] \<or> (\<exists>ds. fr = CHR ''.'' # ds \<and> digits ds)" and "r = [] \<or> \<not> is_digit (hd r) \<and> hd r \<noteq> CHR ''.''"
  shows "\<exists>q. parse_frac (fr @ r, p) = Inr (r, q)"
proof (cases fr)
  case Nil
  then show ?thesis using assms(2) by (auto simp: parse_frac_def)
next
  case (Cons e s)
  then obtain ds where fr: "fr = CHR ''.'' # ds" "digits ds" using assms(1) by auto
  then obtain d ds' where ds: "ds = d # ds'" "is_digit d" by (cases ds) (auto simp: digits_def)
  obtain q where "parse_digit (ds @ r) (p + 1) = (r, q)" using parse_digit_pair [OF fr(2)] assms(2) by blast
  then show ?thesis using fr ds by (auto simp: parse_frac_def)
qed

lemma parse_int_text:
  assumes "r = [] \<or> \<not> is_digit (hd r)"
  shows "\<exists>q. parse_int_part (decimal (int n) @ r, p) = Inr (r, q)"
proof (cases "int n" rule: decimal_digits)
  case zero
  then show ?thesis by (simp add: parse_int_part_def)
next
  case (digits c ds)
  then have "decimal (int n) = c # ds" "digits (c # ds)" by (simp_all add: digits_def)
  moreover obtain q where "parse_digit ((c # ds) @ r) p = (r, q)"
    using parse_digit_pair [OF calculation(2) assms] by blast
  ultimately show ?thesis using digits(1,2) by (auto simp: parse_int_part_def simp del: parse_digit.simps)
qed

lemma float_value: "float_text t \<Longrightarrow> json_value t"
proof -
  assume "float_text t"
  then obtain sg n fr ex where t: "t = sg @ decimal (int n) @ fr @ ex" "sg \<in> {[], ''-''}"
    and fr: "fr = [] \<or> (\<exists>ds. fr = CHR ''.'' # ds \<and> digits ds)"
    and ex: "ex = [] \<or> (\<exists>c ds. ex = CHR ''e'' # c # ds \<and> c \<in> set ''+-'' \<and> digits ds)"
    unfolding float_text_def by blast
  obtain c s where d: "decimal (int n) = c # s" "c = CHR ''-'' \<or> is_digit c" using decimal_starts by blast
  have c: "is_digit c" using d by (cases "int n" rule: decimal_digits) (auto simp: is_digit_iff)
  then have minus: "c \<noteq> CHR ''-''" by (auto simp: is_digit_iff)
  have t0: "t \<noteq> []" "starts_value (hd t)" "is_number (t @ rest)" "\<not> is_null (t @ rest)" "\<not> is_bool (t @ rest)" for rest
    using t(1,2) d c digit_starts_value [OF c] by (auto simp: is_number_def is_null_def is_bool_def is_digit_iff)
  have "parse_number (t @ rest) = Inr rest" if rest: "delim rest" for rest
  proof -
    have e: "ex @ rest = [] \<or> \<not> is_digit (hd (ex @ rest)) \<and> hd (ex @ rest) \<noteq> CHR ''.''"
      using ex delim_ends_number [OF rest] rest by (auto simp: delim_def is_space_def is_digit_iff)
    then have f: "fr @ ex @ rest = [] \<or> \<not> is_digit (hd (fr @ ex @ rest))" using fr by (auto simp: is_digit_iff)
    obtain q where "parse_sign (t @ rest) 0 = (decimal (int n) @ fr @ ex @ rest, q)"
      using t d minus by (auto simp: parse_sign_def)
    moreover obtain q' where "parse_int_part (decimal (int n) @ fr @ ex @ rest, q) = Inr (fr @ ex @ rest, q')"
      using parse_int_text [OF f] by blast
    moreover obtain q'' where "parse_frac (fr @ ex @ rest, q') = Inr (ex @ rest, q'')"
      using parse_frac_text [OF fr e] by blast
    moreover obtain q3 where "parse_exp (ex @ rest, q'') = Inr (rest, q3)" using parse_exp_text [OF ex rest] by blast
    ultimately show ?thesis using t0(1) by (simp add: parse_number_def)
  qed
  then show "json_value t" using t0 by (intro value_text) (simp_all add: parse_value_unfold)
qed

section \<open>The answer by its members\<close>

definition method_member ::
  "(timeval list \<Rightarrow> string) \<Rightarrow> (timeval list \<Rightarrow> string) \<Rightarrow> timeval \<Rightarrow> common_stat list \<Rightarrow> nat \<times> string \<Rightarrow> string \<times> string" where
  "method_member avg tot now stat e = (let xs = map (stat_at now (fst e)) stat in (snd e, object
     [(''count'', decimal (total_count xs)), (''average_time'', avg (map average_span xs)), (''total_time'', tot (map sum_span xs))]))"

abbreviation more :: "(string \<times> string) list \<Rightarrow> string" where
  "more es \<equiv> concat (map (\<lambda>e. CHR '','' # member e) es)"

lemma join_more: "join (map member (e # es)) = member e @ more es"
  by (induction es arbitrary: e) simp_all

lemma method_statistics_more:
  "method_statistics avg tot now (Suc n) names stat = more (map (method_member avg tot now stat) (enumerate (Suc n) names))"
  by (induction names arbitrary: n) (simp_all add: method_member_def object_def Let_def)

lemma method_statistics_join:
  "method_statistics avg tot now 0 names stat = join (map member (map (method_member avg tot now stat) (enumerate 0 names)))"
proof (cases names)
  case (Cons name names')
  show ?thesis
    unfolding Cons enumerate_simps list.map(2) [of "method_member avg tot now stat"] join_more
    by (simp add: method_statistics_more method_member_def object_def Let_def)
qed simp

definition system_members :: "process_info \<Rightarrow> (string \<times> string) list" where
  "system_members p =
     [(''pid'', decimal (pi_pid p)), (''uptime'', decimal (pi_time p - pi_start p)),
      (''user'', decimal (pi_utime p sdiv pi_clk_tck p)), (''system'', decimal (pi_stime p sdiv pi_clk_tck p))]
     @ (case pi_fds p of None \<Rightarrow> [] | Some n \<Rightarrow> [(''files'', decimal (int n))])"

lemma system_statistics_more: "system_statistics p = more [(''system'', object (system_members p))]"
  by (auto simp: system_statistics_def system_members_def object_def split: option.splits)

text \<open>The lines of \<open>/proc/self/status\<close> that are looked at: a number in kilobytes after blanks.\<close>

definition blanks :: "string \<Rightarrow> bool" where
  "blanks bs \<longleftrightarrow> set bs \<subseteq> {CHR '' '', TAB}"

definition kilobytes :: "string \<Rightarrow> bool" where
  "kilobytes s \<longleftrightarrow> (\<exists>bs n. s = bs @ decimal (int n) @ '' kB'' @ [LF] \<and> blanks bs)"

definition status_ok :: "string list \<Rightarrow> bool" where
  "status_ok ls \<longleftrightarrow> list_all (\<lambda>l.
     (prefix ''VmSize:'' l \<longrightarrow> kilobytes (drop 7 l)) \<and> (prefix ''VmRSS:'' l \<longrightarrow> 7 \<le> length l \<and> kilobytes (drop 7 l))) ls"

lemma status_loop_ok:
  assumes "status_ok ls" "pred_option kilobytes vmsize" "pred_option kilobytes vmrss"
  shows "\<exists>r. status_loop vmsize vmrss ls = Inr r \<and> pred_option (\<lambda>(a, b). kilobytes a \<and> kilobytes b) r"
  using assms
proof (induction ls arbitrary: vmsize vmrss)
  case Nil
  then show ?case by (cases vmsize; cases vmrss) auto
next
  case (Cons l ls)
  then show ?case by (cases vmsize; cases vmrss) (auto simp: status_ok_def simp del: prefix_code)
qed

lemma decimal_one_line: "CR \<notin> set (decimal i)"
  by (cases i rule: decimal_digits) (auto simp: is_digit_iff list_all_iff)

lemma cut_kilobytes: "kilobytes s \<Longrightarrow> \<exists>v. cut_unit s = Inr v \<and> json_value v \<and> CR \<notin> set v"
proof -
  assume "kilobytes s"
  then obtain bs n where s: "s = bs @ decimal (int n) @ '' kB'' @ [LF]" "blanks bs" by (auto simp: kilobytes_def)
  have "list_all is_space bs" "CR \<notin> set bs" using s(2) by (auto simp: blanks_def list_all_iff is_space_def)
  then show ?thesis
    using s(1) blanks_value [OF _ decimal_json_value, of bs "int n"] by (auto simp: cut_unit_def decimal_one_line)
qed

abbreviation member_line :: "string \<times> string \<Rightarrow> bool" where
  "member_line e \<equiv> plain_member (fst e) \<and> json_value (snd e) \<and> CR \<notin> set (fst e) \<and> CR \<notin> set (snd e)"

lemma memory_more:
  assumes "pred_option status_ok status"
  shows "\<exists>es. memory_statistics status = Inr (more es) \<and> list_all member_line es"
proof (cases status)
  case None
  then show ?thesis by (intro exI [of _ "[]"]) (simp add: memory_statistics_def)
next
  case (Some ls)
  then obtain r where r: "status_loop None None ls = Inr r" "pred_option (\<lambda>(a, b). kilobytes a \<and> kilobytes b) r"
    using assms status_loop_ok [of ls None None] by auto
  show ?thesis
  proof (cases r)
    case None
    then show ?thesis using Some r by (intro exI [of _ "[]"]) (simp add: memory_statistics_def)
  next
    case r': (Some ab)
    obtain a b where ab: "r = Some (a, b)" using r' by (cases ab) simp
    then have "kilobytes a" "kilobytes b" using r(2) by simp_all
    then obtain v w where v: "cut_unit a = Inr v" "json_value v" "CR \<notin> set v" "cut_unit b = Inr w" "json_value w" "CR \<notin> set w"
      using cut_kilobytes by meson
    have "json_value (object [(''virtual'', v), (''resident'', w)])"
      by (rule object_value) (use v in \<open>simp add: plain_member_def plain_name_def ascii_def\<close>)
    then show ?thesis
      using Some r ab v by (intro exI [of _ "[(''memory'', object [(''virtual'', v), (''resident'', w)])]"])
        (simp add: memory_statistics_def object_def plain_member_def plain_name_def ascii_def)
  qed
qed

lemma object_line:
  assumes "list_all member_line es"
  shows "json_value (object es) \<and> CR \<notin> set (object es)"
proof
  show "json_value (object es)" by (rule object_value) (use assms in \<open>simp add: list_all_iff\<close>)
  have "CR \<notin> set (join (map member es))"
    using assms by (induction es rule: induct_list012) auto
  then show "CR \<notin> set (object es)" by (simp add: object_def)
qed

lemma join_append: "xs \<noteq> [] \<Longrightarrow> join (map member (xs @ ys)) = join (map member xs) @ more ys"
  by (cases xs) (simp_all only: append_Cons join_more, simp_all)

lemma get_statistics_object:
  assumes "pred_option status_ok (pi_status p)"
  obtains es where "list_all member_line es"
    and "\<And>names stat. names \<noteq> [] \<Longrightarrow> get_statistics avg tot now p [] names (Some stat) = Inr (object
       (map (method_member avg tot now stat) (enumerate 0 names) @ (''system'', object (system_members p)) # es))"
    and "\<And>names. get_statistics avg tot now p [] names None =
       Inr (object ((''stat_is_zero'', ''true'') # (''system'', object (system_members p)) # es))"
proof -
  let ?more = "(''system'', object (system_members p))"
  obtain es where es: "memory_statistics (pi_status p) = Inr (more es)" "list_all member_line es"
    using memory_more [OF assms] by blast
  have obj: "object (xs @ ?more # es) = ''{'' @ join (map member xs) @ system_statistics p @ more es @ ''}''" if "xs \<noteq> []" for xs
    using join_append [OF that, of "?more # es"] by (simp add: object_def [of "xs @ _"] system_statistics_more)
  show thesis
  proof
    show "get_statistics avg tot now p [] names (Some stat) = Inr (object
       (map (method_member avg tot now stat) (enumerate 0 names) @ ?more # es))" if "names \<noteq> []" for names stat
      using that obj [of "map (method_member avg tot now stat) (enumerate 0 names)"]
      by (simp add: get_statistics_def es(1) method_statistics_join enumerate_eq_zip)
    show "get_statistics avg tot now p [] names None = Inr (object ((''stat_is_zero'', ''true'') # ?more # es))" for names
      using obj [of "[(''stat_is_zero'', ''true'')]"] by (simp add: get_statistics_def es(1))
  qed (rule es(2))
qed

section \<open>The answer is JSON\<close>

lemma digits_one_line: "digits ds \<Longrightarrow> CR \<notin> set ds"
  by (auto simp: digits_def list_all_iff is_digit_iff dest!: bspec [of _ _ CR])

lemma float_one_line: "float_text t \<Longrightarrow> CR \<notin> set t"
  by (auto simp: float_text_def decimal_one_line dest: digits_one_line)

lemma method_member_line:
  assumes "\<And>xs. float_text (avg xs)" "\<And>xs. float_text (tot xs)" "plain_member name" "CR \<notin> set name"
  shows "member_line (method_member avg tot now stat (i, name))"
proof -
  have "list_all member_line [(''count'', decimal (total_count xs)), (''average_time'', avg ys), (''total_time'', tot zs)]" for xs ys zs
    using assms(1,2) by (simp add: float_value float_one_line decimal_json_value decimal_one_line plain_member_def plain_name_def ascii_def)
  from object_line [OF this] show ?thesis using assms(3,4) by (simp add: method_member_def Let_def)
qed

lemma system_line: "member_line (''system'', object (system_members p))"
proof -
  have "list_all member_line (system_members p)"
    by (auto simp: system_members_def decimal_json_value decimal_one_line plain_member_def plain_name_def ascii_def split: option.splits)
  from object_line [OF this] show ?thesis by (simp add: plain_member_def plain_name_def ascii_def)
qed

lemma daemon_names: "name \<in> fst ` set method_list \<Longrightarrow> plain_member name \<and> CR \<notin> set name"
  by (auto simp: method_list_def plain_member_def plain_name_def ascii_def)

lemma object_split:
  assumes "j < length es"
  shows "\<exists>pre post. object es = pre @ member (es ! j) @ post"
proof -
  let ?xs = "take j es" and ?ys = "drop (Suc j) es"
  have es: "es = ?xs @ es ! j # ?ys" using assms by (simp add: id_take_nth_drop)
  show ?thesis
  proof (cases "?xs = []")
    case True
    then have "join (map member es) = member (es ! j) @ more ?ys" by (subst es) (simp only: append_Nil join_more)
    then show ?thesis by (intro exI [of _ "''{''"] exI [of _ "more ?ys @ ''}''"]) (simp add: object_def)
  next
    case False
    have "join (map member es) = join (map member ?xs) @ more (es ! j # ?ys)" by (subst es) (rule join_append [OF False])
    then show ?thesis
      by (intro exI [of _ "''{'' @ join (map member ?xs) @ '',''"] exI [of _ "more ?ys @ ''}''"]) (simp add: object_def)
  qed
qed

lemma count_entry:
  assumes "length calls < 2 ^ 31"
  shows "\<exists>post. member (method_member avg tot now [fold finish_call calls common_stat_new] (j, name)) =
    key name @ ''{'' @ key ''count'' @ decimal (int (length (filter (\<lambda>x. fst x = j) calls))) @ '','' @ post"
proof -
  have "length (filter (\<lambda>x. fst x = j) calls) < 2 ^ 31" using assms length_filter_le le_less_trans by blast
  then have "fits c_int (int (length (filter (\<lambda>x. fst x = j) calls)))" by (simp add: fits_def c_int_def bits_of_def)
  then have "total_count [stat_at now j (fold finish_call calls common_stat_new)] = int (length (filter (\<lambda>x. fst x = j) calls))"
    using calls_counted [of now j calls] by (simp add: total_count_def wrap_fits c_int_def)
  then show ?thesis by (auto simp: method_member_def object_def Let_def)
qed


definition example_process :: process_info where
  "example_process = \<lparr>pi_pid = 4711, pi_time = 100, pi_start = 40, pi_utime = 250, pi_stime = 30, pi_clk_tck = 100, pi_fds = Some 7,
     pi_status = Some [''Name:'' @ TAB # ''leveldb-daemon'' @ [LF], ''VmSize:'' @ TAB # ''  10 kB'' @ [LF], ''VmRSS:'' @ TAB # '' 7 kB'' @ [LF]]\<rparr>"

lemma decimal_small: "decimal 0 = ''0''" "decimal 1 = ''1''" "decimal 7 = ''7''" "decimal 10 = ''10''"
  by (simp_all add: decimal_def put_digits.simps signed_divide_int_def signed_modulo_int_def char_of_def bit_0)

lemma example_status: "pred_option status_ok (pi_status example_process)"
proof -
  have "kilobytes (TAB # ''  10 kB'' @ [LF])" "kilobytes ('' 7 kB'' @ [LF])"
    unfolding kilobytes_def
    by (rule exI [of _ "TAB # ''  ''"], rule exI [of _ 10]) (simp add: decimal_small blanks_def,
        rule exI [of _ "'' ''"], rule exI [of _ 7], simp add: decimal_small blanks_def)
  then show ?thesis by (simp add: example_process_def status_ok_def)
qed


end
