(* ===== verification/Process.thy ===== *)
theory Process
  imports Rpc_Laws
begin

text \<open>
  The start of the process: \<open>main\<close> of \<open>src/daemon.cpp\<close> up to the point where the servers are made, with \<open>daemonize\<close>,
  \<open>redirect_output\<close> and \<open>change_user\<close> of \<open>common/misc.hpp\<close> and \<open>create_db\<close> of \<open>src/db.hpp\<close>.

  The state is what the kernel keeps of the process: its open files and its credentials. What \<open>boost::program_options\<close>
  makes of the command line is an argument, as are the answers of the system calls: the descriptor that \<open>open\<close> gives,
  which side of \<open>fork\<close> this is, which files can be opened again, the entries of the password file, and the credential calls
  that fail. An exception that nobody catches (all of them are thrown as pointers) ends the process.
\<close>

section \<open>Descriptors\<close>

datatype ofile = Dev_null | Log_file string | Inherited nat

type_synonym fds = "nat \<rightharpoonup> ofile"

datatype outcome = Exits int | Terminates

datatype fork_result = Child | Fork_failed | Parent

definition dup2 :: "nat \<Rightarrow> nat \<Rightarrow> fds \<Rightarrow> fds" where
  "dup2 a b K = (case K a of None \<Rightarrow> K | Some f \<Rightarrow> K(b \<mapsto> f))"

definition replace_fd :: "nat \<Rightarrow> nat \<Rightarrow> fds \<Rightarrow> fds" where
  "replace_fd null n K = dup2 null n (K(n := None))"

definition daemonize :: "bool \<Rightarrow> bool \<Rightarrow> nat option \<Rightarrow> fork_result \<Rightarrow> fds \<Rightarrow> outcome + fds" where
  "daemonize allow_stderr allow_stdout opened forked K = (case opened of
     None \<Rightarrow> Inl (Exits 1)
   | Some null \<Rightarrow> (case forked of
       Child \<Rightarrow>
         (let K = replace_fd null 0 (K(null \<mapsto> Dev_null));
              K = (if \<not> allow_stdout then replace_fd null 1 K else K);
              K = (if \<not> allow_stderr then replace_fd null 2 K else K)
          in Inr K)
     | Fork_failed \<Rightarrow> Inl (Exits 1)
     | Parent \<Rightarrow> Inl (Exits 0)))"

text \<open>\<open>freopen\<close> closes the stream when the file cannot be opened; otherwise the stream keeps its descriptor.\<close>

definition redirect_output :: "(nat \<Rightarrow> bool) \<Rightarrow> string \<Rightarrow> fds \<Rightarrow> fds" where
  "redirect_output opens log K =
     (if log = [] then K
      else K(2 := if opens 2 then Some (Log_file log) else None, 1 := if opens 1 then Some (Log_file log) else None))"

section \<open>Credentials\<close>

record creds =
  cr_uid :: "32 word"
  cr_euid :: "32 word"
  cr_gid :: "32 word"
  cr_groups :: "32 word set"

datatype cred_call = Set_gid | Init_groups | Set_groups | Set_uid

text \<open>\<open>--user=uid/gid\<close>, or the name of a user.\<close>

definition user_ids :: "(string \<Rightarrow> (32 word \<times> 32 word) option) \<Rightarrow> string \<Rightarrow> outcome + bool \<times> 32 word \<times> 32 word" where
  "user_ids getpwnam user =
     (if CHR ''/'' \<in> set user
      then (case (atoi (takeWhile (\<lambda>c. c \<noteq> CHR ''/'') user @ [NUL]), atoi (tl (dropWhile (\<lambda>c. c \<noteq> CHR ''/'') user) @ [NUL])) of
          (Inr u, Inr g) \<Rightarrow> Inr (False, of_int u, of_int g)
        | _ \<Rightarrow> Inl Terminates)
      else (case getpwnam user of None \<Rightarrow> Inl Terminates | Some (u, g) \<Rightarrow> Inr (True, u, g)))"

definition change_user ::
  "(string \<Rightarrow> (32 word \<times> 32 word) option) \<Rightarrow> (string \<Rightarrow> 32 word \<Rightarrow> 32 word set) \<Rightarrow> (cred_call \<Rightarrow> bool) \<Rightarrow> string \<Rightarrow>
   creds \<Rightarrow> outcome + creds" where
  "change_user getpwnam groups_of fails user c =
     (if cr_uid c \<noteq> 0 \<and> cr_euid c \<noteq> 0 then Inr c
      else bindE (user_ids getpwnam user) (\<lambda>(by_name, u, g).
        if fails Set_gid then Inl Terminates
        else if (if by_name then fails Init_groups else fails Set_groups) then Inl Terminates
        else if fails Set_uid then Inl Terminates
        else Inr \<lparr>cr_uid = u, cr_euid = u, cr_gid = g, cr_groups = (if by_name then groups_of user g else {})\<rparr>))"

section \<open>The start\<close>

record options =
  op_help :: bool
  op_log_file :: string
  op_user :: string
  op_daemonize :: bool

record process =
  pr_creds :: creds
  pr_fds :: fds

definition create_db :: "bool \<Rightarrow> outcome + unit" where
  "create_db ok = (if \<not> ok then Inl Terminates else Inr ())"

text \<open>\<open>main\<close> up to line 214; \<open>None\<close> where the options cannot be read.\<close>

definition main_start ::
  "(string \<Rightarrow> (32 word \<times> 32 word) option) \<Rightarrow> (string \<Rightarrow> 32 word \<Rightarrow> 32 word set) \<Rightarrow> (cred_call \<Rightarrow> bool) \<Rightarrow>
   (nat \<Rightarrow> bool) \<Rightarrow> (fds \<Rightarrow> nat option) \<Rightarrow> fork_result \<Rightarrow> bool \<Rightarrow> options option \<Rightarrow> process \<Rightarrow> outcome + process" where
  "main_start getpwnam groups_of fails opens open_null forked db_ok vm p = (case vm of
     None \<Rightarrow> Inl (Exits 1)
   | Some vm \<Rightarrow>
       if op_help vm then Inl (Exits 0)
       else let p = (if op_log_file vm \<noteq> [] then p\<lparr>pr_fds := redirect_output opens (op_log_file vm) (pr_fds p)\<rparr> else p) in
         bindE (if op_user vm \<noteq> [] then change_user getpwnam groups_of fails (op_user vm) (pr_creds p) else Inr (pr_creds p)) (\<lambda>c.
         bindE (if op_daemonize vm
                then daemonize (op_log_file vm \<noteq> []) (op_log_file vm \<noteq> []) (open_null (pr_fds p)) forked (pr_fds p)
                else Inr (pr_fds p)) (\<lambda>K.
         bindE (create_db db_ok) (\<lambda>_. Inr \<lparr>pr_creds = c, pr_fds = K\<rparr>))))"

section \<open>Privileges\<close>

text \<open>\<open>atoi\<close> of a C string stays within it.\<close>

lemma digits_loop_stops: "snd (digits_loop t v (s @ [NUL])) \<noteq> []"
  by (induction s arbitrary: v) (auto simp: is_digit_iff)

lemma atoi_c_string: "\<exists>v. atoi (s @ [NUL]) = Inr v"
proof -
  have "\<exists>t. dropWhile atoi_space (s @ [NUL]) = t @ [NUL]"
    by (induction s) (auto simp: atoi_space_def)
  then obtain t where t: "dropWhile atoi_space (s @ [NUL]) = t @ [NUL]" by blast
  then have "\<exists>t'. (if t @ [NUL] \<noteq> [] \<and> (hd (t @ [NUL]) = CHR ''-'' \<or> hd (t @ [NUL]) = CHR ''+'') then tl (t @ [NUL]) else t @ [NUL]) = t' @ [NUL]"
    by (cases t) auto
  with t show ?thesis
    using digits_loop_stops by (auto simp: atoi_def Let_def split: prod.splits) (metis snd_conv)+
qed

lemma atoi_number: "fits c_int v \<Longrightarrow> atoi (decimal v @ [NUL]) = Inr v"
  using atoi_decimal [of v NUL "[]"] by (simp add: is_digit_iff)

lemma decimal_no_slash: "CHR ''/'' \<notin> set (decimal v)"
  by (cases v rule: decimal_digits) (auto simp: is_digit_iff list_all_iff dest!: bspec [of _ _ "CHR ''/''"])

lemma user_ids_numbers:
  assumes "fits c_int u" "fits c_int g"
  shows "user_ids getpwnam (decimal u @ CHR ''/'' # decimal g) = Inr (False, of_int u, of_int g)"
proof -
  have "\<forall>c \<in> set (decimal u). c \<noteq> CHR ''/''" using decimal_no_slash by metis
  then show ?thesis
    using assms by (simp add: user_ids_def atoi_number takeWhile_append2 dropWhile_append2)
qed

text \<open>
  The two lines that a start as root must not miss: the identity is given up altogether, and before the database is
  opened.\<close>

lemma change_user_result:
  assumes "cr_uid c = 0 \<or> cr_euid c = 0"
  shows "change_user getpwnam groups_of fails user c = Inr c' \<longleftrightarrow>
    (\<exists>by_name u g. user_ids getpwnam user = Inr (by_name, u, g)
      \<and> \<not> fails Set_gid \<and> \<not> fails (if by_name then Init_groups else Set_groups) \<and> \<not> fails Set_uid
      \<and> c' = \<lparr>cr_uid = u, cr_euid = u, cr_gid = g, cr_groups = (if by_name then groups_of user g else {})\<rparr>)"
  using assms by (cases "user_ids getpwnam user") (auto simp: change_user_def split: if_splits)

lemma names_keep_root:
  "change_user getpwnam groups_of (\<lambda>_. False) ''www/www'' \<lparr>cr_uid = 0, cr_euid = 0, cr_gid = 0, cr_groups = G\<rparr>
   = Inr \<lparr>cr_uid = 0, cr_euid = 0, cr_gid = 0, cr_groups = {}\<rparr>"
  by (simp add: change_user_def user_ids_def atoi_def atoi_space_def is_digit_iff)

section \<open>Detaching\<close>

text \<open>
  Where the first three descriptors are open, \<open>open\<close> gives another one, and the child has what it should have; where
  standard input is closed, \<open>open\<close> gives its number, and every descriptor that should lead to \<open>/dev/null\<close> is closed.\<close>

lemma daemonize_detaches:
  assumes "2 < null"
  shows "\<exists>K'. daemonize allow_stderr allow_stdout (Some null) Child K = Inr K' \<and> K' 0 = Some Dev_null
    \<and> K' 1 = (if allow_stdout then K 1 else Some Dev_null) \<and> K' 2 = (if allow_stderr then K 2 else Some Dev_null)
    \<and> K' null = Some Dev_null \<and> (\<forall>d. 2 < d \<longrightarrow> d \<noteq> null \<longrightarrow> K' d = K d)"
  using assms by (auto simp: daemonize_def replace_fd_def dup2_def Let_def)

lemma daemonize_without_stdin:
  "\<exists>K'. daemonize allow_stderr allow_stdout (Some 0) Child K = Inr K' \<and> K' 0 = None
    \<and> K' 1 = (if allow_stdout then K 1 else None) \<and> K' 2 = (if allow_stderr then K 2 else None)"
  by (auto simp: daemonize_def replace_fd_def dup2_def Let_def)

section \<open>The running process\<close>



section \<open>The supervisor\<close>

text \<open>
  \<open>autoup\<close> starts the process again when it has ended. The loop takes the results of \<open>fork\<close>, -1 where it fails; the result is
  what \<open>kill\<close> is called with before a child goes on, and \<open>kill(-1, SIGKILL)\<close> reaches every process of the user.
\<close>

fun autoup :: "int list \<Rightarrow> int list" where
  "autoup [] = []"
| "autoup (pid # pids) = (if pid = 0 then [] else pid # autoup pids)"

lemma failed_fork_kills_all: "pids = ps @ -1 # qs \<Longrightarrow> 0 \<notin> set ps \<Longrightarrow> -1 \<in> set (autoup pids)"
  by (induction ps arbitrary: pids) auto

end
