(* ===== verification/Mt_Server.thy ===== *)
theory Mt_Server
  imports Fronts
begin

text \<open>
  The server that gives its clients to threads through pipes, \<open>fas/inet/mt_server.hpp\<close>. The main thread accepts and writes
  the descriptor into the pipe of the next child, in turn; the child's thread watches the other end, reads the
  descriptor and makes a connection of it (\<open>server_base::_accept\<close> of \<open>fas/inet/server.hpp\<close> with a descriptor). The
  daemon has this file for its mutex and its own threads in \<open>Fronts\<close>.

  A child has a server of theory \<open>Server\<close> with a multiplexer of its own, which does not listen but watches the pipe. A
  number is written to a pipe as a whole or not at all, since it is shorter than \<open>PIPE_BUF\<close>; whether there is room is
  an argument. \<open>ch_taken\<close> and \<open>mt_log\<close> are the numbers that have been read and the attempts to write.
\<close>

section \<open>Children\<close>

definition idle_start :: "string \<Rightarrow> 'm tcp_server \<Rightarrow> 'm tcp_server" where
  "idle_start a v = (if sv_started v then v else v\<lparr>sv_local := a, sv_started := True\<rparr>)"

text \<open>\<open>_accept\<close> with the descriptor of a client.\<close>

definition server_adopt :: "'m imux \<Rightarrow> nat \<Rightarrow> 'm conn \<Rightarrow> nat \<Rightarrow> string \<Rightarrow> ('m tcp_server, nat option) op" where
  "server_adopt M fresh proto d a =
     seqS (upd (\<lambda>v. v\<lparr>sv_fds := insert d (sv_fds v)\<rparr>)) (\<lambda>v.
       if \<not> sv_started v \<or> sv_max v \<le> card (pl_active (sv_pool v))
       then seqS (server_close M d) (ret None) v
       else bindS (server_create fresh proto) (\<lambda>pc. case pc of
              None \<Rightarrow> ret None
            | Some i \<Rightarrow> seqS (on_conn i (assign M i d (sv_local v) a)) (ret (Some i))) v)"

record 'm child =
  ch_rd :: nat
  ch_wd :: "nat option"
  ch_pipe :: "int list"
  ch_taken :: "int list"
  ch_server :: "'m tcp_server"

definition on_child :: "('m tcp_server, 'a) op \<Rightarrow> ('m child, unit) op" where
  "on_child f c = (case f (ch_server c) of
     (Inl e, v) \<Rightarrow> (Inl e, c\<lparr>ch_server := v\<rparr>) | (Inr _, v) \<Rightarrow> (Inr (), c\<lparr>ch_server := v\<rparr>))"

text \<open>
  \<open>child_server::ready_read\<close> for the pipe. At the end of the pipe \<open>read\<close> gives 0, while the pipe is only empty it gives
  nothing. \<open>evs\<close> and \<open>evss\<close> are for the calls of \<open>select\<close> in \<open>_stop\<close>.
\<close>

definition child_ready_read ::
  "'m imux \<Rightarrow> 'm conn \<Rightarrow> (nat \<times> happening) list \<Rightarrow> (nat \<times> happening) list list \<Rightarrow> nat \<Rightarrow> ('m child, unit) op" where
  "child_ready_read M proto evs evss fresh c = (case ch_pipe c of
     [] \<Rightarrow> if ch_wd c = None then on_child (server_stop M evs evss) c else ret () c
   | x # q \<Rightarrow> seqS (upd (\<lambda>c. c\<lparr>ch_pipe := q, ch_taken := ch_taken c @ [x]\<rparr>)) (\<lambda>c.
       if sv_started (ch_server c)
       then if x = -1 then on_child (server_stop M evs evss) c
            else on_child (server_adopt M fresh proto (nat x) []) c
       else on_child (seqS (upd (\<lambda>v. v\<lparr>sv_fds := insert (nat x) (sv_fds v)\<rparr>)) (server_close M (nat x))) c) c)"

text \<open>\<open>mt_thread\<close>: its first line watches the pipe; its last calls \<open>select\<close> once more and close the pipe.\<close>

definition thread_start :: "'m imux \<Rightarrow> ('m child, unit) op" where
  "thread_start M c = on_child (on_server_mux (mx_set M Ev_read (ch_rd c) 0)) c"

definition thread_end :: "'m imux \<Rightarrow> 'm conn \<Rightarrow> bool \<Rightarrow> ('m child, unit) op" where
  "thread_end M proto rd_ready c =
     seqS (if rd_ready then child_ready_read M proto [] [] 0 else ret ()) (on_child (server_close M (ch_rd c))) c"

section \<open>The main thread\<close>

record 'm mt_server =
  mt_started :: bool
  mt_max_threads :: nat
  mt_count :: nat
  mt_childs :: "'m child list"
  mt_closed :: "nat list"
  mt_log :: "(nat \<times> nat \<times> bool) list"

text \<open>\<open>_start\<close>: one child for each pipe, a copy of the prototype.\<close>

definition new_child :: "'m imux \<Rightarrow> 'm config \<Rightarrow> (nat \<times> nat) \<times> 'm \<Rightarrow> 'm child" where
  "new_child M u = (\<lambda>((rd, wd), m). snd (thread_start M
     \<lparr>ch_rd = rd, ch_wd = Some wd, ch_pipe = [], ch_taken = [],
      ch_server = idle_start (su_local u) ((server_new (su_limit u) (su_max u) [] (su_proto u) m)\<lparr>sv_fds := {rd}\<rparr>)\<rparr>))"

definition mt_start :: "'m imux \<Rightarrow> 'm config \<Rightarrow> ((nat \<times> nat) \<times> 'm) list \<Rightarrow> 'm mt_server" where
  "mt_start M u pipes = \<lparr>mt_started = True, mt_max_threads = length pipes, mt_count = 0,
     mt_childs = map (new_child M u) pipes, mt_closed = [], mt_log = []\<rparr>"

text \<open>
  \<open>_ready_read\<close>: a client that no pipe takes is closed. The number of threads is a setting, which need not be
  the number of children.
\<close>

definition mt_ready_read :: "exn + nat option \<Rightarrow> bool \<Rightarrow> ('m mt_server, unit) op" where
  "mt_ready_read accepted room = seqS (upd (\<lambda>s. if mt_max_threads s \<le> mt_count s then s\<lparr>mt_count := 0\<rparr> else s)) (\<lambda>s.
     case accepted of
       Inl e \<Rightarrow> raise e s
     | Inr None \<Rightarrow> ret () s
     | Inr (Some d) \<Rightarrow>
         if d = 0 then ret () s
         else let k = mt_count s in
           if length (mt_childs s) \<le> k then raise Out_of_bounds s
           else if room
           then upd (\<lambda>s. s\<lparr>mt_count := k + 1, mt_log := mt_log s @ [(k, d, True)],
                  mt_childs := (mt_childs s)[k := (mt_childs s ! k)\<lparr>ch_pipe := ch_pipe (mt_childs s ! k) @ [int d]\<rparr>]\<rparr>) s
           else upd (\<lambda>s. s\<lparr>mt_count := k + 1, mt_log := mt_log s @ [(k, d, False)], mt_closed := mt_closed s @ [d]\<rparr>) s)"

definition stop_child :: "'m imux \<Rightarrow> ('m child, unit) op" where
  "stop_child M = seqS (upd (\<lambda>c. c\<lparr>ch_wd := None\<rparr>)) (on_child (server_stop M [] []))"

definition mt_stop :: "'m imux \<Rightarrow> 'm mt_server \<Rightarrow> 'm mt_server" where
  "mt_stop M s = (if \<not> mt_started s then s
     else s\<lparr>mt_childs := map (\<lambda>c. snd (stop_child M c)) (mt_childs s), mt_started := False\<rparr>)"

section \<open>Histories\<close>

datatype mt_event = Mt_accepts "exn + nat option" bool | Child_reads nat nat | Child_conn nat nat happening

definition on_nth :: "nat \<Rightarrow> ('m child \<Rightarrow> 'm child) \<Rightarrow> 'm mt_server \<Rightarrow> 'm mt_server" where
  "on_nth j f s = s\<lparr>mt_childs := (mt_childs s)[j := f (mt_childs s ! j)]\<rparr>"

definition mt_happen :: "'m imux \<Rightarrow> 'm conn \<Rightarrow> mt_event \<Rightarrow> 'm mt_server \<Rightarrow> 'm mt_server" where
  "mt_happen M proto x s = (case x of
     Mt_accepts accepted room \<Rightarrow> snd (mt_ready_read accepted room s)
   | Child_reads j fresh \<Rightarrow> on_nth j (\<lambda>c. snd (child_ready_read M proto [] [] fresh c)) s
   | Child_conn j i y \<Rightarrow> on_nth j (\<lambda>c. c\<lparr>ch_server := put_conn i (happen M i y (load i (ch_server c))) (ch_server c)\<rparr>) s)"

fun mt_happens :: "'m imux \<Rightarrow> 'm conn \<Rightarrow> mt_event list \<Rightarrow> 'm mt_server \<Rightarrow> 'm mt_server" where
  "mt_happens M proto [] s = s"
| "mt_happens M proto (x # xs) s = mt_happens M proto xs (mt_happen M proto x s)"

section \<open>A child is a server that listens on its pipe\<close>

text \<open>
  No operation of a server but \<open>start\<close> and \<open>stop\<close> looks at \<open>_listen\<close>; so what is proved of a server that listens on a
  descriptor holds of one that watches a pipe in its place.
\<close>

definition watching :: "nat \<Rightarrow> 'm tcp_server \<Rightarrow> 'm tcp_server" where
  "watching d v = v\<lparr>sv_listen := Some d\<rparr>"

definition blind :: "('m tcp_server, 'a) op \<Rightarrow> bool" where
  "blind f \<longleftrightarrow> (\<forall>d v. f (watching d v) = (fst (f v), watching d (snd (f v))))"

lemma watching_sel [simp]:
  "sv_started (watching d v) = sv_started v" "sv_max (watching d v) = sv_max v" "sv_pool (watching d v) = sv_pool v"
  "sv_conns (watching d v) = sv_conns v" "sv_mx (watching d v) = sv_mx v" "sv_fds (watching d v) = sv_fds v"
  "sv_local (watching d v) = sv_local v" "load i (watching d v) = load i v" "sv_listen (watching d v) = Some d"
  "known (watching d v) = known v" "opens (watching d v) = opens v"
  by (simp_all add: watching_def load_def known_def opens_def)

lemma watching_put [simp]: "put_conn i s (watching d v) = watching d (put_conn i s v)"
  by (simp add: watching_def put_conn_def load_def)

lemma blind_bind: "blind f \<Longrightarrow> (\<And>r. blind (g r)) \<Longrightarrow> blind (bindS f g)"
  by (auto simp: blind_def bindS_def split: sum.splits prod.splits)

lemma blind_state: "(\<And>v. blind (g v)) \<Longrightarrow> (\<And>d v. g (watching d v) = g v) \<Longrightarrow> blind (\<lambda>v. g v v)"
  by (simp add: blind_def)

lemma blind_steps [simp]:
  "blind (ret x)" "blind (raise e)" "blind (upd (\<lambda>v. v\<lparr>sv_fds := F (sv_fds v)\<rparr>))" "blind (server_close M d)"
  "blind (on_pool f)" "blind (on_conn i h)" "blind (upd (\<lambda>v. if new then v\<lparr>sv_conns := (sv_conns v)(i := proto)\<rparr> else v))"
  by (auto simp: blind_def op_defs watching_def server_close_def on_pool_def on_conn_def load_def put_conn_def split: prod.splits)

lemma blind_create: "blind (server_create fresh proto)"
  unfolding server_create_def by (auto intro!: blind_bind split: option.splits)

lemma blind_adopt: "blind (server_adopt M fresh proto d a)"
proof -
  have "blind (\<lambda>v. (if \<not> sv_started v \<or> sv_max v \<le> card (pl_active (sv_pool v)) then seqS (server_close M d) (ret None)
      else bindS (server_create fresh proto) (\<lambda>pc. case pc of
        None \<Rightarrow> ret None | Some i \<Rightarrow> seqS (on_conn i (assign M i d (sv_local v) a)) (ret (Some i)))) v)"
    by (rule blind_state) (auto intro!: blind_bind blind_create split: option.splits)
  then show ?thesis
    unfolding server_adopt_def by (intro blind_bind) (auto simp: if_distribR cong: if_cong)
qed

lemma adopt_accept: "sv_started v \<Longrightarrow> server_adopt M fresh proto d a v = server_accept M fresh proto (Inr (Some (d, a))) v"
  by (simp add: server_adopt_def server_accept_def op_defs)

lemma new_child_server:
  assumes "mx_set M Ev_read rd 0 m = (Inr old, m')"
  shows "watching rd (ch_server (new_child M u ((rd, wd), m))) =
      snd (server_start M rd (server_new (su_limit u) (su_max u) (su_local u) (su_proto u) m))"
    and "ch_rd (new_child M u ((rd, wd), m)) = rd" "ch_wd (new_child M u ((rd, wd), m)) = Some wd"
    and "ch_pipe (new_child M u ((rd, wd), m)) = []" "ch_taken (new_child M u ((rd, wd), m)) = []"
  using assms
  by (simp_all add: new_child_def thread_start_def on_child_def idle_start_def server_new_def on_server_mux_def server_start_def
      op_defs watching_def)

section \<open>The invariant\<close>

definition child_fds :: "'m child \<Rightarrow> nat set" where
  "child_fds c = sv_fds (ch_server c) \<union> nat ` set (ch_pipe c)"

definition child_ok :: "('m \<Rightarrow> bool) \<Rightarrow> 'm view \<Rightarrow> (nat \<Rightarrow> bool) \<Rightarrow> nat \<Rightarrow> 'm child \<Rightarrow> bool" where
  "child_ok ok wants fit n c \<longleftrightarrow>
     sv_ok ok wants fit (watching (ch_rd c) (ch_server c)) \<and> serving (ch_rd c) n (watching (ch_rd c) (ch_server c))
     \<and> ch_wd c \<noteq> None \<and> distinct (ch_pipe c) \<and> (\<forall>x \<in> set (ch_pipe c). 0 < x \<and> fit (nat x) \<and> nat x \<notin> sv_fds (ch_server c))"

definition apart :: "'m child list \<Rightarrow> bool" where
  "apart cs \<longleftrightarrow> (\<forall>i < length cs. \<forall>j < length cs. i \<noteq> j \<longrightarrow> child_fds (cs ! i) \<inter> child_fds (cs ! j) = {})"

definition handed :: "nat \<Rightarrow> (nat \<times> nat \<times> bool) list \<Rightarrow> int list" where
  "handed j L = map (\<lambda>(k, d, r). int d) (filter (\<lambda>(k, d, r). k = j \<and> r) L)"

definition in_turn :: "'m mt_server \<Rightarrow> bool" where
  "in_turn s \<longleftrightarrow> mt_max_threads s = length (mt_childs s) \<and> mt_childs s \<noteq> [] \<and> mt_count s \<le> length (mt_childs s)
     \<and> mt_count s mod length (mt_childs s) = length (mt_log s) mod length (mt_childs s)
     \<and> map fst (mt_log s) = map (\<lambda>k. k mod length (mt_childs s)) [0..<length (mt_log s)]
     \<and> (\<forall>j < length (mt_childs s). ch_taken (mt_childs s ! j) @ ch_pipe (mt_childs s ! j) = handed j (mt_log s))
     \<and> mt_closed s = map (\<lambda>(k, d, r). d) (filter (\<lambda>(k, d, r). \<not> r) (mt_log s))"

definition mt_ok :: "('m \<Rightarrow> bool) \<Rightarrow> 'm view \<Rightarrow> (nat \<Rightarrow> bool) \<Rightarrow> nat \<Rightarrow> 'm mt_server \<Rightarrow> bool" where
  "mt_ok ok wants fit n s \<longleftrightarrow> list_all (child_ok ok wants fit n) (mt_childs s) \<and> apart (mt_childs s) \<and> in_turn s"

text \<open>What the kernel and \<open>new\<close> promise: an accepted descriptor is not in use, a new object has an address of its own.\<close>

definition mt_law :: "(nat \<Rightarrow> bool) \<Rightarrow> 'm mt_server \<Rightarrow> mt_event \<Rightarrow> bool" where
  "mt_law fit s x = (case x of
     Mt_accepts accepted room \<Rightarrow> (case accepted of
       Inr (Some d) \<Rightarrow> fit d \<and> list_all (\<lambda>c. d \<notin> child_fds c) (mt_childs s) | _ \<Rightarrow> True)
   | Child_reads j fresh \<Rightarrow> j < length (mt_childs s) \<and> fresh \<noteq> 0 \<and> fresh \<notin> known (ch_server (mt_childs s ! j))
   | Child_conn j i y \<Rightarrow> j < length (mt_childs s) \<and> i \<in> known (ch_server (mt_childs s ! j)) \<and> happening_law y)"

fun mt_laws :: "(nat \<Rightarrow> bool) \<Rightarrow> 'm imux \<Rightarrow> 'm conn \<Rightarrow> mt_event list \<Rightarrow> 'm mt_server \<Rightarrow> bool" where
  "mt_laws fit M proto [] s \<longleftrightarrow> True"
| "mt_laws fit M proto (x # xs) s \<longleftrightarrow> mt_law fit s x \<and> mt_laws fit M proto xs (mt_happen M proto x s)"

text \<open>The client of an event, and whether a pipe had room for it.\<close>

definition mt_client :: "mt_event \<Rightarrow> (nat \<times> bool) list" where
  "mt_client x = (case x of Mt_accepts (Inr (Some d)) room \<Rightarrow> if d = 0 then [] else [(d, room)] | _ \<Rightarrow> [])"

text \<open>A child that gets no descriptors but new ones stays apart from the others.\<close>

lemma apart_update:
  assumes "apart cs" "j < length cs" "child_fds c \<subseteq> child_fds (cs ! j) \<union> D" "\<And>i. i < length cs \<Longrightarrow> i \<noteq> j \<Longrightarrow> child_fds (cs ! i) \<inter> D = {}"
  shows "apart (cs[j := c])"
  using assms unfolding apart_def by (auto simp: nth_list_update) blast+

context imux_laws
begin

lemma child_accepts:
  assumes "child_ok ok wants fits n c" "d \<notin> child_fds c" "fits d" "0 < d"
  shows "child_ok ok wants fits n (c\<lparr>ch_pipe := ch_pipe c @ [int d]\<rparr>)"
  using assms by (auto simp: child_ok_def child_fds_def image_iff)

lemma child_serves:
  fixes proto :: "'m conn"
  assumes "child_ok ok wants fits n c" "proto_ok proto" "i \<in> known (ch_server c)" "happening_law y"
    and "v = put_conn i (happen M i y (load i (ch_server c))) (ch_server c)"
  shows "child_ok ok wants fits n (c\<lparr>ch_server := v\<rparr>) \<and> sv_fds v \<subseteq> sv_fds (ch_server c)"
proof -
  let ?w = "watching (ch_rd c) (ch_server c)" and ?x = "Conn_event i y"
  have w: "sgood ?w" "serving (ch_rd c) n ?w" using assms(1) by (simp_all add: child_ok_def)
  have law: "event_law fits ?w ?x" using assms(3,4) by (simp add: event_law_def)
  have v: "server_happen M proto ?x ?w = watching (ch_rd c) v" by (simp add: server_happen_def assms(5))
  show ?thesis
    using server_happen_ok [OF w assms(2) law] server_happen_fds [OF w assms(2) law] assms(1)
    by (auto simp: v child_ok_def)
qed

lemma child_takes:
  fixes proto :: "'m conn"
  assumes "child_ok ok wants fits n c" "proto_ok proto" "fresh \<noteq> 0" "fresh \<notin> known (ch_server c)" "ch_pipe c = x # q"
  shows "\<exists>v. snd (child_ready_read M proto [] [] fresh c) = c\<lparr>ch_pipe := q, ch_taken := ch_taken c @ [x], ch_server := v\<rparr>
    \<and> child_ok ok wants fits n (c\<lparr>ch_pipe := q, ch_taken := ch_taken c @ [x], ch_server := v\<rparr>)
    \<and> sv_fds v \<subseteq> insert (nat x) (sv_fds (ch_server c))"
proof -
  let ?w = "watching (ch_rd c) (ch_server c)" and ?x = "Accepts fresh (Inr (Some (nat x, [])))"
  have w: "sgood ?w" "serving (ch_rd c) n ?w" and x: "0 < x" "fits (nat x)" "nat x \<notin> sv_fds (ch_server c)"
    and q: "x \<notin> set q" "\<forall>y \<in> set q. 0 < y"
    using assms(1,5) by (auto simp: child_ok_def)
  have law: "event_law fits ?w ?x" using assms(3,4) x by (simp add: event_law_def)
  obtain r v where v: "server_adopt M fresh proto (nat x) [] (ch_server c) = (r, v)" by (cases "server_adopt M fresh proto (nat x) [] (ch_server c)")
  have started: "sv_started (ch_server c)" using w(2) by (simp add: serving_def)
  have "server_adopt M fresh proto (nat x) [] ?w = (r, watching (ch_rd c) v)"
    using blind_adopt [of M fresh proto "nat x" "[]"] v by (simp add: blind_def)
  then have happen: "server_happen M proto ?x ?w = watching (ch_rd c) v"
    using adopt_accept [of ?w] started by (simp add: server_happen_def)
  have "snd (child_ready_read M proto [] [] fresh c) = c\<lparr>ch_pipe := q, ch_taken := ch_taken c @ [x], ch_server := v\<rparr>"
    using started x(1) v assms(5) by (simp add: child_ready_read_def op_defs on_child_def split: sum.splits)
  moreover have fds: "sv_fds v \<subseteq> insert (nat x) (sv_fds (ch_server c))"
    using server_happen_fds [OF w assms(2) law] by (simp add: happen)
  moreover have "nat y \<noteq> nat x" if "y \<in> set q" for y using that q x(1) by (metis eq_nat_nat_iff less_imp_le)
  ultimately show ?thesis
    using server_happen_ok [OF w assms(2) law] assms(1,5) by (fastforce simp: happen child_ok_def)
qed

text \<open>A step of one child.\<close>

lemma mt_child_step:
  assumes "mt_ok ok wants fits n s" "j < length (mt_childs s)" "child_ok ok wants fits n c"
    and "child_fds c \<subseteq> child_fds (mt_childs s ! j)" "ch_taken c @ ch_pipe c = ch_taken (mt_childs s ! j) @ ch_pipe (mt_childs s ! j)"
  shows "mt_ok ok wants fits n (s\<lparr>mt_childs := (mt_childs s)[j := c]\<rparr>)"
proof -
  have "list_all (child_ok ok wants fits n) ((mt_childs s)[j := c])"
    using assms(1,3) set_update_subset_insert [of "mt_childs s" j c] by (auto simp: mt_ok_def list_all_iff)
  moreover have "apart ((mt_childs s)[j := c])"
    using assms(1,2,4) apart_update [of "mt_childs s" j c "{}"] by (simp add: mt_ok_def)
  moreover have "in_turn (s\<lparr>mt_childs := (mt_childs s)[j := c]\<rparr>)"
    using assms(1,2,5) by (auto simp: mt_ok_def in_turn_def nth_list_update)
  ultimately show ?thesis by (simp add: mt_ok_def)
qed

lemma mt_children_ok:
  fixes proto :: "'m conn"
  assumes "mt_ok ok wants fits n s" "proto_ok proto" "mt_law fits s x" "\<And>accepted room. x \<noteq> Mt_accepts accepted room"
  shows "mt_ok ok wants fits n (mt_happen M proto x s)"
proof (cases x)
  case (Child_reads j fresh)
  let ?c = "mt_childs s ! j"
  have j: "j < length (mt_childs s)" "fresh \<noteq> 0" "fresh \<notin> known (ch_server ?c)" using assms(3) Child_reads by (simp_all add: mt_law_def)
  have c: "child_ok ok wants fits n ?c" using assms(1) j(1) by (simp add: mt_ok_def list_all_length)
  show ?thesis
  proof (cases "ch_pipe ?c")
    case Nil
    then have "child_ready_read M proto [] [] fresh ?c = (Inr (), ?c)"
      using c by (auto simp: child_ready_read_def child_ok_def op_defs)
    then show ?thesis using assms(1) Child_reads by (simp add: mt_happen_def on_nth_def)
  next
    case (Cons y q)
    from child_takes [OF c assms(2) j(2,3) Cons] obtain v where v:
      "snd (child_ready_read M proto [] [] fresh ?c) = ?c\<lparr>ch_pipe := q, ch_taken := ch_taken ?c @ [y], ch_server := v\<rparr>"
      "child_ok ok wants fits n (?c\<lparr>ch_pipe := q, ch_taken := ch_taken ?c @ [y], ch_server := v\<rparr>)"
      "sv_fds v \<subseteq> insert (nat y) (sv_fds (ch_server ?c))" by blast
    show ?thesis
      using mt_child_step [OF assms(1) j(1) v(2)] v(1,3) Cons Child_reads by (auto simp: mt_happen_def on_nth_def child_fds_def)
  qed
next
  case (Child_conn j i y)
  let ?c = "mt_childs s ! j" and ?v = "put_conn i (happen M i y (load i (ch_server (mt_childs s ! j)))) (ch_server (mt_childs s ! j))"
  have j: "j < length (mt_childs s)" "i \<in> known (ch_server ?c)" "happening_law y" using assms(3) Child_conn by (simp_all add: mt_law_def)
  have c: "child_ok ok wants fits n ?c" using assms(1) j(1) by (simp add: mt_ok_def list_all_length)
  from child_serves [OF c assms(2) j(2,3) refl] show ?thesis
    using mt_child_step [OF assms(1) j(1), of "?c\<lparr>ch_server := ?v\<rparr>"] Child_conn
    by (auto simp: mt_happen_def on_nth_def child_fds_def)
qed (use assms(4) in simp)

lemma mt_accepts_ok:
  assumes "mt_ok ok wants fits n s" "mt_law fits s (Mt_accepts (Inr (Some d)) room)" "0 < d"
    and "k = mt_count s mod length (mt_childs s)" "c = mt_childs s ! k"
  shows "mt_ready_read (Inr (Some d)) room s = (Inr (), s\<lparr>mt_count := k + 1, mt_log := mt_log s @ [(k, d, room)],
      mt_childs := if room then (mt_childs s)[k := c\<lparr>ch_pipe := ch_pipe c @ [int d]\<rparr>] else mt_childs s,
      mt_closed := mt_closed s @ (if room then [] else [d])\<rparr>)"
    and "mt_ok ok wants fits n (snd (mt_ready_read (Inr (Some d)) room s))"
proof -
  let ?n = "length (mt_childs s)" and ?c = "c\<lparr>ch_pipe := ch_pipe c @ [int d]\<rparr>"
  have t: "mt_max_threads s = ?n" "mt_childs s \<noteq> []" "mt_count s \<le> ?n" "mt_count s mod ?n = length (mt_log s) mod ?n"
    "map fst (mt_log s) = map (\<lambda>k. k mod ?n) [0..<length (mt_log s)]"
    "\<And>j. j < ?n \<Longrightarrow> ch_taken (mt_childs s ! j) @ ch_pipe (mt_childs s ! j) = handed j (mt_log s)"
    "mt_closed s = map (\<lambda>(k, d, r). d) (filter (\<lambda>(k, d, r). \<not> r) (mt_log s))"
    using assms(1) by (auto simp: mt_ok_def in_turn_def)
  have k: "k < ?n" "(if ?n \<le> mt_count s then 0 else mt_count s) = k" using t(2,3) assms(4) by (auto simp: mod_if)
  show run: "mt_ready_read (Inr (Some d)) room s = (Inr (), s\<lparr>mt_count := k + 1, mt_log := mt_log s @ [(k, d, room)],
      mt_childs := if room then (mt_childs s)[k := ?c] else mt_childs s, mt_closed := mt_closed s @ (if room then [] else [d])\<rparr>)"
    using k assms(3,5) by (auto simp: mt_ready_read_def op_defs Let_def t(1) split: if_splits)
  have d: "fits d" "\<And>i. i < ?n \<Longrightarrow> d \<notin> child_fds (mt_childs s ! i)"
    using assms(2) by (auto simp: mt_law_def list_all_length)
  have c: "child_ok ok wants fits n c" using assms(1,5) k(1) by (simp add: mt_ok_def list_all_length)
  have "child_ok ok wants fits n ?c" using child_accepts [OF c _ d(1) assms(3)] d(2) [OF k(1)] assms(5) by simp
  then have "list_all (child_ok ok wants fits n) ((mt_childs s)[k := ?c])"
    using assms(1) set_update_subset_insert [of "mt_childs s" k ?c] by (auto simp: mt_ok_def list_all_iff)
  moreover have "apart ((mt_childs s)[k := ?c])"
    using assms(1,5) k(1) d(2) by (intro apart_update [where D = "{d}"]) (auto simp: mt_ok_def child_fds_def)
  moreover have "Suc (mt_count s mod ?n) mod ?n = Suc (length (mt_log s)) mod ?n" using t(4) by (metis mod_Suc_eq)
  ultimately show "mt_ok ok wants fits n (snd (mt_ready_read (Inr (Some d)) room s))"
    using assms(1,4,5) t k(1) unfolding run
    by (auto simp: mt_ok_def in_turn_def handed_def nth_list_update Suc_le_eq)
qed

lemma mt_happen_ok:
  fixes proto :: "'m conn"
  assumes "mt_ok ok wants fits n s" "proto_ok proto" "mt_law fits s x"
  shows "mt_ok ok wants fits n (mt_happen M proto x s) \<and> map snd (mt_log (mt_happen M proto x s)) = map snd (mt_log s) @ mt_client x
    \<and> length (mt_childs (mt_happen M proto x s)) = length (mt_childs s)"
proof (cases x)
  case (Mt_accepts accepted room)
  show ?thesis
  proof (cases "\<exists>d > 0. accepted = Inr (Some d)")
    case True
    then obtain d where d: "0 < d" "accepted = Inr (Some d)" by blast
    then show ?thesis
      using mt_accepts_ok [OF assms(1) _ d(1) refl refl, of room] assms(3) Mt_accepts by (simp add: mt_happen_def mt_client_def)
  next
    case False
    then have "d = 0" if "accepted = Inr (Some d)" for d using that by simp
    then have "snd (mt_ready_read accepted room s) = (if mt_max_threads s \<le> mt_count s then s\<lparr>mt_count := 0\<rparr> else s) \<and> mt_client x = []"
      using Mt_accepts by (auto simp: mt_ready_read_def op_defs mt_client_def split: sum.splits option.splits)
    then show ?thesis using assms(1) Mt_accepts by (auto simp: mt_happen_def mt_ok_def in_turn_def)
  qed
next
  case (Child_reads j fresh)
  then show ?thesis using mt_children_ok [OF assms] by (simp add: mt_happen_def on_nth_def mt_client_def)
next
  case (Child_conn j i y)
  then show ?thesis using mt_children_ok [OF assms] by (simp add: mt_happen_def on_nth_def mt_client_def)
qed

lemma mt_happens_ok:
  fixes proto :: "'m conn"
  assumes "mt_ok ok wants fits n s" "proto_ok proto" "mt_laws fits M proto xs s"
  shows "mt_ok ok wants fits n (mt_happens M proto xs s) \<and> map snd (mt_log (mt_happens M proto xs s)) = map snd (mt_log s) @ concat (map mt_client xs)
    \<and> length (mt_childs (mt_happens M proto xs s)) = length (mt_childs s)"
  using assms by (induction xs arbitrary: s) (use mt_happen_ok in auto)

lemma new_child_ok:
  assumes "setup_ok ok wants fits u" "ok m" "\<And>e d. wants m e d = None" "fits rd" "c = new_child M u ((rd, wd), m)"
  shows "child_ok ok wants fits (su_max u) c \<and> child_fds c = {rd} \<and> ch_taken c @ ch_pipe c = []"
proof -
  obtain old m' where m: "mx_set M Ev_read rd 0 m = (Inr old, m')" using setE [OF assms(2,4)] assms(3) by metis
  obtain v where v: "server_start M rd (server_new (su_limit u) (su_max u) (su_local u) (su_proto u) m) = (Inr (), v)" "sgood v"
    "serving rd (su_max u) v" "known v = {}"
    using start_ok [OF assms(2,3,4), of "su_max u" "su_limit u"] assms(1) by (auto simp: setup_ok_def)
  have w: "watching rd (ch_server c) = v" using new_child_server(1) [OF m, of u wd] v(1) assms(5) by simp
  have "sv_fds v = {rd}" using v(2-4) by (simp add: sv_ok_def fds_ok_def serving_def opens_def known_def)
  then have "sv_fds (ch_server c) = {rd}" using w by (metis watching_sel(6))
  then show ?thesis
    using v(2,3) w new_child_server(2-5) [OF m, of u wd] assms(5) by (simp add: child_ok_def child_fds_def)
qed

lemma mt_start_ok:
  assumes "setup_ok ok wants fits u" "pipes \<noteq> []" "distinct (map (\<lambda>((rd, wd), m). rd) pipes)"
    and "list_all (\<lambda>((rd, wd), m). ok m \<and> (\<forall>e d. wants m e d = None) \<and> fits rd) pipes"
  shows "mt_ok ok wants fits (su_max u) (mt_start M u pipes)"
proof -
  let ?cs = "map (new_child M u) pipes" let ?rd = "\<lambda>((rd, wd :: nat), m :: 'm). rd"
  have c: "child_ok ok wants fits (su_max u) (new_child M u p) \<and> child_fds (new_child M u p) = {?rd p}
      \<and> ch_taken (new_child M u p) @ ch_pipe (new_child M u p) = []" if "p \<in> set pipes" for p
    using new_child_ok [OF assms(1) _ _ _ refl] assms(4) that by (cases p) (fastforce simp: list_all_iff)
  have "?rd (pipes ! i) \<noteq> ?rd (pipes ! j)" if "i < length pipes" "j < length pipes" "i \<noteq> j" for i j
    using assms(3) that nth_eq_iff_index_eq [OF assms(3), of i j] by simp
  then have "apart ?cs" using c by (simp add: apart_def)
  then show ?thesis
    using c assms(2) by (auto simp: mt_ok_def mt_start_def in_turn_def handed_def list_all_iff)
qed

end

section \<open>What the server guarantees\<close>

text \<open>Two children under \<open>selector\<close>s; three clients come, and each child reads once.\<close>

definition example_mt :: "selector mt_server" where
  "example_mt = mt_start selector_mux (example_setup\<lparr>su_max := 4\<rparr>) [((3, 4), selector_new), ((5, 6), selector_new)]"

definition example_clients :: "mt_event list" where
  "example_clients = [Mt_accepts (Inr (Some 7)) True, Mt_accepts (Inr (Some 8)) True, Child_reads 0 1,
     Mt_accepts (Inr (Some 9)) True, Child_reads 1 1]"

lemma example_clients_fds:
  "map (\<lambda>k. map (\<lambda>c. (child_fds c, known (ch_server c))) (mt_childs (mt_happens selector_mux (su_proto example_setup) (take k example_clients) example_mt)))
     [0, 1, 2, 3, 4] =
   [[({3}, {}), ({5}, {})], [({3, 7}, {}), ({5}, {})], [({3, 7}, {}), ({5, 8}, {})], [({3, 7}, {1}), ({5, 8}, {})],
    [({3, 7, 9}, {1}), ({5, 8}, {})]]"
  by code_simp

lemma example_mt_law:
  "mt_laws (\<lambda>d. d < FD_SETSIZE) selector_mux (su_proto example_setup) example_clients example_mt"
  using example_clients_fds
  by (auto simp: example_clients_def mt_law_def FD_SETSIZE_def map_eq_Cons_conv)

text \<open>
  C20. The threads get the clients in turn, and each client has one owner. Over any history of accepted clients, reads of the
  children and events of their connections, the k-th client is offered to child \<open>k mod n\<close>; those that its pipe had no
  room for are closed, the others are, in order, those the child has read and those that wait in its pipe. No
  descriptor is known to two children, and each child watches its own connections and its own pipe only.\<close>

theorem mt_server_in_turn:
  assumes "imux_laws M ok wants fit" and "setup_ok ok wants fit u" and "pipes \<noteq> []"
    and "distinct (map (\<lambda>((rd, wd), m). rd) pipes)"
    and "list_all (\<lambda>((rd, wd), m). ok m \<and> (\<forall>e d. wants m e d = None) \<and> fit rd) pipes"
    and "mt_laws fit M (su_proto u) xs (mt_start M u pipes)"
    and "s = mt_happens M (su_proto u) xs (mt_start M u pipes)" and "j < length pipes"
  shows "map snd (mt_log s) = concat (map mt_client xs)
    \<and> map fst (mt_log s) = map (\<lambda>k. k mod length pipes) [0..<length (mt_log s)]
    \<and> ch_taken (mt_childs s ! j) @ ch_pipe (mt_childs s ! j) = handed j (mt_log s)
    \<and> mt_closed s = map (\<lambda>(k, d, r). d) (filter (\<lambda>(k, d, r). \<not> r) (mt_log s))
    \<and> (\<forall>i < length pipes. i \<noteq> j \<longrightarrow> child_fds (mt_childs s ! i) \<inter> child_fds (mt_childs s ! j) = {})
    \<and> (\<forall>e d h. wants (sv_mx (ch_server (mt_childs s ! j))) e d = Some h \<longrightarrow> d \<in> sv_fds (ch_server (mt_childs s ! j)))"
proof -
  have p: "proto_ok (su_proto u)" using assms(2) by (simp add: setup_ok_def)
  have start: "mt_log (mt_start M u pipes) = []" "length (mt_childs (mt_start M u pipes)) = length pipes" by (simp_all add: mt_start_def)
  have s: "mt_ok ok wants fit (su_max u) s" "map snd (mt_log s) = concat (map mt_client xs)" "length (mt_childs s) = length pipes"
    using imux_laws.mt_happens_ok [OF assms(1) imux_laws.mt_start_ok [OF assms(1-5)] p assms(6)] assms(7) start by simp_all
  let ?v = "watching (ch_rd (mt_childs s ! j)) (ch_server (mt_childs s ! j))"
  have "sv_ok ok wants fit ?v" using s(1,3) assms(8) by (simp add: mt_ok_def list_all_length child_ok_def)
  from imux_laws.not_watched [OF assms(1) this]
  have "d \<in> sv_fds ?v" if "wants (sv_mx ?v) e d = Some h" for e d h using that by fastforce
  then show ?thesis
    using s assms(8) by (simp add: mt_ok_def in_turn_def apart_def)
qed

definition example_mt_run :: "selector mt_server" where
  "example_mt_run = mt_happens selector_mux (su_proto example_setup) example_clients example_mt"

theorem mt_server_in_turn_witness:
  "map snd (mt_log example_mt_run) = [(7, True), (8, True), (9, True)] \<and> map fst (mt_log example_mt_run) = [0, 1, 0]
    \<and> ch_taken (mt_childs example_mt_run ! 0) @ ch_pipe (mt_childs example_mt_run ! 0) = [7, 9]
    \<and> child_fds (mt_childs example_mt_run ! 1) \<inter> child_fds (mt_childs example_mt_run ! 0) = {}"
proof -
  let ?u = "example_setup\<lparr>su_max := 4\<rparr>" and ?pipes = "[((3, 4), selector_new), ((5, 6), selector_new)] :: ((nat \<times> nat) \<times> selector) list"
  have pipes: "list_all (\<lambda>((rd, wd), m). sl_ok m \<and> (\<forall>e d. sl_wants m e d = None) \<and> rd < FD_SETSIZE) ?pipes"
    using example_fronts_mux by (simp add: FD_SETSIZE_def)
  have law: "mt_laws (\<lambda>d. d < FD_SETSIZE) selector_mux (su_proto ?u) example_clients (mt_start selector_mux ?u ?pipes)"
    using example_mt_law by (simp add: example_mt_def)
  have run: "example_mt_run = mt_happens selector_mux (su_proto ?u) example_clients (mt_start selector_mux ?u ?pipes)"
    by (simp add: example_mt_run_def example_mt_def)
  have *: "map snd (mt_log example_mt_run) = concat (map mt_client example_clients)"
    "map fst (mt_log example_mt_run) = map (\<lambda>k. k mod length ?pipes) [0..<length (mt_log example_mt_run)]"
    "ch_taken (mt_childs example_mt_run ! 0) @ ch_pipe (mt_childs example_mt_run ! 0) = handed 0 (mt_log example_mt_run)"
    "child_fds (mt_childs example_mt_run ! 1) \<inter> child_fds (mt_childs example_mt_run ! 0) = {}"
    using mt_server_in_turn [OF sel.imux_laws_axioms example_fronts_setup _ _ pipes law run, of 0] by simp_all
  have snd: "map snd (mt_log example_mt_run) = [(7, True), (8, True), (9, True)]"
    using *(1) by (simp add: example_clients_def mt_client_def)
  then have "length (mt_log example_mt_run) = 3" by (metis length_map length_Cons list.size(3) numeral_3_eq_3)
  then have fst: "map fst (mt_log example_mt_run) = [0, 1, 0]" using *(2) by (simp add: upt_rec)
  have "mt_log example_mt_run = zip (map fst (mt_log example_mt_run)) (map snd (mt_log example_mt_run))" by (simp add: zip_map_fst_snd)
  then have "mt_log example_mt_run = [(0, 7, True), (1, 8, True), (0, 9, True)]" by (simp add: fst snd)
  then show ?thesis using snd fst *(3,4) by (simp add: handed_def)
qed

section \<open>What is lost\<close>

text \<open>
  A thread whose server has been stopped looks at its pipe at most once more, and then closes it: of the clients that
  wait there the first is closed, and the others stay open for ever.\<close>

lemma thread_end_leaks:
  assumes "\<not> sv_started (ch_server c)"
  shows "ch_pipe (snd (thread_end M proto rd_ready c)) = (if rd_ready then tl (ch_pipe c) else ch_pipe c)"
  using assms
  by (auto simp: thread_end_def child_ready_read_def op_defs on_child_def server_close_def server_stop_def split: list.splits sum.splits)

text \<open>More threads than children: the turn goes past the end of the vector.\<close>

lemma more_threads_than_children:
  assumes "mt_count s = length (mt_childs s)" "mt_count s < mt_max_threads s" "0 < d"
  shows "fst (mt_ready_read (Inr (Some d)) room s) = Inl Out_of_bounds"
  using assms by (simp add: mt_ready_read_def op_defs Let_def)

end
