(* ===== verification/Spec2Isabelle.thy ===== *)
theory Spec2Isabelle
  imports Json_Except Replication_Queue Replication_Sync Replica Key_Locks Multiserver Request_Life Fronts Udp Statistics Client_Laws Front_Types Sockets Json_Set Lru_Cache
    Stat_Report Process Mt_Server
begin

text \<open>
  A verification library for the leveldb daemon of this repository: a key/value server that answers
  JSON-RPC requests over TCP and UDP, keeps its data in LevelDB and copies every change to its slaves.
  The theories model the code of \<open>src/src\<close>, of \<open>src/common\<close> and of the parts of the library \<open>src/fas\<close>
  that the daemon is built from, and prove what makes it correct; where the code does not do what it
  should, a theorem shows the case.

  \<^bold>\<open>How the program is put together.\<close> Bytes come in from a socket that a multiplexer watches
  (\<open>epoller\<close> or \<open>selector\<close>). It calls the connection, which reads a block and passes it through a
  splitter into messages that end with \<open>\r\n\<close>. A message is parsed as a JSON-RPC request. On the main TCP
  port it is then put into the queue of a pool of threads, chosen by the name of the method; on the UDP
  port and on the port for slaves the method is run at once. The methods read and write the store, under
  a lock for each key where they read before they write, and hand every change to the replication
  master, which sends it to the slaves over their connections. The answer goes the same way back:
  serializer, writer, output buffer, socket.

  \<^bold>\<open>Conventions\<close> (\<open>Prelude\<close>). An iterator pair is the list of the characters that are left; a
  function that may throw has a result \<open>exn + 'a\<close>, and where the state at the \<open>throw\<close> matters it is a
  function from the state to a result and a state (\<open>Stream_Io\<close>). \<open>Out_of_bounds\<close> marks what C++
  leaves undefined. Machine integers have a width where the code depends on it; a record of the source
  is a record here, with the names of its fields.

  \<^bold>\<open>The theories\<close>, from the bottom up.

  \<^item> JSON, \<open>fas/misc/json\<close>. \<open>Json_Parser\<close>: the recognisers of class \<open>parser\<close>; \<open>Json_Number\<close>,
    \<open>Json_String\<close>, \<open>Json_Array\<close>, \<open>Json_Object\<close>: the serializers; \<open>Json_Except\<close>: the exceptions.
    \<open>Json_Codec\<close> states as a locale what a serializer promises (what it writes it reads back, and it
    never runs out of fuel), every serializer is an interpretation, and containers and objects are
    proved against the locale. \<open>Json_Text\<close> extends the contract: what is written, the parser skips.
    \<open>Str_Value\<close>: the two serializers of the daemon, \<open>src/strvalue.hpp\<close> and \<open>common/aj_int_quoted.hpp\<close>.
  \<^item> \<open>Requests\<close>: the structures of \<open>src/fas_queries.hpp\<close>. \<open>Store\<close>: \<open>src/db.hpp\<close>, with LevelDB as a
    parameter and its documented laws as locales. \<open>Methods\<close>, \<open>Method_Laws\<close>: \<open>src/fas_methods.hpp\<close>,
    every method with all its branches, and its effect on the contents of the store.
  \<^item> Replication, \<open>src/replication.hpp\<close>. \<open>Replication\<close>: every operation of \<open>Client_t\<close> and
    \<open>Replication\<close>. \<open>Replication_Queue\<close>: the queue of a running slave as a state machine, with its
    invariant. \<open>Replication_Sync\<close>: the first copy of the store. \<open>Replica\<close>: master and slave together.
  \<^item> \<open>Locks\<close>, \<open>Key_Locks\<close>: \<open>common/lock_atomic.hpp\<close> and the \<open>LockManager\<close>, as interleaving steps.
  \<^item> JSON-RPC, \<open>fas/adv/json_rpc3\<close>. \<open>Rpc\<close>: message objects, callers and the dispatch of
    \<open>ad_invoke\<close>; \<open>Rpc_Laws\<close>: a request that is written on one side runs its handler on the other.
  \<^item> \<open>Framing\<close>: the splitter and the writer of messages. \<open>Multiserver\<close>: reading requests into the
    pools and running them, \<open>common/multiserver.hpp\<close>. \<open>Request_Life\<close>: the life of the request objects
    under concurrency.
  \<^item> The connections. \<open>Stream_Io\<close>: \<open>read\<close> and \<open>write\<close> with their errors, and the buffers in front of
    them. \<open>Mux\<close>: the interface \<open>imux\<close> as the locale \<open>imux_laws\<close>, and the two multiplexers that keep
    it (\<open>epoller\<close> for any kernel with the laws of the locale \<open>epoll_kernel\<close>). \<open>Connection\<close>: \<open>mux_filter\<close>,
    \<open>connection\<close>, \<open>pooled_item\<close>; \<open>Connection_Laws\<close> proves inside \<open>imux_laws\<close> what each operation keeps,
    and \<open>Connection_Runs\<close> what holds of whole histories. \<open>Server\<close>, \<open>Server_Laws\<close>, \<open>Server_Runs\<close>:
    the TCP server and its pool of connections, \<open>fas/inet/server.hpp\<close> and \<open>pool.hpp\<close>, over the same
    multiplexer. \<open>Sockets\<close>: addresses, the wrappers of the system calls in \<open>fas/system/inet.hpp\<close>, and how the
    servers open and configure their sockets with them. \<open>Fronts\<close>: the threads that accept on one listening socket.
    \<open>Mt_Server\<close>: the server of \<open>fas/inet/mt_server.hpp\<close>, which hands its clients to threads through pipes; a child of it
    is a server that listens on its pipe, so that the laws of the server apply.
    \<open>Client\<close>, \<open>Client_Laws\<close>: the connection of a slave to its master, \<open>fas/inet/client.hpp\<close>,
    and the loop of \<open>src/daemon.cpp\<close> that keeps it. \<open>Udp\<close>: \<open>common/udp.hpp\<close>.
  \<^item> \<open>Session\<close>, \<open>Session_Laws\<close>: a whole session on the port for slaves, where the connection, the splitter,
    \<open>ad_invoke\<close>, the writer and the error answers work together. The state of a session extends the record of
    a connection, so the operations and laws of the connection apply to it as they are.
  \<^item> \<open>Front\<close>, \<open>Front_Laws\<close>: a connection to the main port, with the pools and their threads: the state of a session
    extended by the queues and the objects of the background threads. \<open>Json_Types\<close> and \<open>Front_Types\<close>: the types
    of what is read, as a contract of the readers (locale \<open>typed_reader\<close>), and the form of the pools for arbitrary input.
  \<^item> \<open>Statistics\<close>: the clock and the statistics of the calls. \<open>Stat_Report\<close>: the answer of \<open>get_statistics\<close>,
    \<open>common/fas_statistics.hpp\<close>.
  \<^item> \<open>Process\<close>: \<open>main\<close> of \<open>src/daemon.cpp\<close> up to the opening of the database, with the functions of
    \<open>common/misc.hpp\<close> that it calls: output, user, daemon.
  \<^item> Two helpers of \<open>src/common\<close> that other services use: \<open>Lru_Cache\<close>, the cache of \<open>lrucache.hpp\<close> over a
    container with the laws of a \<open>boost::bimap\<close> (locale \<open>bimap_laws\<close>), and \<open>Json_Set\<close>, the sets of flags of
    \<open>json_set.hpp\<close>, one more interpretation of the codec contract.
  \<^item> This theory: what a client of the main port can rely on.

  \<^bold>\<open>What is proved.\<close>

  \<^item> Replication: a slave that executes what it is sent ends with the contents of its master; updates
    arrive once and in order, no error of the protocol is raised and no queue stalls; the first copy is
    complete when nothing changes meanwhile, and loses keys or updates when something does.
  \<^item> Requests: a client's requests reach the right pools in order, however the network cuts the bytes, are run
    once each by the threads of the pool, and the answers reach the client in the order in which the requests
    were run; arbitrary input leaves the pools well formed; a call runs its handler on the other side with the parameters it was given, and the answer gets back
    to the caller; a session sends the answers to the messages it got, in order, however input and output
    are cut, and answers an error before it closes the connection;
    request objects are not used after they are freed, except in one race of \<open>clear\<close>.
  \<^item> Methods: what each leaves in the store and answers. Locks: mutual exclusion, and no lost increment.
  \<^item> JSON: round trips, totality of the parser, accesses within bounds (and the places where they are not),
    values within the range of their types for every input.
  \<^item> Connections: output is sent in order and nothing of it lost, a connection is watched exactly as long
    as it has to be, a release sends what is left, a server leaks no descriptor and mixes up no connections,
    and stopping it closes everything; a server opens altogether or throws
    and stays stopped; threads on one socket take each client once, threads behind pipes
    get the clients in turn; a slave leaks no descriptor however often it loses its master, and
    finds it again. UDP: answers go to the sender of whole messages.
  \<^item> Statistics: exact counts, sums and extremes; the error of the clock; the answer with the statistics is JSON.
  \<^item> The start: a process that root starts for another user has no identity of root left when it opens the database.
  \<^item> The cache: a function behind it keeps its values, and what is kept are the most recently used keys.

  \<^bold>\<open>Fuel.\<close> Recursions of the source that are not structural take fuel only in the JSON library: the
    nesting of values (\<open>value_fuel\<close>, the length of the input and one more, since each level consumes a
    character) and the loops over elements and members (one unit for each character, since each round
    consumes one). The codec contract proves that it never runs out. The loop of \<open>_stop\<close> takes the
    reports of its calls of \<open>select\<close>; it is proved that it is never entered. All other loops are structural or have a
    termination proof.

  \<^bold>\<open>Parameters\<close>, each with its hypotheses where something is relied on: LevelDB (locales of \<open>Store\<close>,
  interpreted on an ordered map), the order in which an \<open>unordered_map\<close> is walked, the hash function of
  the key locks, memory that is not initialised, what \<open>read\<close>, \<open>write\<close>, \<open>accept\<close>, \<open>connect\<close>, \<open>recvfrom\<close>,
  \<open>epoll_ctl\<close>, \<open>gethostbyname\<close> and \<open>gettimeofday\<close> answer, which of the calls that open a socket or change the user fail, and the address that \<open>new\<close> returns.

  \<^bold>\<open>Not modelled.\<close> Reading the options (\<open>boost::program_options\<close>) and the endless loops around \<open>select\<close>;
  the arithmetic and the texts of floating point numbers, which are parameters of \<open>get_statistics\<close>;
  the aspect library, which composes classes at compile time and has no state; and what the daemon does
  not use of the vendored library: HTTP, AMF, older JSON-RPC, PHP serialisation, variants, commands, logging.
\<close>

section \<open>The main port\<close>





end
